(* ===== verification/Prelude.thy ===== *)
theory Prelude
  imports Main "HOL-Library.Word" "HOL-Library.AList"
begin

text \<open>
  Shared vocabulary of the development: the machine integers of the Go sources as words, the
  functions of \<^verbatim>\<open>math/bits\<close> the sources call, iteration with a callback that can stop
  it, and Go's maps and sets as association lists and distinct lists.

  A Go map iterates in an unspecified order.  The model keeps an explicit order (the order of the
  list); every theorem quantifies over all lists that satisfy the component's invariant, which
  never constrains that order.
\<close>

unbundle bit_operations_syntax

type_synonym u8 = "8 word"
type_synonym u16 = "16 word"
type_synonym u32 = "32 word"
type_synonym u64 = "64 word"

named_theorems go_simps \<open>unfolding rules of small source functions\<close>
named_theorems inv_intros \<open>preservation of the components' invariants\<close>

section \<open>The functions of math/bits\<close>

definition LeadingZeros :: "'a::len word \<Rightarrow> nat" where
  "LeadingZeros w = length (takeWhile (\<lambda>i. \<not> bit w i) (rev [0..<LENGTH('a)]))"

definition TrailingZeros :: "'a::len word \<Rightarrow> nat" where
  "TrailingZeros w = length (takeWhile (\<lambda>i. \<not> bit w i) [0..<LENGTH('a)])"

lemma LeadingZeros_le: "LeadingZeros (w :: 'a::len word) \<le> LENGTH('a)"
  unfolding LeadingZeros_def
  by (rule order_trans [OF length_takeWhile_le]) simp

lemma TrailingZeros_le: "TrailingZeros (w :: 'a::len word) \<le> LENGTH('a)"
  unfolding TrailingZeros_def
  by (rule order_trans [OF length_takeWhile_le]) simp

lemma LeadingZeros_not_bit:
  fixes w :: "'a::len word"
  assumes "i < LeadingZeros w"
  shows "\<not> bit w (LENGTH('a) - 1 - i)"
proof -
  let ?xs = "rev [0..<LENGTH('a)]"
  have i: "i < length (takeWhile (\<lambda>j. \<not> bit w j) ?xs)"
    using assms by (simp add: LeadingZeros_def)
  then have "\<not> bit w (takeWhile (\<lambda>j. \<not> bit w j) ?xs ! i)"
    using set_takeWhileD [OF nth_mem [OF i]] by simp
  moreover have "i < LENGTH('a)"
    using assms LeadingZeros_le [of w] by simp
  ultimately show ?thesis
    using i by (simp add: takeWhile_nth rev_nth)
qed

lemma LeadingZeros_bit:
  fixes w :: "'a::len word"
  assumes "LeadingZeros w < LENGTH('a)"
  shows "bit w (LENGTH('a) - 1 - LeadingZeros w)"
proof -
  let ?xs = "rev [0..<LENGTH('a)]"
  have "length (takeWhile (\<lambda>j. \<not> bit w j) ?xs) < length ?xs"
    using assms by (simp add: LeadingZeros_def)
  then have "\<not> \<not> bit w (?xs ! length (takeWhile (\<lambda>j. \<not> bit w j) ?xs))"
    by (rule nth_length_takeWhile)
  then show ?thesis
    using assms by (simp add: LeadingZeros_def rev_nth)
qed

lemma LeadingZeros_less:
  fixes w :: "'a::len word"
  assumes "w \<noteq> 0"
  shows "LeadingZeros w < LENGTH('a)"
proof (rule ccontr)
  assume "\<not> LeadingZeros w < LENGTH('a)"
  then have "\<not> bit w n" if "n < LENGTH('a)" for n
    using LeadingZeros_not_bit [of "LENGTH('a) - 1 - n" w] that by simp
  then have "w = 0" by (intro bit_word_eqI) simp
  with assms show False by simp
qed

lemma TrailingZeros_not_bit:
  fixes w :: "'a::len word"
  assumes "i < TrailingZeros w"
  shows "\<not> bit w i"
proof -
  have i: "i < length (takeWhile (\<lambda>j. \<not> bit w j) [0..<LENGTH('a)])"
    using assms by (simp add: TrailingZeros_def)
  then have "\<not> bit w (takeWhile (\<lambda>j. \<not> bit w j) [0..<LENGTH('a)] ! i)"
    using set_takeWhileD [OF nth_mem [OF i]] by simp
  moreover have "i < LENGTH('a)"
    using assms TrailingZeros_le [of w] by simp
  ultimately show ?thesis
    using i by (simp add: takeWhile_nth)
qed

lemma TrailingZeros_bit:
  fixes w :: "'a::len word"
  assumes "TrailingZeros w < LENGTH('a)"
  shows "bit w (TrailingZeros w)"
proof -
  have "length (takeWhile (\<lambda>j. \<not> bit w j) [0..<LENGTH('a)]) < length [0..<LENGTH('a)]"
    using assms by (simp add: TrailingZeros_def)
  then have "\<not> \<not> bit w ([0..<LENGTH('a)] ! length (takeWhile (\<lambda>j. \<not> bit w j) [0..<LENGTH('a)]))"
    by (rule nth_length_takeWhile)
  then show ?thesis
    using assms by (simp add: TrailingZeros_def)
qed

section \<open>Iteration with a callback\<close>

text \<open>
  A Go function that takes a callback \<^verbatim>\<open>fn func(x) bool\<close> runs it on a sequence of values
  and stops when it returns false.  The callback threads the state it captures.
\<close>

fun iterate :: "('a \<Rightarrow> 's \<Rightarrow> bool \<times> 's) \<Rightarrow> 'a list \<Rightarrow> 's \<Rightarrow> bool \<times> 's" where
  "iterate fn [] s = (True, s)"
| "iterate fn (x # xs) s =
     (case fn x s of (cont, s') \<Rightarrow> if cont then iterate fn xs s' else (False, s'))"

lemma iterate_append:
  "iterate fn (xs @ ys) s =
     (case iterate fn xs s of (cont, s') \<Rightarrow> if cont then iterate fn ys s' else (False, s'))"
  by (induction xs arbitrary: s) (auto split: prod.splits)

lemma iterate_collect:
  "iterate (\<lambda>x acc. (True, acc @ [x])) xs acc = (True, acc @ xs)"
  by (induction xs arbitrary: acc) auto

end
