(* ===== verification/Bitlpm.thy ===== *)
theory Bitlpm
  imports Prelude
begin

text \<open>
  The longest-prefix-match trie of \<^verbatim>\<open>pkg/container/bitlpm/trie.go\<close>.

  The Go code is generic in a key type that implements the interface \<^verbatim>\<open>Key[K]\<close>; the
  model passes the two methods as a record.  A node that Go marks \<^verbatim>\<open>intermediate\<close> has no
  entry: its value field is the zero value and no operation reads it, so the pair of the flag and
  the value is an option (\<^verbatim>\<open>None\<close> for an intermediate node).  Go rewrites child pointers in
  place from the parent it remembers; the model rebuilds the path from the root.  A child slot is
  selected by \<^verbatim>\<open>children[k.BitValueAt(n.prefixLen)]\<close>, where the interface promises a bit.
  Prefix lengths (\<^verbatim>\<open>uint\<close>) are natural numbers.
\<close>

section \<open>Data\<close>

record 'k KeyOps =
  CommonPrefix :: "'k \<Rightarrow> 'k \<Rightarrow> nat"
  BitValueAt :: "'k \<Rightarrow> nat \<Rightarrow> u8"

datatype ('k, 'v) node =
    NilNode
  | Node (child0: "('k, 'v) node") (child1: "('k, 'v) node") (node_prefixLen: nat) (node_key: 'k)
      (node_value: "'v option")

record ('k, 'v) trie =
  trie_root :: "('k, 'v) node"
  trie_maxPrefix :: nat
  trie_entries :: nat

definition NewTrie :: "nat \<Rightarrow> ('k, 'v) trie" where
  "NewTrie maxP = \<lparr>trie_root = NilNode, trie_maxPrefix = maxP, trie_entries = 0\<rparr>"

section \<open>Operations\<close>

definition prefixMatch :: "'k KeyOps \<Rightarrow> nat \<Rightarrow> 'k \<Rightarrow> nat \<Rightarrow> 'k \<Rightarrow> nat" where
  "prefixMatch ops nPrefixLen nKey prefix k =
     (let limit = min nPrefixLen prefix;
          prefixLen = CommonPrefix ops nKey k
      in if prefixLen \<ge> limit then limit else prefixLen)"

text \<open>The callback gets the prefix length, the key and the value of the current node.\<close>

fun node_traverse ::
  "'k KeyOps \<Rightarrow> nat \<Rightarrow> nat \<Rightarrow> 'k \<Rightarrow> (nat \<times> 'k \<times> 'v \<Rightarrow> 's \<Rightarrow> bool \<times> 's) \<Rightarrow> ('k, 'v) node \<Rightarrow> 's \<Rightarrow> 's"
where
  "node_traverse ops maxP prefixLen k fn NilNode s = s"
| "node_traverse ops maxP prefixLen k fn (Node c0 c1 np nk nv) s =
     (let matchLen = prefixMatch ops np nk prefixLen k in
      if matchLen < np then s
      else case nv of
        None \<Rightarrow>
          if BitValueAt ops k np = 0 then node_traverse ops maxP prefixLen k fn c0 s
          else node_traverse ops maxP prefixLen k fn c1 s
      | Some v \<Rightarrow>
          (case fn (np, nk, v) s of (cont, s') \<Rightarrow>
             if \<not> cont \<or> matchLen = maxP then s'
             else if BitValueAt ops k np = 0 then node_traverse ops maxP prefixLen k fn c0 s'
             else node_traverse ops maxP prefixLen k fn c1 s'))"

definition traverse ::
  "'k KeyOps \<Rightarrow> ('k, 'v) trie \<Rightarrow> nat \<Rightarrow> 'k \<Rightarrow> (nat \<times> 'k \<times> 'v \<Rightarrow> 's \<Rightarrow> bool \<times> 's) \<Rightarrow> 's \<Rightarrow> 's"
where
  "traverse ops t prefixLen k fn s = node_traverse ops (trie_maxPrefix t) prefixLen k fn (trie_root t) s"

definition ExactLookup :: "'k KeyOps \<Rightarrow> ('k, 'v) trie \<Rightarrow> nat \<Rightarrow> 'k \<Rightarrow> 'v option" where
  "ExactLookup ops t prefixLen k =
     (let prefixLen = min prefixLen (trie_maxPrefix t) in
      traverse ops t prefixLen k
        (\<lambda>(np, nk, v) ret. if np = prefixLen then (False, Some v) else (True, ret)) None)"

definition LongestPrefixMatch :: "'k KeyOps \<Rightarrow> ('k, 'v) trie \<Rightarrow> 'k \<Rightarrow> ('k \<times> 'v) option" where
  "LongestPrefixMatch ops t k =
     traverse ops t (trie_maxPrefix t) k (\<lambda>(np, nk, v) lpmNode. (True, Some (nk, v))) None"

definition Ancestors ::
  "'k KeyOps \<Rightarrow> ('k, 'v) trie \<Rightarrow> nat \<Rightarrow> 'k \<Rightarrow> (nat \<times> 'k \<times> 'v \<Rightarrow> 's \<Rightarrow> bool \<times> 's) \<Rightarrow> 's \<Rightarrow> 's"
where
  "Ancestors ops t prefixLen k fn s = traverse ops t (min prefixLen (trie_maxPrefix t)) k fn s"

text \<open>
  The iterator of the ancestors: its state is the remaining subtree.  \<^verbatim>\<open>Next\<close> skips
  intermediate nodes and returns the entry together with the next state.
\<close>

record ('k, 'v) ancestorIterator =
  iter_key :: 'k
  iter_prefixLen :: nat
  iter_maxPrefix :: nat
  iter_currentNode :: "('k, 'v) node"

definition AncestorIterator :: "('k, 'v) trie \<Rightarrow> nat \<Rightarrow> 'k \<Rightarrow> ('k, 'v) ancestorIterator" where
  "AncestorIterator t prefixLen k =
     \<lparr>iter_key = k, iter_prefixLen = min prefixLen (trie_maxPrefix t), iter_maxPrefix = trie_maxPrefix t,
      iter_currentNode = trie_root t\<rparr>"

fun ancestor_Next ::
  "'k KeyOps \<Rightarrow> nat \<Rightarrow> nat \<Rightarrow> 'k \<Rightarrow> ('k, 'v) node \<Rightarrow> (('k \<times> 'v) \<times> ('k, 'v) node) option"
where
  "ancestor_Next ops maxP prefixLen k NilNode = None"
| "ancestor_Next ops maxP prefixLen k (Node c0 c1 np nk nv) =
     (let matchLen = prefixMatch ops np nk prefixLen k in
      if matchLen < np then None
      else case nv of
        None \<Rightarrow>
          if BitValueAt ops k np = 0 then ancestor_Next ops maxP prefixLen k c0
          else ancestor_Next ops maxP prefixLen k c1
      | Some v \<Rightarrow>
          Some ((nk, v),
            if matchLen = maxP then NilNode else if BitValueAt ops k np = 0 then c0 else c1))"

definition ancestorIterator_Next ::
  "'k KeyOps \<Rightarrow> ('k, 'v) ancestorIterator \<Rightarrow> (('k \<times> 'v) \<times> ('k, 'v) ancestorIterator) option"
where
  "ancestorIterator_Next ops i =
     (case ancestor_Next ops (iter_maxPrefix i) (iter_prefixLen i) (iter_key i) (iter_currentNode i) of
        None \<Rightarrow> None
      | Some (kv, n) \<Rightarrow> Some (kv, i\<lparr>iter_currentNode := n\<rparr>))"

text \<open>
  The longest-prefix-first variants collect the matching nodes on a stack (its top is the head of
  the list) and then visit the stack.
\<close>

fun lpf_stack ::
  "'k KeyOps \<Rightarrow> nat \<Rightarrow> nat \<Rightarrow> 'k \<Rightarrow> ('k, 'v) node \<Rightarrow> (nat \<times> 'k \<times> 'v) list \<Rightarrow> (nat \<times> 'k \<times> 'v) list"
where
  "lpf_stack ops maxP prefixLen k NilNode stack = stack"
| "lpf_stack ops maxP prefixLen k (Node c0 c1 np nk nv) stack =
     (let matchLen = prefixMatch ops np nk prefixLen k in
      if matchLen < np then stack
      else case nv of
        None \<Rightarrow>
          if BitValueAt ops k np = 0 then lpf_stack ops maxP prefixLen k c0 stack
          else lpf_stack ops maxP prefixLen k c1 stack
      | Some v \<Rightarrow>
          if matchLen = maxP then (np, nk, v) # stack
          else if BitValueAt ops k np = 0 then lpf_stack ops maxP prefixLen k c0 ((np, nk, v) # stack)
          else lpf_stack ops maxP prefixLen k c1 ((np, nk, v) # stack))"

definition AncestorLongestPrefixFirstIterator ::
  "'k KeyOps \<Rightarrow> ('k, 'v) trie \<Rightarrow> nat \<Rightarrow> 'k \<Rightarrow> (nat \<times> 'k \<times> 'v) list"
where
  "AncestorLongestPrefixFirstIterator ops t prefixLen k =
     lpf_stack ops (trie_maxPrefix t) prefixLen k (trie_root t) []"

fun ancestorLPFIterator_Next ::
  "(nat \<times> 'k \<times> 'v) list \<Rightarrow> (('k \<times> 'v) \<times> (nat \<times> 'k \<times> 'v) list) option"
where
  "ancestorLPFIterator_Next [] = None"
| "ancestorLPFIterator_Next ((np, nk, v) # stack) = Some ((nk, v), stack)"

definition treverse ::
  "'k KeyOps \<Rightarrow> ('k, 'v) trie \<Rightarrow> nat \<Rightarrow> 'k \<Rightarrow> (nat \<times> 'k \<times> 'v \<Rightarrow> 's \<Rightarrow> bool \<times> 's) \<Rightarrow> 's \<Rightarrow> 's"
where
  "treverse ops t prefixLen k fn s =
     snd (iterate fn (lpf_stack ops (trie_maxPrefix t) prefixLen k (trie_root t) []) s)"

definition AncestorsLongestPrefixFirst ::
  "'k KeyOps \<Rightarrow> ('k, 'v) trie \<Rightarrow> nat \<Rightarrow> 'k \<Rightarrow> (nat \<times> 'k \<times> 'v \<Rightarrow> 's \<Rightarrow> bool \<times> 's) \<Rightarrow> 's \<Rightarrow> 's"
where
  "AncestorsLongestPrefixFirst ops t prefixLen k fn s =
     treverse ops t (min prefixLen (trie_maxPrefix t)) k fn s"

text \<open>
  The subtree of the descendants of a prefix: the first node on the search path whose match
  reaches the searched prefix length.
\<close>

fun descend :: "'k KeyOps \<Rightarrow> nat \<Rightarrow> nat \<Rightarrow> 'k \<Rightarrow> ('k, 'v) node \<Rightarrow> ('k, 'v) node" where
  "descend ops maxP prefixLen k NilNode = NilNode"
| "descend ops maxP prefixLen k (Node c0 c1 np nk nv) =
     (let matchLen = prefixMatch ops np nk prefixLen k in
      if matchLen \<ge> prefixLen then Node c0 c1 np nk nv
      else if np \<ge> maxP then NilNode
      else if BitValueAt ops k np = 0 then descend ops maxP prefixLen k c0
      else descend ops maxP prefixLen k c1)"

text \<open>
  The iteration over a whole subtree.  A callback that returns false ends the call for its own
  node only: the caller does not see the result and goes on with the next child.
\<close>

fun node_forEach :: "(nat \<times> 'k \<times> 'v \<Rightarrow> 's \<Rightarrow> bool \<times> 's) \<Rightarrow> ('k, 'v) node \<Rightarrow> 's \<Rightarrow> 's" where
  "node_forEach fn NilNode s = s"
| "node_forEach fn (Node c0 c1 np nk nv) s =
     (case nv of
        None \<Rightarrow> node_forEach fn c1 (node_forEach fn c0 s)
      | Some v \<Rightarrow>
          (case fn (np, nk, v) s of (cont, s') \<Rightarrow>
             if \<not> cont then s' else node_forEach fn c1 (node_forEach fn c0 s')))"

definition ForEach :: "('k, 'v) trie \<Rightarrow> (nat \<times> 'k \<times> 'v \<Rightarrow> 's \<Rightarrow> bool \<times> 's) \<Rightarrow> 's \<Rightarrow> 's" where
  "ForEach t fn s = node_forEach fn (trie_root t) s"

definition Descendants ::
  "'k KeyOps \<Rightarrow> ('k, 'v) trie \<Rightarrow> nat \<Rightarrow> 'k \<Rightarrow> (nat \<times> 'k \<times> 'v \<Rightarrow> 's \<Rightarrow> bool \<times> 's) \<Rightarrow> 's \<Rightarrow> 's"
where
  "Descendants ops t prefixLen k fn s =
     (let prefixLen = min prefixLen (trie_maxPrefix t)
      in node_forEach fn (descend ops (trie_maxPrefix t) prefixLen k (trie_root t)) s)"

definition DescendantIterator :: "'k KeyOps \<Rightarrow> ('k, 'v) trie \<Rightarrow> nat \<Rightarrow> 'k \<Rightarrow> ('k, 'v) node list" where
  "DescendantIterator ops t prefixLen k =
     (let prefixLen = min prefixLen (trie_maxPrefix t)
      in case descend ops (trie_maxPrefix t) prefixLen k (trie_root t) of NilNode \<Rightarrow> [] | n \<Rightarrow> [n])"

definition push_child :: "('k, 'v) node \<Rightarrow> ('k, 'v) node list \<Rightarrow> ('k, 'v) node list" where
  "push_child c stack = (if c = NilNode then stack else c # stack)"

function descendantIterator_Next :: "('k, 'v) node list \<Rightarrow> (('k \<times> 'v) \<times> ('k, 'v) node list) option" where
  "descendantIterator_Next [] = None"
| "descendantIterator_Next (NilNode # stack) = descendantIterator_Next stack"
| "descendantIterator_Next (Node c0 c1 np nk nv # stack) =
     (let stack' = push_child c1 (push_child c0 stack) in
      case nv of
        None \<Rightarrow> descendantIterator_Next stack'
      | Some v \<Rightarrow> Some ((nk, v), stack'))"
  by pat_completeness auto
termination
proof (relation "measure (\<lambda>stack. sum_list (map size stack) + length stack)", goal_cases)
  case 1
  then show ?case by simp
next
  case 2
  then show ?case by simp
next
  case (3 c0 c1 np nk nv stack x)
  then show ?case by (auto simp: push_child_def)
qed

definition trie_Len :: "('k, 'v) trie \<Rightarrow> nat" where
  "trie_Len t = trie_entries t"


text \<open>
  The node that takes the place of the searched subtree, and whether the entry is new.  The
  cases are those of the source after its search loop: an empty slot, a node with the same
  prefix, a node below the new prefix, and two siblings under a new intermediate node.
\<close>

primrec node_Upsert ::
  "'k KeyOps \<Rightarrow> nat \<Rightarrow> nat \<Rightarrow> 'k \<Rightarrow> 'v \<Rightarrow> ('k, 'v) node \<Rightarrow> ('k, 'v) node \<times> bool"
where
  "node_Upsert ops maxP prefixLen k v NilNode = (Node NilNode NilNode prefixLen k (Some v), True)"
| "node_Upsert ops maxP prefixLen k v (Node c0 c1 np nk nv) =
     (let matchLen = prefixMatch ops np nk prefixLen k in
      if np \<noteq> matchLen \<or> np = maxP \<or> np = prefixLen then
        if matchLen = np then (Node c0 c1 prefixLen k (Some v), nv = None)
        else if matchLen = prefixLen then
          (if BitValueAt ops nk matchLen = 0
           then Node (Node c0 c1 np nk nv) NilNode prefixLen k (Some v)
           else Node NilNode (Node c0 c1 np nk nv) prefixLen k (Some v), True)
        else
          (if BitValueAt ops k matchLen = 0
           then Node (Node NilNode NilNode prefixLen k (Some v)) (Node c0 c1 np nk nv) matchLen nk None
           else Node (Node c0 c1 np nk nv) (Node NilNode NilNode prefixLen k (Some v)) matchLen nk None,
           True)
      else if BitValueAt ops k np = 0 then
        (case node_Upsert ops maxP prefixLen k v c0 of (c, isNew) \<Rightarrow> (Node c c1 np nk nv, isNew))
      else
        (case node_Upsert ops maxP prefixLen k v c1 of (c, isNew) \<Rightarrow> (Node c0 c np nk nv, isNew)))"

definition Upsert ::
  "'k KeyOps \<Rightarrow> ('k, 'v) trie \<Rightarrow> nat \<Rightarrow> 'k \<Rightarrow> 'v \<Rightarrow> ('k, 'v) trie \<times> bool"
where
  "Upsert ops t prefixLen k v =
     (let prefixLen = min prefixLen (trie_maxPrefix t) in
      case node_Upsert ops (trie_maxPrefix t) prefixLen k v (trie_root t) of
        (n, isNew) \<Rightarrow>
          (t\<lparr>trie_root := n,
             trie_entries := (if isNew then trie_entries t + 1 else trie_entries t)\<rparr>, isNew))"

text \<open>
  \<^verbatim>\<open>Delete\<close> returns nothing when the key is not found.  Otherwise it gives the subtree that
  remains, and whether the deleted node was a leaf: only then does an intermediate parent
  collapse into its other child.
\<close>

primrec node_Delete ::
  "'k KeyOps \<Rightarrow> nat \<Rightarrow> 'k \<Rightarrow> ('k, 'v) node \<Rightarrow> (bool \<times> ('k, 'v) node) option"
where
  "node_Delete ops prefixLen k NilNode = None"
| "node_Delete ops prefixLen k (Node c0 c1 np nk nv) =
     (let matchLen = prefixMatch ops np nk prefixLen k in
      if np \<noteq> matchLen \<or> np = prefixLen then
        if np \<noteq> prefixLen \<or> np \<noteq> matchLen \<or> nv = None then None
        else if c0 \<noteq> NilNode \<and> c1 \<noteq> NilNode then Some (False, Node c0 c1 np nk None)
        else if c0 \<noteq> NilNode then Some (False, c0)
        else if c1 \<noteq> NilNode then Some (False, c1)
        else Some (True, NilNode)
      else if BitValueAt ops k np = 0 then
        (case node_Delete ops prefixLen k c0 of
           None \<Rightarrow> None
         | Some (leaf, c) \<Rightarrow>
             if leaf \<and> nv = None then Some (False, c1) else Some (False, Node c c1 np nk nv))
      else
        (case node_Delete ops prefixLen k c1 of
           None \<Rightarrow> None
         | Some (leaf, c) \<Rightarrow>
             if leaf \<and> nv = None then Some (False, c0) else Some (False, Node c0 c np nk nv)))"

definition Delete :: "'k KeyOps \<Rightarrow> ('k, 'v) trie \<Rightarrow> nat \<Rightarrow> 'k \<Rightarrow> ('k, 'v) trie \<times> bool" where
  "Delete ops t prefixLen k =
     (let prefixLen = min prefixLen (trie_maxPrefix t) in
      case node_Delete ops prefixLen k (trie_root t) of
        None \<Rightarrow> (t, False)
      | Some (leaf, n) \<Rightarrow> (t\<lparr>trie_root := n, trie_entries := trie_entries t - 1\<rparr>, True))"

text \<open>
  A value that is a Go map is a reference: writing to the map that a lookup returned changes the
  value stored in the trie.  The model writes the changed map back to the node of that entry.
\<close>

primrec node_setValue :: "'k KeyOps \<Rightarrow> nat \<Rightarrow> 'k \<Rightarrow> 'v \<Rightarrow> ('k, 'v) node \<Rightarrow> ('k, 'v) node" where
  "node_setValue ops prefixLen k v NilNode = NilNode"
| "node_setValue ops prefixLen k v (Node c0 c1 np nk nv) =
     (let matchLen = prefixMatch ops np nk prefixLen k in
      if matchLen < np then Node c0 c1 np nk nv
      else if np = prefixLen then
        Node c0 c1 np nk (case nv of None \<Rightarrow> None | Some _ \<Rightarrow> Some v)
      else if BitValueAt ops k np = 0 then Node (node_setValue ops prefixLen k v c0) c1 np nk nv
      else Node c0 (node_setValue ops prefixLen k v c1) np nk nv)"

definition trie_setValue :: "'k KeyOps \<Rightarrow> ('k, 'v) trie \<Rightarrow> nat \<Rightarrow> 'k \<Rightarrow> 'v \<Rightarrow> ('k, 'v) trie" where
  "trie_setValue ops t prefixLen k v =
     t\<lparr>trie_root := node_setValue ops (min prefixLen (trie_maxPrefix t)) k v (trie_root t)\<rparr>"

section \<open>The entries of a trie and its well-formedness\<close>

text \<open>The nodes, with the intermediate ones, and the entries in the order of \<^verbatim>\<open>forEach\<close>.\<close>

primrec node_prefixes :: "('k, 'v) node \<Rightarrow> (nat \<times> 'k) set" where
  "node_prefixes NilNode = {}"
| "node_prefixes (Node c0 c1 np nk nv) = insert (np, nk) (node_prefixes c0 \<union> node_prefixes c1)"

primrec node_entries :: "('k, 'v) node \<Rightarrow> (nat \<times> 'k \<times> 'v) list" where
  "node_entries NilNode = []"
| "node_entries (Node c0 c1 np nk nv) =
     (case nv of None \<Rightarrow> [] | Some v \<Rightarrow> [(np, nk, v)]) @ node_entries c0 @ node_entries c1"

definition agree :: "'k KeyOps \<Rightarrow> nat \<Rightarrow> 'k \<Rightarrow> 'k \<Rightarrow> bool" where
  "agree ops m a b \<longleftrightarrow> (\<forall>i<m. BitValueAt ops a i = BitValueAt ops b i)"

text \<open>
  A well-formed subtree over keys of \<^verbatim>\<open>w\<close> bits: prefix lengths grow along every path, a
  child extends its parent's prefix by the bit of its slot, and an intermediate node has two
  children.
\<close>

primrec wf_node :: "'k KeyOps \<Rightarrow> nat \<Rightarrow> ('k, 'v) node \<Rightarrow> bool" where
  "wf_node ops w NilNode \<longleftrightarrow> True"
| "wf_node ops w (Node c0 c1 np nk nv) \<longleftrightarrow>
     np \<le> w \<and> wf_node ops w c0 \<and> wf_node ops w c1 \<and>
     (nv = None \<longrightarrow> c0 \<noteq> NilNode \<and> c1 \<noteq> NilNode) \<and>
     (\<forall>(p, k) \<in> node_prefixes c0. np < p \<and> p \<le> w \<and> agree ops np nk k \<and> BitValueAt ops k np = 0) \<and>
     (\<forall>(p, k) \<in> node_prefixes c1. np < p \<and> p \<le> w \<and> agree ops np nk k \<and> BitValueAt ops k np \<noteq> 0)"

definition wf_trie :: "'k KeyOps \<Rightarrow> nat \<Rightarrow> ('k, 'v) trie \<Rightarrow> bool" where
  "wf_trie ops w t \<longleftrightarrow>
     w \<le> trie_maxPrefix t \<and> wf_node ops w (trie_root t) \<and>
     trie_entries t = length (node_entries (trie_root t))"

definition trie_entry_list :: "('k, 'v) trie \<Rightarrow> (nat \<times> 'k \<times> 'v) list" where
  "trie_entry_list t = node_entries (trie_root t)"

definition covers :: "'k KeyOps \<Rightarrow> nat \<Rightarrow> 'k \<Rightarrow> nat \<Rightarrow> 'k \<Rightarrow> bool" where
  "covers ops p k p' k' \<longleftrightarrow> p \<le> p' \<and> agree ops p k k'"

section \<open>Loops over the iterators\<close>

text \<open>
  The callers run an iterator with
  \<^verbatim>\<open>for ok, k, v := it.Next(); ok; ok, k, v = it.Next()\<close>.  These functions collect what such a
  loop visits.
\<close>

lemma ancestor_Next_size:
  "ancestor_Next ops maxP prefixLen k n = Some (kv, n') \<Longrightarrow> size n' < size n"
proof (induction n)
  case NilNode
  then show ?case by simp
next
  case (Node c0 c1 np nk nv)
  then show ?case
    by (cases nv) (auto simp: Let_def split: if_splits)
qed

function ancestor_seq :: "'k KeyOps \<Rightarrow> ('k, 'v) ancestorIterator \<Rightarrow> ('k \<times> 'v) list" where
  "ancestor_seq ops i =
     (case ancestorIterator_Next ops i of
        None \<Rightarrow> []
      | Some (kv, i') \<Rightarrow> kv # ancestor_seq ops i')"
  by pat_completeness auto
termination
proof (relation "measure (\<lambda>(ops, i). size (iter_currentNode i))", goal_cases)
  case 1
  then show ?case by simp
next
  case (2 ops i x kv i')
  then show ?case
    by (auto simp: ancestorIterator_Next_def split: option.splits dest: ancestor_Next_size)
qed

fun ancestorLPF_seq :: "(nat \<times> 'k \<times> 'v) list \<Rightarrow> ('k \<times> 'v) list" where
  "ancestorLPF_seq [] = []"
| "ancestorLPF_seq (x # stack) =
     (case ancestorLPFIterator_Next (x # stack) of
        None \<Rightarrow> []
      | Some (kv, _) \<Rightarrow> kv # ancestorLPF_seq stack)"

lemma descendantIterator_Next_size:
  "descendantIterator_Next stack = Some (kv, stack') \<Longrightarrow>
     sum_list (map size stack') + length stack' < sum_list (map size stack) + length stack"
proof (induction stack rule: descendantIterator_Next.induct)
  case (3 c0 c1 np nk nv stack)
  let ?m = "\<lambda>st. sum_list (map size st) + length st"
  have push: "?m (push_child c1 (push_child c0 stack)) < ?m (Node c0 c1 np nk nv # stack)"
    by (cases nv) (auto simp: push_child_def)
  show ?case
  proof (cases nv)
    case None
    with 3 have "?m stack' < ?m (push_child c1 (push_child c0 stack))"
      by simp
    with push show ?thesis by simp
  next
    case (Some v)
    with 3 push show ?thesis by simp
  qed
qed simp_all

function descendant_seq :: "('k, 'v) node list \<Rightarrow> ('k \<times> 'v) list" where
  "descendant_seq stack =
     (case descendantIterator_Next stack of
        None \<Rightarrow> []
      | Some (kv, stack') \<Rightarrow> kv # descendant_seq stack')"
  by pat_completeness auto
termination
proof (relation "measure (\<lambda>stack. sum_list (map size stack) + length stack)", goal_cases)
  case 1
  then show ?case by simp
next
  case (2 stack x kv stack')
  then show ?case by (auto dest: descendantIterator_Next_size)
qed

declare ancestor_seq.simps [simp del] descendant_seq.simps [simp del]

end
