(* ===== verification/BitlpmCorrect.thy ===== *)
theory BitlpmCorrect
  imports Bitlpm
begin

text \<open>
  Correctness of the trie.  The locale \<^verbatim>\<open>bitlpm_key\<close> states what the trie relies on of the
  \<^verbatim>\<open>Key[K]\<close> interface: \<^verbatim>\<open>CommonPrefix\<close> counts the leading bits two keys share, and
  \<^verbatim>\<open>BitValueAt\<close> gives a bit.  Everything about the trie is proved once under these laws; the
  key types of the sources are interpretations of the locale.
\<close>

text \<open>All nodes of a subtree extend the first \<^verbatim>\<open>q\<close> bits of a key.\<close>

definition below :: "'k KeyOps \<Rightarrow> nat \<Rightarrow> nat \<Rightarrow> 'k \<Rightarrow> ('k, 'v) node \<Rightarrow> bool" where
  "below ops w q kk n \<longleftrightarrow> (\<forall>(p, k) \<in> node_prefixes n. q \<le> p \<and> p \<le> w \<and> agree ops q kk k)"

lemma below_Nil [simp]: "below ops w q kk NilNode"
  by (simp add: below_def)

lemma below_Node [simp]:
  "below ops w q kk (Node c0 c1 np nk nv) \<longleftrightarrow>
     q \<le> np \<and> np \<le> w \<and> agree ops q kk nk \<and> below ops w q kk c0 \<and> below ops w q kk c1"
  by (auto simp: below_def)

lemma entries_prefixes: "(p, k, v) \<in> set (node_entries n) \<Longrightarrow> (p, k) \<in> node_prefixes n"
  by (induction n) (auto split: option.splits)

text \<open>The entries that do not have the prefix \<^verbatim>\<open>(p, k)\<close>.\<close>

definition others :: "'k KeyOps \<Rightarrow> nat \<Rightarrow> 'k \<Rightarrow> (nat \<times> 'k \<times> 'v) set \<Rightarrow> (nat \<times> 'k \<times> 'v) set" where
  "others ops p k S = {(p', k', v') \<in> S. \<not> (p' = p \<and> agree ops p k k')}"

lemma others_simps:
  "others ops p k {} = {}"
  "others ops p k (S \<union> T) = others ops p k S \<union> others ops p k T"
  "others ops p k (insert (p', k', v') S) =
     (if p' = p \<and> agree ops p k k' then others ops p k S else insert (p', k', v') (others ops p k S))"
  by (auto simp: others_def)

lemma others_id: "(\<And>k' v'. (p, k', v') \<in> S \<Longrightarrow> \<not> agree ops p k k') \<Longrightarrow> others ops p k S = S"
  by (auto simp: others_def)

text \<open>
  The contract of a deletion that found its entry: the rest is well-formed, and it has all the
  entries but those of the deleted prefix, one less.
\<close>

definition deleted ::
  "'k KeyOps \<Rightarrow> nat \<Rightarrow> nat \<Rightarrow> 'k \<Rightarrow> ('k, 'v) node \<Rightarrow> bool \<Rightarrow> ('k, 'v) node \<Rightarrow> bool"
where
  "deleted ops w p k n leaf n' \<longleftrightarrow>
     wf_node ops w n' \<and> (leaf \<longleftrightarrow> n' = NilNode) \<and> node_prefixes n' \<subseteq> node_prefixes n \<and>
     set (node_entries n') = others ops p k (set (node_entries n)) \<and>
     Suc (length (node_entries n')) = length (node_entries n)"

lemma leaf_prefixes: "node_prefixes (Node NilNode NilNode p k v) = {(p, k)}"
  by simp

lemma inner_entries:
  "node_entries (Node l r p k None) = node_entries l @ node_entries r"
  "node_entries (Node l r p k (Some v)) = (p, k, v) # node_entries l @ node_entries r"
  by simp_all

declare node_Upsert.simps(2) [simp del] node_Delete.simps(2) [simp del] node_setValue.simps(2) [simp del]

locale bitlpm_key =
  fixes ops :: "'k KeyOps" and w :: nat
  assumes cp_le: "CommonPrefix ops a b \<le> w"
    and cp_agree: "agree ops (CommonPrefix ops a b) a b"
    and cp_differ: "CommonPrefix ops a b < w \<Longrightarrow>
      BitValueAt ops a (CommonPrefix ops a b) \<noteq> BitValueAt ops b (CommonPrefix ops a b)"
    and bit_value: "i < w \<Longrightarrow> BitValueAt ops a i = 0 \<or> BitValueAt ops a i = 1"
begin

lemma agree_refl [simp]: "agree ops m a a"
  by (simp add: agree_def)

lemma agree_0 [simp]: "agree ops 0 a b"
  by (simp add: agree_def)

lemma agree_sym: "agree ops m a b \<Longrightarrow> agree ops m b a"
  by (simp add: agree_def)

lemma agree_trans: "agree ops m a b \<Longrightarrow> agree ops m b c \<Longrightarrow> agree ops m a c"
  by (simp add: agree_def)

lemma agree_mono: "agree ops m a b \<Longrightarrow> n \<le> m \<Longrightarrow> agree ops n a b"
  by (simp add: agree_def)

lemma agree_Suc: "agree ops (Suc m) a b \<longleftrightarrow> agree ops m a b \<and> BitValueAt ops a m = BitValueAt ops b m"
  by (auto simp: agree_def less_Suc_eq)

lemma agree_bit: "agree ops m a b \<Longrightarrow> i < m \<Longrightarrow> BitValueAt ops a i = BitValueAt ops b i"
  by (simp add: agree_def)

lemma agree_iff: "m \<le> w \<Longrightarrow> agree ops m a b \<longleftrightarrow> m \<le> CommonPrefix ops a b"
proof
  assume m: "m \<le> w" and ag: "agree ops m a b"
  show "m \<le> CommonPrefix ops a b"
  proof (rule ccontr)
    assume "\<not> m \<le> CommonPrefix ops a b"
    then show False
      using m ag cp_differ [of a b] by (simp add: agree_def)
  qed
next
  assume "m \<le> CommonPrefix ops a b"
  then show "agree ops m a b"
    by (rule agree_mono [OF cp_agree])
qed

lemma bit_ne_0: "i < w \<Longrightarrow> BitValueAt ops a i \<noteq> 0 \<longleftrightarrow> BitValueAt ops a i = 1"
  using bit_value [of i a] by auto

lemma bit_same_iff:
  "i < w \<Longrightarrow> BitValueAt ops a i = BitValueAt ops b i \<longleftrightarrow> (BitValueAt ops a i = 0 \<longleftrightarrow> BitValueAt ops b i = 0)"
  using bit_value [of i a] bit_value [of i b] by auto

text \<open>What the match length of a node says.\<close>

lemma prefixMatch_min: "prefixMatch ops np nk p k = min (min np p) (CommonPrefix ops nk k)"
  by (auto simp: prefixMatch_def Let_def)

lemma prefixMatch_le: "prefixMatch ops np nk p k \<le> np" "prefixMatch ops np nk p k \<le> p"
  by (auto simp: prefixMatch_min)

lemma match_node:
  "np \<le> w \<Longrightarrow> prefixMatch ops np nk p k < np \<longleftrightarrow> \<not> (np \<le> p \<and> agree ops np nk k)"
  by (auto simp: prefixMatch_min agree_iff)

lemma match_node_eq:
  "np \<le> w \<Longrightarrow> prefixMatch ops np nk p k = np \<longleftrightarrow> np \<le> p \<and> agree ops np nk k"
  by (auto simp: prefixMatch_min agree_iff)

lemma match_search:
  "p \<le> w \<Longrightarrow> p \<le> prefixMatch ops np nk p k \<longleftrightarrow> p \<le> np \<and> agree ops p nk k"
  by (auto simp: prefixMatch_min agree_iff)

lemma match_agree: "agree ops (prefixMatch ops np nk p k) nk k"
  by (rule agree_mono [OF cp_agree]) (simp add: prefixMatch_min)

lemma match_differ:
  assumes "prefixMatch ops np nk p k < np" "prefixMatch ops np nk p k < p" "p \<le> w"
  shows "BitValueAt ops nk (prefixMatch ops np nk p k) \<noteq> BitValueAt ops k (prefixMatch ops np nk p k)"
proof -
  have "prefixMatch ops np nk p k = CommonPrefix ops nk k"
    using assms by (auto simp: prefixMatch_min min_def split: if_splits)
  then show ?thesis
    using cp_differ [of nk k] assms by simp
qed

text \<open>How the subtrees of a well-formed node relate to the searched key.\<close>

lemma agree_via: "agree ops m a b \<Longrightarrow> agree ops m a c \<Longrightarrow> agree ops m b c"
  by (simp add: agree_def)

lemma wf_below_0:
  assumes "wf_node ops w (Node c0 c1 np nk nv)" "agree ops np nk k" "BitValueAt ops k np = 0"
  shows "below ops w (Suc np) k c0"
  unfolding below_def
proof (clarify, intro conjI)
  fix p k' assume "(p, k') \<in> node_prefixes c0"
  then have *: "np < p" "p \<le> w" "agree ops np nk k'" "BitValueAt ops k' np = 0"
    using assms(1) by auto
  then show "Suc np \<le> p" "p \<le> w" by auto
  show "agree ops (Suc np) k k'"
    using * assms by (auto simp: agree_Suc intro: agree_via)
qed

lemma wf_below_1:
  assumes "wf_node ops w (Node c0 c1 np nk nv)" "agree ops np nk k" "BitValueAt ops k np \<noteq> 0"
  shows "below ops w (Suc np) k c1"
  unfolding below_def
proof (clarify, intro conjI)
  fix p k' assume "(p, k') \<in> node_prefixes c1"
  then have *: "np < p" "p \<le> w" "agree ops np nk k'" "BitValueAt ops k' np \<noteq> 0"
    using assms(1) by auto
  then show "Suc np \<le> p" "p \<le> w" by auto
  show "agree ops (Suc np) k k'"
    using * assms by (auto simp: agree_Suc bit_ne_0 intro: agree_via)
qed

lemma below_slot:
  assumes "below ops w (Suc np) k c" "agree ops np nk k" "(p', k') \<in> node_prefixes c"
  shows "np < p' \<and> p' \<le> w \<and> agree ops np nk k' \<and> BitValueAt ops k' np = BitValueAt ops k np"
proof -
  have "Suc np \<le> p'" "p' \<le> w" "agree ops (Suc np) k k'"
    using assms(1,3) by (auto simp: below_def)
  then show ?thesis
    using assms(2) by (auto simp: agree_Suc intro: agree_trans)
qed

lemma wf_root_below: "wf_node ops w (Node c0 c1 np nk nv) \<Longrightarrow> below ops w np nk (Node c0 c1 np nk nv)"
  by (auto simp: below_def)

lemma below_mono:
  assumes "below ops w q kk n" "q' \<le> q" "agree ops q' kk' kk"
  shows "below ops w q' kk' n"
proof -
  have "agree ops q' kk' k" if "agree ops q kk k" for k
    using agree_trans [OF assms(3)] agree_mono [OF that assms(2)] .
  then show ?thesis
    using assms(1,2) by (auto simp: below_def)
qed

lemma below_entries:
  "below ops w q kk n \<Longrightarrow> (p, k, v) \<in> set (node_entries n) \<Longrightarrow> q \<le> p \<and> p \<le> w \<and> agree ops q kk k"
  by (auto simp: below_def dest: entries_prefixes)

lemma below_wf_replace_0:
  "\<lbrakk>wf_node ops w (Node c0 c1 np nk nv); wf_node ops w c; below ops w (Suc np) k c; c \<noteq> NilNode;
    agree ops np nk k; BitValueAt ops k np = 0\<rbrakk> \<Longrightarrow> wf_node ops w (Node c c1 np nk nv)"
  using below_slot [of np k c nk] by auto

lemma below_wf_replace_1:
  "\<lbrakk>wf_node ops w (Node c0 c1 np nk nv); wf_node ops w c; below ops w (Suc np) k c; c \<noteq> NilNode;
    agree ops np nk k; BitValueAt ops k np \<noteq> 0\<rbrakk> \<Longrightarrow> wf_node ops w (Node c0 c np nk nv)"
  using below_slot [of np k c nk] by auto

subsection \<open>Upsert\<close>

lemma node_Upsert_cases:
  assumes "np \<le> w" "p \<le> w" "p \<le> m"
  obtains
    (same) "np = p" "agree ops p nk k"
      "node_Upsert ops m p k v (Node l r np nk nv) = (Node l r p k (Some v), nv = None)"
  | (above0) "p < np" "agree ops p nk k" "BitValueAt ops nk p = 0"
      "node_Upsert ops m p k v (Node l r np nk nv) =
         (Node (Node l r np nk nv) NilNode p k (Some v), True)"
  | (above1) "p < np" "agree ops p nk k" "BitValueAt ops nk p \<noteq> 0"
      "node_Upsert ops m p k v (Node l r np nk nv) =
         (Node NilNode (Node l r np nk nv) p k (Some v), True)"
  | (split0) q where "q < np" "q < p" "agree ops q nk k" "BitValueAt ops k q = 0" "BitValueAt ops nk q \<noteq> 0"
      "node_Upsert ops m p k v (Node l r np nk nv) =
         (Node (Node NilNode NilNode p k (Some v)) (Node l r np nk nv) q nk None, True)"
  | (split1) q where "q < np" "q < p" "agree ops q nk k" "BitValueAt ops k q \<noteq> 0" "BitValueAt ops nk q = 0"
      "node_Upsert ops m p k v (Node l r np nk nv) =
         (Node (Node l r np nk nv) (Node NilNode NilNode p k (Some v)) q nk None, True)"
  | (left) "np < p" "agree ops np nk k" "BitValueAt ops k np = 0"
      "node_Upsert ops m p k v (Node l r np nk nv) =
         (Node (fst (node_Upsert ops m p k v l)) r np nk nv, snd (node_Upsert ops m p k v l))"
  | (right) "np < p" "agree ops np nk k" "BitValueAt ops k np \<noteq> 0"
      "node_Upsert ops m p k v (Node l r np nk nv) =
         (Node l (fst (node_Upsert ops m p k v r)) np nk nv, snd (node_Upsert ops m p k v r))"
proof -
  let ?ml = "prefixMatch ops np nk p k"
  have ag: "agree ops ?ml nk k" by (rule match_agree)
  have le: "?ml \<le> np" "?ml \<le> p" by (rule prefixMatch_le)+
  consider "?ml = np" "np = p" | "?ml = np" "np < p" | "?ml = p" "p < np" | "?ml < np" "?ml < p"
    using le by linarith
  then show ?thesis
  proof cases
    case 1
    show ?thesis by (rule same) (use 1 ag in \<open>simp_all add: node_Upsert.simps(2) Let_def\<close>)
  next
    case 2
    then have f: "np \<noteq> m" "np \<noteq> p" "agree ops np nk k" using assms ag by simp_all
    show ?thesis
    proof (cases "BitValueAt ops k np = 0")
      case True
      show ?thesis by (rule left [OF 2(2) f(3) True]) (use 2(1) f True in \<open>simp add: node_Upsert.simps(2) Let_def split_beta\<close>)
    next
      case False
      show ?thesis by (rule right [OF 2(2) f(3) False]) (use 2(1) f False in \<open>simp add: node_Upsert.simps(2) Let_def split_beta\<close>)
    qed
  next
    case 3
    then have f: "np \<noteq> p" "p \<noteq> np" "agree ops p nk k" using ag by simp_all
    show ?thesis
    proof (cases "BitValueAt ops nk p = 0")
      case True
      show ?thesis by (rule above0 [OF 3(2) f(3) True]) (use 3(1) f True in \<open>simp add: node_Upsert.simps(2) Let_def\<close>)
    next
      case False
      show ?thesis by (rule above1 [OF 3(2) f(3) False]) (use 3(1) f False in \<open>simp add: node_Upsert.simps(2) Let_def\<close>)
    qed
  next
    case 4
    then have "BitValueAt ops nk ?ml \<noteq> BitValueAt ops k ?ml" "?ml < w"
      using match_differ assms by auto
    then have d: "(BitValueAt ops nk ?ml = 0) = (BitValueAt ops k ?ml \<noteq> 0)"
      using bit_same_iff [of ?ml nk k] by auto
    have ne: "np \<noteq> ?ml" "?ml \<noteq> np" "?ml \<noteq> p" using 4 by simp_all
    show ?thesis
    proof (cases "BitValueAt ops k ?ml = 0")
      case True
      show ?thesis by (rule split0 [OF 4 ag True]) (use True d ne in \<open>simp_all add: node_Upsert.simps(2) Let_def\<close>)
    next
      case False
      show ?thesis by (rule split1 [OF 4 ag False]) (use False d ne in \<open>simp_all add: node_Upsert.simps(2) Let_def\<close>)
    qed
  qed
qed

lemma node_Upsert_below:
  "\<lbrakk>below ops w q kk n; q \<le> p; p \<le> w; p \<le> m; agree ops q kk k\<rbrakk>
    \<Longrightarrow> below ops w q kk (fst (node_Upsert ops m p k v n))"
proof (induction n)
  case NilNode
  then show ?case by simp
next
  case (Node c0 c1 np nk nv)
  have b: "below ops w q kk c0" "below ops w q kk c1"
    and root: "q \<le> np" "np \<le> w" "agree ops q kk nk"
    using Node.prems(1) by simp_all
  have ag: "agree ops q nk k"
    using root(3) Node.prems(5) by (rule agree_via)
  have ml: "q \<le> r" if "r < np" "r < p" "BitValueAt ops nk r \<noteq> BitValueAt ops k r" for r
    using agree_bit [OF ag, of r] that by (cases "q \<le> r") simp_all
  note IH = Node.IH(1) [OF b(1) Node.prems(2-5)] Node.IH(2) [OF b(2) Node.prems(2-5)]
  from root(2) Node.prems(3,4) show ?case
  proof (cases rule: node_Upsert_cases [where l=c0 and r=c1 and nk=nk and nv=nv and k=k and v=v])
    case (split0 r)
    then show ?thesis using b root Node.prems(2,3,5) ml [of r] by simp
  next
    case (split1 r)
    then show ?thesis using b root Node.prems(2,3,5) ml [of r] by simp
  qed (use b root Node.prems(2,3,5) IH in simp_all)
qed

lemma node_Upsert_not_Nil: "p \<le> m \<Longrightarrow> p \<le> w \<Longrightarrow> wf_node ops w n \<Longrightarrow> fst (node_Upsert ops m p k v n) \<noteq> NilNode"
proof (cases n)
  case (Node c0 c1 np nk nv)
  assume *: "p \<le> m" "p \<le> w" "wf_node ops w n"
  with Node have "np \<le> w" by simp
  from this *(2,1) show ?thesis
    unfolding Node
    by (cases rule: node_Upsert_cases [where l=c0 and r=c1 and nk=nk and nv=nv and k=k and v=v]) simp_all
qed simp

lemma wf_above_below: "wf_node ops w (Node c0 c1 np nk nv) \<Longrightarrow> p < np \<Longrightarrow> agree ops p nk k \<Longrightarrow>
    (p', k') \<in> node_prefixes (Node c0 c1 np nk nv) \<Longrightarrow>
    p < p' \<and> p' \<le> w \<and> agree ops p k k' \<and> BitValueAt ops k' p = BitValueAt ops nk p"
proof -
  assume wf: "wf_node ops w (Node c0 c1 np nk nv)" and p: "p < np" and ag: "agree ops p nk k"
    and mem: "(p', k') \<in> node_prefixes (Node c0 c1 np nk nv)"
  have *: "np \<le> p'" "p' \<le> w" "agree ops np nk k'"
    using wf_root_below [OF wf] mem unfolding below_def by auto
  moreover have "agree ops p nk k'"
    using agree_mono [OF *(3)] p by simp
  ultimately show ?thesis
    using agree_via [OF ag] agree_bit [OF *(3) p] p by simp
qed

lemma wf_slot_0:
  assumes "wf_node ops w (Node c0 c1 np nk nv)" "p < np" "agree ops p nk k" "BitValueAt ops nk p = 0"
  shows "\<forall>(p', k') \<in> node_prefixes (Node c0 c1 np nk nv).
    p < p' \<and> p' \<le> w \<and> agree ops p k k' \<and> BitValueAt ops k' p = 0"
  using assms(4) by (auto simp del: node_prefixes.simps dest: wf_above_below [OF assms(1-3)])

lemma wf_slot_1:
  assumes "wf_node ops w (Node c0 c1 np nk nv)" "p < np" "agree ops p nk k" "BitValueAt ops nk p \<noteq> 0"
  shows "\<forall>(p', k') \<in> node_prefixes (Node c0 c1 np nk nv).
    p < p' \<and> p' \<le> w \<and> agree ops p k k' \<and> BitValueAt ops k' p \<noteq> 0"
  using assms(4) by (auto simp del: node_prefixes.simps dest: wf_above_below [OF assms(1-3)])

lemma node_Upsert_wf:
  "wf_node ops w n \<Longrightarrow> p \<le> w \<Longrightarrow> p \<le> m \<Longrightarrow> wf_node ops w (fst (node_Upsert ops m p k v n))"
proof (induction n)
  case (Node c0 c1 np nk nv)
  have np: "np \<le> w" and wf: "wf_node ops w c0" "wf_node ops w c1"
    using Node.prems(1) by simp_all
  from np Node.prems(2,3) show ?case
  proof (cases rule: node_Upsert_cases [where l=c0 and r=c1 and nk=nk and nv=nv and k=k and v=v])
    case same
    then show ?thesis
      using Node.prems(1) agree_via [OF same(2)] by auto
  next
    case above0
    then show ?thesis
      using Node.prems(1,2) wf_slot_0 [OF Node.prems(1) above0(1-3)]
      by (simp del: node_prefixes.simps(2) wf_node.simps(2) add: wf_node.simps(2) [of _ _ _ _ p])
  next
    case above1
    then show ?thesis
      using Node.prems(1,2) wf_slot_1 [OF Node.prems(1) above1(1-3)]
      by (simp del: node_prefixes.simps(2) wf_node.simps(2) add: wf_node.simps(2) [of _ _ _ _ p])
  next
    case (split0 q)
    then show ?thesis
      using Node.prems(1,2) wf_slot_1 [OF Node.prems(1) split0(1) agree_refl split0(5)]
      by (simp del: node_prefixes.simps(2) wf_node.simps(2)
          add: leaf_prefixes wf_node.simps(2) [of _ _ _ _ q] wf_node.simps(2) [of _ _ NilNode NilNode p])
  next
    case (split1 q)
    then show ?thesis
      using Node.prems(1,2) wf_slot_0 [OF Node.prems(1) split1(1) agree_refl split1(5)]
      by (simp del: node_prefixes.simps(2) wf_node.simps(2)
          add: leaf_prefixes wf_node.simps(2) [of _ _ _ _ q] wf_node.simps(2) [of _ _ NilNode NilNode p])
  next
    case left
    show ?thesis
      unfolding left(4) fst_conv
      by (rule below_wf_replace_0 [OF Node.prems(1) Node.IH(1) _ _ left(2,3)])
        (use Node.prems wf left wf_below_0 [OF Node.prems(1) left(2,3)] in
          \<open>simp_all add: node_Upsert_below node_Upsert_not_Nil\<close>)
  next
    case right
    show ?thesis
      unfolding right(4) fst_conv
      by (rule below_wf_replace_1 [OF Node.prems(1) Node.IH(2) _ _ right(2,3)])
        (use Node.prems wf right wf_below_1 [OF Node.prems(1) right(2,3)] in
          \<open>simp_all add: node_Upsert_below node_Upsert_not_Nil\<close>)
  qed
qed simp

text \<open>The entries of a well-formed node that have the prefix \<^verbatim>\<open>(p, k)\<close>.\<close>

lemma below_no_same:
  "\<lbrakk>below ops w q kk n; (p', k', v') \<in> set (node_entries n); p < q\<rbrakk> \<Longrightarrow> p' \<noteq> p"
  by (auto dest: below_entries)

lemma wf_no_same_other:
  assumes "wf_node ops w (Node c0 c1 np nk nv)" "np < p" "p \<le> w" "agree ops np nk k"
    and "(p, k', v') \<in> set (node_entries (if BitValueAt ops k np = 0 then c1 else c0))"
  shows "\<not> agree ops p k k'"
proof -
  have "(BitValueAt ops k' np = 0) \<noteq> (BitValueAt ops k np = 0)"
    using assms(1,5) by (auto dest!: entries_prefixes split: if_splits)
  then show ?thesis
    using assms(2) by (metis agree_bit)
qed

lemma wf_split_no_same:
  assumes "wf_node ops w (Node c0 c1 np nk nv)" "q < np" "q < p" "BitValueAt ops nk q \<noteq> BitValueAt ops k q"
    and "(p, k', v') \<in> set (node_entries (Node c0 c1 np nk nv))"
  shows "\<not> agree ops p k k'"
  using wf_above_below [OF assms(1,2) agree_refl entries_prefixes [OF assms(5)]] assms(3,4)
  by (metis agree_bit)

lemma wf_children_longer:
  assumes "wf_node ops w (Node c0 c1 np nk nv)"
    and "(p, k, v) \<in> set (node_entries c0) \<union> set (node_entries c1)"
  shows "np < p"
  using assms by (auto dest!: entries_prefixes)

lemma node_Upsert_entries:
  "\<lbrakk>wf_node ops w n; p \<le> w; p \<le> m\<rbrakk> \<Longrightarrow>
    set (node_entries (fst (node_Upsert ops m p k v n))) =
      insert (p, k, v) (others ops p k (set (node_entries n)))"
proof (induction n)
  case (Node c0 c1 np nk nv)
  have np: "np \<le> w" and wf: "wf_node ops w c0" "wf_node ops w c1"
    using Node.prems(1) by simp_all
  have bel: "p' \<noteq> p" if "p < np" "(p', k', v') \<in> set (node_entries (Node c0 c1 np nk nv))" for p' k' v'
    using below_no_same [OF wf_root_below [OF Node.prems(1)] that(2,1)] .
  from np Node.prems(2,3) show ?case
  proof (cases rule: node_Upsert_cases [where l=c0 and r=c1 and nk=nk and nv=nv and k=k and v=v])
    case same
    have "p' \<noteq> p" if "(p', k', v') \<in> set (node_entries c0) \<union> set (node_entries c1)" for p' k' v'
      using wf_children_longer [OF Node.prems(1) that] same(1) by simp
    then show ?thesis
      using same agree_sym [OF same(2)] by (auto simp: others_def split: option.splits)
  next
    case (split0 q)
    then have "\<not> agree ops p k k'" if "(p, k', v') \<in> set (node_entries (Node c0 c1 np nk nv))" for k' v'
      using wf_split_no_same [OF Node.prems(1) split0(1,2) _ that] by simp
    then show ?thesis
      by (auto simp: split0(6) inner_entries others_def simp del: node_entries.simps(2))
  next
    case (split1 q)
    then have "\<not> agree ops p k k'" if "(p, k', v') \<in> set (node_entries (Node c0 c1 np nk nv))" for k' v'
      using wf_split_no_same [OF Node.prems(1) split1(1,2) _ that] by simp
    then show ?thesis
      by (auto simp: split1(6) inner_entries others_def simp del: node_entries.simps(2))
  next
    case left
    have "\<not> agree ops p k k'" if "(p, k', v') \<in> set (node_entries c1)" for k' v'
      using wf_no_same_other [OF Node.prems(1) left(1) Node.prems(2) left(2)] that left(3) by simp
    then show ?thesis
      using left Node.IH(1) [OF wf(1) Node.prems(2,3)] by (auto simp: others_def split: option.splits)
  next
    case right
    have "\<not> agree ops p k k'" if "(p, k', v') \<in> set (node_entries c0)" for k' v'
      using wf_no_same_other [OF Node.prems(1) right(1) Node.prems(2) right(2)] that right(3) by simp
    then show ?thesis
      using right Node.IH(2) [OF wf(2) Node.prems(2,3)] by (auto simp: others_def split: option.splits)
  qed (use bel in \<open>auto simp: inner_entries others_def simp del: node_entries.simps(2)\<close>)
qed (simp add: others_simps)

lemma node_Upsert_new:
  "\<lbrakk>wf_node ops w n; p \<le> w; p \<le> m\<rbrakk> \<Longrightarrow>
    snd (node_Upsert ops m p k v n) \<longleftrightarrow> (\<forall>k' v'. (p, k', v') \<in> set (node_entries n) \<longrightarrow> \<not> agree ops p k k')"
proof (induction n)
  case (Node c0 c1 np nk nv)
  have np: "np \<le> w" and wf: "wf_node ops w c0" "wf_node ops w c1"
    using Node.prems(1) by simp_all
  have bel: "p' \<noteq> p" if "p < np" "(p', k', v') \<in> set (node_entries (Node c0 c1 np nk nv))" for p' k' v'
    using below_no_same [OF wf_root_below [OF Node.prems(1)] that(2,1)] .
  from np Node.prems(2,3) show ?case
  proof (cases rule: node_Upsert_cases [where l=c0 and r=c1 and nk=nk and nv=nv and k=k and v=v])
    case same
    have "p' \<noteq> p" if "(p', k', v') \<in> set (node_entries c0) \<union> set (node_entries c1)" for p' k' v'
      using wf_children_longer [OF Node.prems(1) that] same(1) by simp
    then show ?thesis
      using same agree_sym [OF same(2)] by (cases nv) (fastforce simp: same(3))+
  next
    case (split0 q)
    then have "\<not> agree ops p k k'" if "(p, k', v') \<in> set (node_entries (Node c0 c1 np nk nv))" for k' v'
      using wf_split_no_same [OF Node.prems(1) split0(1,2) _ that] by simp
    then show ?thesis by (simp add: split0(6) del: node_entries.simps)
  next
    case (split1 q)
    then have "\<not> agree ops p k k'" if "(p, k', v') \<in> set (node_entries (Node c0 c1 np nk nv))" for k' v'
      using wf_split_no_same [OF Node.prems(1) split1(1,2) _ that] by simp
    then show ?thesis by (simp add: split1(6) del: node_entries.simps)
  next
    case left
    have "\<not> agree ops p k k'" if "(p, k', v') \<in> set (node_entries c1)" for k' v'
      using wf_no_same_other [OF Node.prems(1) left(1) Node.prems(2) left(2)] that left(3) by simp
    then show ?thesis
      using left Node.IH(1) [OF wf(1) Node.prems(2,3)] by (auto split: option.splits)
  next
    case right
    have "\<not> agree ops p k k'" if "(p, k', v') \<in> set (node_entries c0)" for k' v'
      using wf_no_same_other [OF Node.prems(1) right(1) Node.prems(2) right(2)] that right(3) by simp
    then show ?thesis
      using right Node.IH(2) [OF wf(2) Node.prems(2,3)] by (auto split: option.splits)
  qed (use bel in \<open>auto simp del: node_entries.simps(2)\<close>)
qed simp

lemma node_Upsert_length:
  "\<lbrakk>wf_node ops w n; p \<le> w; p \<le> m\<rbrakk> \<Longrightarrow>
    length (node_entries (fst (node_Upsert ops m p k v n))) =
      length (node_entries n) + (if snd (node_Upsert ops m p k v n) then 1 else 0)"
proof (induction n)
  case (Node c0 c1 np nk nv)
  have np: "np \<le> w" and wf: "wf_node ops w c0" "wf_node ops w c1"
    using Node.prems(1) by simp_all
  note IH = Node.IH(1) [OF wf(1) Node.prems(2,3)] Node.IH(2) [OF wf(2) Node.prems(2,3)]
  from np Node.prems(2,3) show ?case
    by (cases rule: node_Upsert_cases [where l=c0 and r=c1 and nk=nk and nv=nv and k=k and v=v])
      (use IH in \<open>auto split: option.splits\<close>)
qed simp

subsection \<open>Delete\<close>

lemma node_Delete_cases:
  assumes "np \<le> w" "p \<le> w"
  obtains
    (miss) "\<not> (np \<le> p \<and> agree ops np nk k) \<or> np = p \<and> nv = None"
      "node_Delete ops p k (Node l r np nk nv) = None"
  | (hit) v where "np = p" "agree ops p nk k" "nv = Some v"
      "node_Delete ops p k (Node l r np nk nv) =
         Some (l = NilNode \<and> r = NilNode,
           if l \<noteq> NilNode \<and> r \<noteq> NilNode then Node l r np nk None else if l \<noteq> NilNode then l else r)"
  | (left) "np < p" "agree ops np nk k" "BitValueAt ops k np = 0"
      "node_Delete ops p k (Node l r np nk nv) =
         (case node_Delete ops p k l of
            None \<Rightarrow> None
          | Some (leaf, c) \<Rightarrow> Some (False, if leaf \<and> nv = None then r else Node c r np nk nv))"
  | (right) "np < p" "agree ops np nk k" "BitValueAt ops k np \<noteq> 0"
      "node_Delete ops p k (Node l r np nk nv) =
         (case node_Delete ops p k r of
            None \<Rightarrow> None
          | Some (leaf, c) \<Rightarrow> Some (False, if leaf \<and> nv = None then l else Node l c np nk nv))"
proof -
  let ?ml = "prefixMatch ops np nk p k"
  have eq: "np = ?ml \<longleftrightarrow> np \<le> p \<and> agree ops np nk k"
    using match_node_eq [OF assms(1)] by metis
  consider "\<not> (np \<le> p \<and> agree ops np nk k)" | "np = p" "agree ops np nk k" | "np < p" "agree ops np nk k"
    by linarith
  then show ?thesis
  proof cases
    case 1
    then have "np \<noteq> ?ml" using eq by blast
    then show ?thesis using 1 by (intro miss) (simp_all add: node_Delete.simps(2) Let_def)
  next
    case 2
    then have ml: "?ml = p" using eq by auto
    show ?thesis
    proof (cases nv)
      case None
      with 2 ml show ?thesis by (intro miss) (simp_all add: node_Delete.simps(2) Let_def)
    next
      case (Some v)
      show ?thesis by (rule hit [OF 2(1) _ Some]) (use 2 ml Some in \<open>simp_all add: node_Delete.simps(2) Let_def\<close>)
    qed
  next
    case 3
    then have ml: "?ml = np" "np \<noteq> p" using eq by auto
    show ?thesis
    proof (cases "BitValueAt ops k np = 0")
      case True
      show ?thesis
        by (rule left [OF 3 True]) (use ml True in \<open>auto simp: node_Delete.simps(2) Let_def split: option.splits\<close>)
    next
      case False
      show ?thesis
        by (rule right [OF 3 False]) (use ml False in \<open>auto simp: node_Delete.simps(2) Let_def split: option.splits\<close>)
    qed
  qed
qed

lemma wf_root_miss:
  assumes "wf_node ops w (Node c0 c1 np nk nv)" "p \<le> w" "(p, k', v') \<in> set (node_entries (Node c0 c1 np nk nv))" "agree ops p k k'"
  shows "np \<le> p \<and> agree ops np nk k \<and> (np = p \<longrightarrow> nv = Some v' \<and> nk = k')"
proof -
  have *: "np \<le> p" "agree ops np nk k'"
    using below_entries [OF wf_root_below [OF assms(1)] assms(3)] by simp_all
  then have "agree ops np nk k"
    using agree_mono [OF assms(4) *(1)] by (blast intro: agree_trans agree_sym)
  moreover note *(1)
  moreover have "(p, k', v') \<notin> set (node_entries c0) \<union> set (node_entries c1)" if "np = p"
    using wf_children_longer [OF assms(1)] that by blast
  ultimately show ?thesis
    using assms(3) by (auto split: option.splits)
qed

lemma node_Delete_None:
  "\<lbrakk>wf_node ops w n; p \<le> w\<rbrakk> \<Longrightarrow>
    node_Delete ops p k n = None \<longleftrightarrow> (\<forall>k' v'. (p, k', v') \<in> set (node_entries n) \<longrightarrow> \<not> agree ops p k k')"
proof (induction n)
  case (Node c0 c1 np nk nv)
  have np: "np \<le> w" and wf: "wf_node ops w c0" "wf_node ops w c1"
    using Node.prems(1) by simp_all
  from np Node.prems(2) show ?case
  proof (cases rule: node_Delete_cases [where l=c0 and r=c1 and nk=nk and nv=nv and k=k])
    case miss
    then show ?thesis
      using wf_root_miss [OF Node.prems, of _ _ k] by fastforce
  next
    case (hit v)
    then show ?thesis using agree_sym [OF hit(2)] by auto
  next
    case left
    have "\<not> agree ops p k k'" if "(p, k', v') \<in> set (node_entries c1)" for k' v'
      using wf_no_same_other [OF Node.prems(1) left(1) Node.prems(2) left(2)] that left(3) by simp
    then show ?thesis
      using left Node.IH(1) [OF wf(1) Node.prems(2)] by (auto split: option.splits)
  next
    case right
    have "\<not> agree ops p k k'" if "(p, k', v') \<in> set (node_entries c0)" for k' v'
      using wf_no_same_other [OF Node.prems(1) right(1) Node.prems(2) right(2)] that right(3) by simp
    then show ?thesis
      using right Node.IH(2) [OF wf(2) Node.prems(2)] by (auto split: option.splits)
  qed
qed simp

lemma wf_node_subset_0:
  "\<lbrakk>wf_node ops w (Node c0 c1 np nk nv); wf_node ops w c; node_prefixes c \<subseteq> node_prefixes c0;
    nv = None \<Longrightarrow> c \<noteq> NilNode\<rbrakk> \<Longrightarrow> wf_node ops w (Node c c1 np nk nv)"
  by auto

lemma wf_node_subset_1:
  "\<lbrakk>wf_node ops w (Node c0 c1 np nk nv); wf_node ops w c; node_prefixes c \<subseteq> node_prefixes c1;
    nv = None \<Longrightarrow> c \<noteq> NilNode\<rbrakk> \<Longrightarrow> wf_node ops w (Node c0 c np nk nv)"
  by auto

lemma node_Delete_deleted:
  "\<lbrakk>wf_node ops w n; p \<le> w; node_Delete ops p k n = Some (leaf, n')\<rbrakk> \<Longrightarrow> deleted ops w p k n leaf n'"
proof (induction n arbitrary: leaf n')
  case (Node c0 c1 np nk nv)
  have np: "np \<le> w" and wf: "wf_node ops w c0" "wf_node ops w c1"
    using Node.prems(1) by simp_all
  from np Node.prems(2) show ?case
  proof (cases rule: node_Delete_cases [where l=c0 and r=c1 and nk=nk and nv=nv and k=k])
    case miss
    with Node.prems(3) show ?thesis by simp
  next
    case (hit v)
    have longer: "p' \<noteq> p" if "(p', k', v') \<in> set (node_entries c0) \<union> set (node_entries c1)" for p' k' v'
      using wf_children_longer [OF Node.prems(1) that] hit(1) by simp
    then have "others ops p k (set (node_entries c0)) = set (node_entries c0)"
      "others ops p k (set (node_entries c1)) = set (node_entries c1)"
      by (auto simp: others_def)
    then have ent: "others ops p k (set (node_entries (Node c0 c1 np nk nv))) = set (node_entries c0 @ node_entries c1)"
      using hit(1,3) agree_sym [OF hit(2)] by (simp add: others_simps)
    have res: "leaf = (c0 = NilNode \<and> c1 = NilNode)"
      "n' = (if c0 \<noteq> NilNode \<and> c1 \<noteq> NilNode then Node c0 c1 np nk None else if c0 \<noteq> NilNode then c0 else c1)"
      using Node.prems(3) hit(4) by simp_all
    have wf': "wf_node ops w n'"
      using res wf Node.prems(1) by simp
    show ?thesis
      unfolding deleted_def ent
      using res wf' hit(3) by (cases "c0 = NilNode"; cases "c1 = NilNode") auto
  next
    case left
    obtain lf c where c: "node_Delete ops p k c0 = Some (lf, c)"
      and res: "leaf = False" "n' = (if lf \<and> nv = None then c1 else Node c c1 np nk nv)"
      using Node.prems(3) left(4) by (auto split: option.splits)
    have other: "\<not> agree ops p k k'" if "(p, k', v') \<in> set (node_entries c1)" for k' v'
      using wf_no_same_other [OF Node.prems(1) left(1) Node.prems(2) left(2)] that left(3) by simp
    then have oth: "others ops p k (set (node_entries c1)) = set (node_entries c1)"
      by (auto simp: others_def)
    have IH: "deleted ops w p k c0 lf c" by (rule Node.IH(1) [OF wf(1) Node.prems(2) c])
    then have "wf_node ops w n'"
      using res wf(2) wf_node_subset_0 [OF Node.prems(1), of c] by (auto simp: deleted_def)
    then show ?thesis
      using IH res oth left(1) Node.prems(1)
      by (cases nv; cases lf) (auto simp: deleted_def others_simps)
  next
    case right
    obtain lf c where c: "node_Delete ops p k c1 = Some (lf, c)"
      and res: "leaf = False" "n' = (if lf \<and> nv = None then c0 else Node c0 c np nk nv)"
      using Node.prems(3) right(4) by (auto split: option.splits)
    have other: "\<not> agree ops p k k'" if "(p, k', v') \<in> set (node_entries c0)" for k' v'
      using wf_no_same_other [OF Node.prems(1) right(1) Node.prems(2) right(2)] that right(3) by simp
    then have oth: "others ops p k (set (node_entries c0)) = set (node_entries c0)"
      by (auto simp: others_def)
    have IH: "deleted ops w p k c1 lf c" by (rule Node.IH(2) [OF wf(2) Node.prems(2) c])
    then have "wf_node ops w n'"
      using res wf(1) wf_node_subset_1 [OF Node.prems(1), of c] by (auto simp: deleted_def)
    then show ?thesis
      using IH res oth right(1) Node.prems(1)
      by (cases nv; cases lf) (auto simp: deleted_def others_simps)
  qed
qed simp

end

end
