(* ===== verification/BitlpmSearch.thy ===== *)
theory BitlpmSearch
  imports BitlpmCorrect
begin

text \<open>
  The searches of the trie: what the walk along one key visits (\<^verbatim>\<open>ExactLookup\<close>,
  \<^verbatim>\<open>LongestPrefixMatch\<close>, the ancestor iterations) and what the subtree walks visit
  (\<^verbatim>\<open>Descendants\<close>).  All of them are characterised by the entries of the trie and the
  covering relation on prefixes.
\<close>

text \<open>The entries on the search path of a key, shortest prefix first.\<close>

primrec path :: "'k KeyOps \<Rightarrow> nat \<Rightarrow> 'k \<Rightarrow> ('k, 'v) node \<Rightarrow> (nat \<times> 'k \<times> 'v) list" where
  "path ops p k NilNode = []"
| "path ops p k (Node c0 c1 np nk nv) =
     (if np \<le> p \<and> agree ops np nk k then
        (case nv of None \<Rightarrow> [] | Some v \<Rightarrow> [(np, nk, v)]) @
        (if BitValueAt ops k np = 0 then path ops p k c0 else path ops p k c1)
      else [])"

text \<open>The entries whose prefix covers the prefix \<^verbatim>\<open>(p, k)\<close>.\<close>

definition covering :: "'k KeyOps \<Rightarrow> nat \<Rightarrow> 'k \<Rightarrow> (nat \<times> 'k \<times> 'v) set \<Rightarrow> (nat \<times> 'k \<times> 'v) set" where
  "covering ops p k S = {(p', k', v') \<in> S. covers ops p' k' p k}"

lemma covering_simps:
  "covering ops p k {} = {}"
  "covering ops p k (S \<union> T) = covering ops p k S \<union> covering ops p k T"
  "covering ops p k (insert (p', k', v') S) =
     (if covers ops p' k' p k then insert (p', k', v') (covering ops p k S) else covering ops p k S)"
  by (auto simp: covering_def)

lemma covering_none:
  "(\<And>p' k' v'. (p', k', v') \<in> S \<Longrightarrow> \<not> covers ops p' k' p k) \<Longrightarrow> covering ops p k S = {}"
  by (auto simp: covering_def)

definition covered :: "'k KeyOps \<Rightarrow> nat \<Rightarrow> 'k \<Rightarrow> (nat \<times> 'k \<times> 'v) set \<Rightarrow> (nat \<times> 'k \<times> 'v) set" where
  "covered ops p k S = {(p', k', v') \<in> S. covers ops p k p' k'}"

lemma covered_simps:
  "covered ops p k {} = {}"
  "covered ops p k (S \<union> T) = covered ops p k S \<union> covered ops p k T"
  "covered ops p k (insert (p', k', v') S) =
     (if covers ops p k p' k' then insert (p', k', v') (covered ops p k S) else covered ops p k S)"
  by (auto simp: covered_def)

lemma covered_none:
  "(\<And>p' k' v'. (p', k', v') \<in> S \<Longrightarrow> \<not> covers ops p k p' k') \<Longrightarrow> covered ops p k S = {}"
  by (auto simp: covered_def)

lemma covered_all:
  "(\<And>p' k' v'. (p', k', v') \<in> S \<Longrightarrow> covers ops p k p' k') \<Longrightarrow> covered ops p k S = S"
  by (auto simp: covered_def)

lemma path_miss: "\<not> (np \<le> p \<and> agree ops np nk k) \<Longrightarrow> path ops p k (Node c0 c1 np nk nv) = []"
  by auto

lemma path_entries: "set (path ops p k n) \<subseteq> set (node_entries n)"
  by (induction n) auto

text \<open>The entries of a subtree in the order in which the stack of the descendant iterator visits them.\<close>

primrec stack_entries :: "('k, 'v) node \<Rightarrow> (nat \<times> 'k \<times> 'v) list" where
  "stack_entries NilNode = []"
| "stack_entries (Node c0 c1 np nk nv) =
     (case nv of None \<Rightarrow> [] | Some v \<Rightarrow> [(np, nk, v)]) @ stack_entries c1 @ stack_entries c0"

lemma set_stack_entries: "set (stack_entries n) = set (node_entries n)"
  by (induction n) (auto split: option.splits)

lemma push_child_entries:
  "concat (map stack_entries (push_child c stack)) = stack_entries c @ concat (map stack_entries stack)"
  by (simp add: push_child_def)

lemma descendantIterator_Next_entries:
  "case descendantIterator_Next stack of
     None \<Rightarrow> concat (map stack_entries stack) = []
   | Some (kv, stack') \<Rightarrow>
       \<exists>np. concat (map stack_entries stack) = (np, kv) # concat (map stack_entries stack')"
proof (induction stack rule: descendantIterator_Next.induct)
  case (3 c0 c1 np nk nv stack)
  then show ?case
    by (cases nv) (auto simp: Let_def push_child_entries split: option.splits)
qed (auto split: option.splits)

lemma descendant_seq_stack: "descendant_seq stack = map snd (concat (map stack_entries stack))"
proof (induction stack rule: descendant_seq.induct)
  case (1 stack)
  then show ?case
    using descendantIterator_Next_entries [of stack]
    by (subst descendant_seq.simps) (auto split: option.splits)
qed

context bitlpm_key
begin

lemma path_set:
  assumes "wf_node ops w n"
  shows "set (path ops p k n) = covering ops p k (set (node_entries n))"
  using assms
proof (induction n)
  case (Node c0 c1 np nk nv)
  have IH: "set (path ops p k c0) = covering ops p k (set (node_entries c0))"
    "set (path ops p k c1) = covering ops p k (set (node_entries c1))"
    using Node by simp_all
  show ?case
  proof (cases "np \<le> p \<and> agree ops np nk k")
    case True
    have other: "\<not> covers ops p' k' p k"
      if "(p', k', v') \<in> set (node_entries (if BitValueAt ops k np = 0 then c1 else c0))" for p' k' v'
    proof
      assume "covers ops p' k' p k"
      moreover have "np < p' \<and> (BitValueAt ops k' np = 0) \<noteq> (BitValueAt ops k np = 0)"
        using Node.prems that by (auto dest!: entries_prefixes split: if_splits)
      ultimately show False using agree_bit [of p' k' k np] by (simp add: covers_def)
    qed
    have "covering ops p k (set (node_entries (if BitValueAt ops k np = 0 then c1 else c0))) = {}"
      by (rule covering_none) (rule other)
    then show ?thesis
      using True IH by (cases nv; cases "BitValueAt ops k np = 0") (simp_all add: covering_simps covers_def)
  next
    case False
    have none: "\<not> covers ops p' k' p k"
      if "(p', k', v') \<in> set (node_entries (Node c0 c1 np nk nv))" for p' k' v'
    proof
      assume "covers ops p' k' p k"
      moreover have *: "np \<le> p'" "agree ops np nk k'"
        using below_entries [OF wf_root_below [OF Node.prems] that] by simp_all
      ultimately show False
        using False agree_trans [OF *(2) agree_mono [of p' k' k np]] by (simp add: covers_def)
    qed
    have "covering ops p k (set (node_entries (Node c0 c1 np nk nv))) = {}"
      by (rule covering_none) (rule none)
    then show ?thesis
      by (simp add: path_miss [OF False] del: path.simps(2) node_entries.simps)
  qed
qed (simp add: covering_simps)

lemma path_sorted: "wf_node ops w n \<Longrightarrow> sorted_wrt (<) (map fst (path ops p k n))"
proof (induction n)
  case (Node c0 c1 np nk nv)
  have longer: "np < fst x" if "x \<in> set (path ops p k c0) \<union> set (path ops p k c1)" for x
    using wf_children_longer [OF Node.prems, of "fst x" "fst (snd x)" "snd (snd x)"] that
      path_entries [of ops p k c0] path_entries [of ops p k c1] by auto
  have "sorted_wrt (<) (map fst (path ops p k c0))" "sorted_wrt (<) (map fst (path ops p k c1))"
    using Node by simp_all
  then show ?case
    by (cases nv) (simp_all add: longer)
qed simp

lemma wf_max_no_child:
  "\<lbrakk>wf_node ops w (Node c0 c1 np nk nv); w \<le> np\<rbrakk> \<Longrightarrow> c0 = NilNode \<and> c1 = NilNode"
  by (cases c0; cases c1) auto

lemma lpf_stack_path:
  "\<lbrakk>wf_node ops w n; w \<le> m\<rbrakk> \<Longrightarrow> lpf_stack ops m p k n st = rev (path ops p k n) @ st"
proof (induction n arbitrary: st)
  case (Node c0 c1 np nk nv)
  have np: "np \<le> w" using Node.prems by simp
  have stop: "c0 = NilNode \<and> c1 = NilNode" if "np = m"
    using wf_max_no_child [OF Node.prems(1)] that Node.prems(2) by simp
  show ?case
  proof (cases "np \<le> p \<and> agree ops np nk k")
    case False
    then show ?thesis using match_node [OF np, of nk p k] by (simp add: path_miss [OF False] del: path.simps(2))
  next
    case True
    then have ml: "prefixMatch ops np nk p k = np" using match_node_eq [OF np] by simp
    show ?thesis
      using Node True ml stop by (cases nv) (auto simp: Let_def)
  qed
qed simp

lemma traverse_path:
  "\<lbrakk>wf_node ops w n; w \<le> m\<rbrakk> \<Longrightarrow> node_traverse ops m p k fn n s = snd (iterate fn (path ops p k n) s)"
proof (induction n arbitrary: s)
  case (Node c0 c1 np nk nv)
  have np: "np \<le> w" using Node.prems by simp
  have stop: "c0 = NilNode \<and> c1 = NilNode" if "np = m"
    using wf_max_no_child [OF Node.prems(1)] that Node.prems(2) by simp
  show ?case
  proof (cases "np \<le> p \<and> agree ops np nk k")
    case False
    then show ?thesis using match_node [OF np, of nk p k] by (simp add: path_miss [OF False] del: path.simps(2))
  next
    case True
    then have ml: "prefixMatch ops np nk p k = np" using match_node_eq [OF np] by simp
    show ?thesis
      using Node True ml stop by (cases nv) (auto simp: Let_def split: prod.splits)
  qed
qed simp

lemma ancestor_Next_path:
  "\<lbrakk>wf_node ops w n; w \<le> m\<rbrakk> \<Longrightarrow>
    (case ancestor_Next ops m p k n of
       None \<Rightarrow> path ops p k n = []
     | Some (kv, n') \<Rightarrow> wf_node ops w n' \<and> (\<exists>np. path ops p k n = (np, kv) # path ops p k n'))"
proof (induction n)
  case (Node c0 c1 np nk nv)
  have np: "np \<le> w" using Node.prems by simp
  have stop: "c0 = NilNode \<and> c1 = NilNode" if "np = m"
    using wf_max_no_child [OF Node.prems(1)] that Node.prems(2) by simp
  show ?case
  proof (cases "np \<le> p \<and> agree ops np nk k")
    case False
    then show ?thesis using match_node [OF np, of nk p k] by (simp add: path_miss [OF False] del: path.simps(2))
  next
    case True
    then have ml: "prefixMatch ops np nk p k = np" using match_node_eq [OF np] by simp
    show ?thesis
      using Node True ml stop by (cases nv) (auto simp: Let_def split: option.splits)
  qed
qed simp

text \<open>Two entries with the same prefix are one entry.\<close>

lemma wf_entry_slot:
  assumes "wf_node ops w (Node c0 c1 np nk nv)"
  shows "(p, k, v) \<in> set (node_entries c0) \<Longrightarrow> BitValueAt ops k np = 0"
    and "(p, k, v) \<in> set (node_entries c1) \<Longrightarrow> BitValueAt ops k np \<noteq> 0"
  using assms by (auto dest!: entries_prefixes)

lemma wf_entry_unique:
  "\<lbrakk>wf_node ops w n; (p, k, v) \<in> set (node_entries n); (p, k', v') \<in> set (node_entries n); agree ops p k k'\<rbrakk>
    \<Longrightarrow> k = k' \<and> v = v'"
proof (induction n)
  case (Node c0 c1 np nk nv)
  show ?case
  proof (cases "p = np")
    case True
    then show ?thesis
      using wf_root_miss [OF Node.prems(1) _ Node.prems(2), of k] wf_root_miss [OF Node.prems(1) _ Node.prems(3,4)]
        Node.prems(1) by simp
  next
    case False
    then have mem: "(p, k, v) \<in> set (node_entries c0) \<union> set (node_entries c1)"
      "(p, k', v') \<in> set (node_entries c0) \<union> set (node_entries c1)"
      using Node.prems(2,3) by (auto split: option.splits)
    then have "np < p" using wf_children_longer [OF Node.prems(1)] by blast
    then have "BitValueAt ops k np = BitValueAt ops k' np"
      using agree_bit [OF Node.prems(4)] by simp
    then have "(p, k, v) \<in> set (node_entries c0) \<longleftrightarrow> (p, k', v') \<in> set (node_entries c0)"
      "(p, k, v) \<in> set (node_entries c1) \<longleftrightarrow> (p, k', v') \<in> set (node_entries c1)"
      using mem wf_entry_slot [OF Node.prems(1), of p k v] wf_entry_slot [OF Node.prems(1), of p k' v'] by auto
    moreover have "wf_node ops w c0" "wf_node ops w c1" using Node.prems(1) by simp_all
    ultimately show ?thesis
      using Node.IH Node.prems(4) mem by blast
  qed
qed simp

lemma wf_distinct: "wf_node ops w n \<Longrightarrow> distinct (node_entries n)"
proof (induction n)
  case (Node c0 c1 np nk nv)
  have "set (node_entries c0) \<inter> set (node_entries c1) = {}"
    using wf_entry_slot [OF Node.prems] by fast
  moreover have "(np, nk, v) \<notin> set (node_entries c0) \<union> set (node_entries c1)" for v
    using wf_children_longer [OF Node.prems, of np nk v] by auto
  ultimately show ?case
    using Node by (cases nv) simp_all
qed simp

lemma node_setValue_prefixes: "node_prefixes (node_setValue ops p k v n) = node_prefixes n"
  by (induction n) (auto simp: node_setValue.simps(2) Let_def)

lemma node_setValue_Nil: "node_setValue ops p k v n = NilNode \<longleftrightarrow> n = NilNode"
  by (cases n) (auto simp: node_setValue.simps(2) Let_def)

lemma node_setValue_wf: "wf_node ops w n \<Longrightarrow> wf_node ops w (node_setValue ops p k v n)"
  by (induction n)
    (auto simp: node_setValue.simps(2) Let_def node_setValue_prefixes node_setValue_Nil split: option.splits)

lemma node_setValue_length: "length (node_entries (node_setValue ops p k v n)) = length (node_entries n)"
  by (induction n) (auto simp: node_setValue.simps(2) Let_def split: option.splits)

lemma node_setValue_entries:
  "wf_node ops w n \<Longrightarrow> p \<le> w \<Longrightarrow>
    set (node_entries (node_setValue ops p k v n)) =
      (\<lambda>(p', k', v'). (p', k', if p' = p \<and> agree ops p k k' then v else v')) ` set (node_entries n)"
proof (induction n)
  case (Node c0 c1 np nk nv)
  let ?f = "\<lambda>(p', k', v'). (p', k', if p' = p \<and> agree ops p k k' then v else v')"
  have keep: "?f ` S = S" if "\<And>k' v'. (p, k', v') \<in> S \<Longrightarrow> \<not> agree ops p k k'" for S
    using that by (force simp: image_iff)
  have np: "np \<le> w" and wf: "wf_node ops w c0" "wf_node ops w c1"
    using Node.prems(1) by simp_all
  show ?case
  proof (cases "np \<le> p \<and> agree ops np nk k")
    case False
    then have "?f ` set (node_entries (Node c0 c1 np nk nv)) = set (node_entries (Node c0 c1 np nk nv))"
      by (intro keep) (use wf_root_miss [OF Node.prems] in blast)
    then show ?thesis
      using False match_node [OF np, of nk p k] by (simp add: node_setValue.simps(2) Let_def del: node_entries.simps)
  next
    case True
    then have ml: "prefixMatch ops np nk p k = np" using match_node_eq [OF np] by simp
    show ?thesis
    proof (cases "np = p")
      case eq: True
      have "?f ` set (node_entries c0) = set (node_entries c0)" "?f ` set (node_entries c1) = set (node_entries c1)"
        by (intro keep; use wf_children_longer [OF Node.prems(1)] eq in blast)+
      then show ?thesis
        using True ml eq agree_sym [of np nk k] by (cases nv) (auto simp: node_setValue.simps(2) image_Un)
    next
      case False
      then have lt: "np < p" using True by simp
      have "?f ` set (node_entries (if BitValueAt ops k np = 0 then c1 else c0)) =
          set (node_entries (if BitValueAt ops k np = 0 then c1 else c0))"
        by (intro keep wf_no_same_other [OF Node.prems(1) lt Node.prems(2)]) (use True in auto)
      then show ?thesis
        using ml lt Node.IH(1) [OF wf(1) Node.prems(2)] Node.IH(2) [OF wf(2) Node.prems(2)]
        by (cases nv) (auto simp: node_setValue.simps(2) image_Un split: if_splits)
    qed
  qed
qed simp

subsection \<open>Descendants\<close>

lemma descend_covered:
  "\<lbrakk>wf_node ops w n; p \<le> w; w \<le> m\<rbrakk> \<Longrightarrow>
    set (node_entries (descend ops m p k n)) = covered ops p k (set (node_entries n))"
proof (induction n)
  case (Node c0 c1 np nk nv)
  have IH: "set (node_entries (descend ops m p k c0)) = covered ops p k (set (node_entries c0))"
    "set (node_entries (descend ops m p k c1)) = covered ops p k (set (node_entries c1))"
    using Node by simp_all
  have np: "np \<le> w" using Node.prems(1) by simp
  have below: "np \<le> p' \<and> agree ops np nk k'"
    if "(p', k', v') \<in> set (node_entries (Node c0 c1 np nk nv))" for p' k' v'
    using below_entries [OF wf_root_below [OF Node.prems(1)] that] by simp
  show ?case
  proof (cases "p \<le> np \<and> agree ops p nk k")
    case True
    have "covered ops p k (set (node_entries (Node c0 c1 np nk nv))) = set (node_entries (Node c0 c1 np nk nv))"
    proof (rule covered_all)
      fix p' k' v' assume "(p', k', v') \<in> set (node_entries (Node c0 c1 np nk nv))"
      then have *: "np \<le> p'" "agree ops np nk k'" using below by auto
      then show "covers ops p k p' k'"
        using True agree_via [of p nk k k'] agree_mono [OF *(2)] by (simp add: covers_def)
    qed
    then show ?thesis
      using True match_search [OF Node.prems(2), of np nk k] by (simp add: Let_def del: node_entries.simps)
  next
    case False
    have miss: "\<not> covers ops p k p' k'"
      if "p \<le> np" "(p', k', v') \<in> set (node_entries (Node c0 c1 np nk nv))" for p' k' v'
    proof
      assume "covers ops p k p' k'"
      then have "agree ops p k' k" by (auto simp: covers_def intro: agree_sym)
      moreover have "agree ops p nk k'" using below [OF that(2)] agree_mono that(1) by blast
      ultimately show False using False that(1) agree_trans by blast
    qed
    have root: "\<not> covers ops p k np nk"
      using False by (auto simp: covers_def intro: agree_sym)
    have other: "\<not> covers ops p k p' k'"
      if "(p', k', v') \<in> set (node_entries (if BitValueAt ops k np = 0 then c1 else c0))" for p' k' v'
    proof (cases "p \<le> np")
      case True
      have "(p', k', v') \<in> set (node_entries (Node c0 c1 np nk nv))"
        using that by (auto split: if_splits)
      then show ?thesis by (rule miss [OF True])
    next
      case False
      then show ?thesis
        using wf_entry_slot [OF Node.prems(1), of p' k' v'] that agree_bit [of p k k' np]
        by (auto simp: covers_def split: if_splits)
    qed
    have rest: "covered ops p k (set (node_entries (if BitValueAt ops k np = 0 then c1 else c0))) = {}"
      by (rule covered_none) (rule other)
    have ml: "\<not> p \<le> prefixMatch ops np nk p k"
      using False match_search [OF Node.prems(2), of np nk k] by simp
    show ?thesis
    proof (cases "m \<le> np")
      case True
      then have "covered ops p k (set (node_entries (Node c0 c1 np nk nv))) = {}"
        using Node.prems(2,3) np by (intro covered_none miss) auto
      then show ?thesis using True ml by (simp add: Let_def del: node_entries.simps(2))
    next
      case False
      then show ?thesis
        using ml rest root IH
        by (cases nv; cases "BitValueAt ops k np = 0") (simp_all add: Let_def covered_simps)
    qed
  qed
qed (simp add: covered_simps)

lemma descend_wf: "wf_node ops w n \<Longrightarrow> wf_node ops w (descend ops m p k n)"
proof (induction n)
  case (Node c0 c1 np nk nv)
  have "wf_node ops w c0" "wf_node ops w c1" using Node.prems by simp_all
  then show ?case using Node by (simp add: Let_def)
qed simp

end

end
