(* ===== verification/BitlpmTrie.thy ===== *)
theory BitlpmTrie
  imports BitlpmSearch
begin

text \<open>
  The contract of the trie's exported operations, in terms of the set of its entries.  This is the
  interface the users of the trie rely on.
\<close>

lemma NewTrie_entries [simp]: "trie_entry_list (NewTrie m) = []"
  by (simp add: trie_entry_list_def NewTrie_def)

lemma node_forEach_entries:
  "node_forEach (\<lambda>e acc. (True, acc @ [e])) n acc = acc @ node_entries n"
  by (induction n arbitrary: acc) (auto split: option.splits)

context bitlpm_key
begin

lemma wf_NewTrie: "w \<le> m \<Longrightarrow> wf_trie ops w (NewTrie m)"
  by (simp add: wf_trie_def NewTrie_def)

lemma wf_trie_max: "wf_trie ops w t \<Longrightarrow> p \<le> w \<Longrightarrow> min p (trie_maxPrefix t) = p"
  by (simp add: wf_trie_def)

lemma wf_trie_root: "wf_trie ops w t \<Longrightarrow> wf_node ops w (trie_root t) \<and> w \<le> trie_maxPrefix t"
  by (simp add: wf_trie_def)

lemma Upsert_maxPrefix: "trie_maxPrefix (fst (Upsert ops t p k v)) = trie_maxPrefix t"
  by (simp add: Upsert_def Let_def split_beta)

lemma Upsert_wf:
  assumes "wf_trie ops w t" "p \<le> w"
  shows "wf_trie ops w (fst (Upsert ops t p k v))"
proof -
  have *: "wf_node ops w (trie_root t)" "p \<le> w" "p \<le> trie_maxPrefix t"
    using assms by (simp_all add: wf_trie_def)
  show ?thesis
    using assms node_Upsert_wf [OF *] node_Upsert_length [OF *]
    by (simp add: Upsert_def Let_def wf_trie_max [OF assms] wf_trie_def split_beta)
qed

lemma Upsert_entries:
  assumes "wf_trie ops w t" "p \<le> w"
  shows "set (trie_entry_list (fst (Upsert ops t p k v))) =
    insert (p, k, v) (others ops p k (set (trie_entry_list t)))"
proof -
  have *: "wf_node ops w (trie_root t)" "p \<le> w" "p \<le> trie_maxPrefix t"
    using assms by (simp_all add: wf_trie_def)
  show ?thesis
    using node_Upsert_entries [OF *]
    by (simp add: Upsert_def Let_def wf_trie_max [OF assms] trie_entry_list_def split_beta)
qed

lemma Delete_spec:
  assumes "wf_trie ops w t" "p \<le> w"
  shows "wf_trie ops w (fst (Delete ops t p k)) \<and>
    set (trie_entry_list (fst (Delete ops t p k))) = others ops p k (set (trie_entry_list t)) \<and>
    (snd (Delete ops t p k) \<longleftrightarrow> (\<exists>k' v'. (p, k', v') \<in> set (trie_entry_list t) \<and> agree ops p k k'))"
proof -
  have wf: "wf_node ops w (trie_root t)" using assms by (simp add: wf_trie_def)
  show ?thesis
  proof (cases "node_Delete ops p k (trie_root t)")
    case None
    then have no: "\<forall>k' v'. (p, k', v') \<in> set (node_entries (trie_root t)) \<longrightarrow> \<not> agree ops p k k'"
      using node_Delete_None [OF wf assms(2)] by simp
    then have "others ops p k (set (node_entries (trie_root t))) = set (node_entries (trie_root t))"
      by (intro others_id) blast
    then show ?thesis
      using None no assms(1) by (auto simp: Delete_def Let_def wf_trie_max [OF assms] trie_entry_list_def)
  next
    case (Some r)
    obtain leaf n where r: "r = (leaf, n)" by (cases r)
    have "deleted ops w p k (trie_root t) leaf n"
      using node_Delete_deleted [OF wf assms(2)] Some r by simp
    moreover have "\<exists>k' v'. (p, k', v') \<in> set (node_entries (trie_root t)) \<and> agree ops p k k'"
      using Some node_Delete_None [OF wf assms(2), of k] by auto
    ultimately show ?thesis
      using Some r assms(1)
      by (auto simp: Delete_def Let_def wf_trie_max [OF assms] trie_entry_list_def deleted_def wf_trie_def)
  qed
qed

lemma trie_setValue_wf: "wf_trie ops w t \<Longrightarrow> wf_trie ops w (trie_setValue ops t p k v)"
  by (simp add: trie_setValue_def wf_trie_def node_setValue_wf node_setValue_length)

lemma trie_setValue_entries:
  assumes "wf_trie ops w t" "p \<le> w"
  shows "set (trie_entry_list (trie_setValue ops t p k v)) =
      (\<lambda>(p', k', v'). (p', k', if p' = p \<and> agree ops p k k' then v else v')) ` set (trie_entry_list t)"
  using node_setValue_entries [of "trie_root t" p k v] assms
  by (simp add: trie_setValue_def trie_entry_list_def wf_trie_max wf_trie_def)

lemma trie_entry_unique:
  "\<lbrakk>wf_trie ops w t; (p, k, v) \<in> set (trie_entry_list t); (p, k', v') \<in> set (trie_entry_list t); agree ops p k k'\<rbrakk>
    \<Longrightarrow> k = k' \<and> v = v'"
  unfolding wf_trie_def trie_entry_list_def by (elim conjE) (rule wf_entry_unique)

lemma trie_entry_le:
  assumes "wf_trie ops w t" "(p, k, v) \<in> set (trie_entry_list t)"
  shows "p \<le> w"
proof (cases "trie_root t")
  case NilNode
  with assms(2) show ?thesis by (simp add: trie_entry_list_def)
next
  case (Node c0 c1 np nk nv)
  with assms show ?thesis
    using below_entries [OF wf_root_below [of c0 c1 np nk nv], of p k v]
    by (simp add: wf_trie_def trie_entry_list_def del: wf_node.simps node_entries.simps)
qed

lemma trie_distinct: "wf_trie ops w t \<Longrightarrow> distinct (trie_entry_list t)"
  by (simp add: wf_trie_def trie_entry_list_def wf_distinct)

lemma trie_Len_card: "wf_trie ops w t \<Longrightarrow> trie_Len t = card (set (trie_entry_list t))"
  using trie_distinct [of t] by (simp add: trie_Len_def wf_trie_def trie_entry_list_def distinct_card)

lemma Ancestors_path:
  assumes "wf_trie ops w t" "p \<le> w"
  shows "Ancestors ops t p k fn s = snd (iterate fn (path ops p k (trie_root t)) s)"
  using assms by (simp add: Ancestors_def traverse_def wf_trie_max traverse_path wf_trie_def)

text \<open>\<^verbatim>\<open>ExactLookup\<close> finds the entry of the prefix and nothing else.\<close>

lemma iterate_exact:
  "sorted_wrt (<) (map fst xs) \<Longrightarrow>
    snd (iterate (\<lambda>(np, nk, v) ret. if np = (p::nat) then (False, Some v) else (True, ret)) xs None) = Some v \<longleftrightarrow>
      (\<exists>k'. (p, k', v) \<in> set xs)"
proof (induction xs)
  case (Cons x xs)
  obtain np nk nv where x: "x = (np, nk, nv)" by (cases x)
  show ?case
  proof (cases "np = p")
    case True
    then have "(p, k', v) \<notin> set xs" for k'
      using Cons.prems by (fastforce simp: x)
    then show ?thesis using True by (auto simp: x)
  next
    case False
    then show ?thesis using Cons by (auto simp: x)
  qed
qed simp

lemma ExactLookup_iff:
  assumes "wf_trie ops w t" "p \<le> w"
  shows "ExactLookup ops t p k = Some v \<longleftrightarrow> (\<exists>k'. (p, k', v) \<in> set (trie_entry_list t) \<and> agree ops p k' k)"
proof -
  have wf: "wf_node ops w (trie_root t)" "w \<le> trie_maxPrefix t"
    using wf_trie_root [OF assms(1)] by simp_all
  show ?thesis
    using iterate_exact [OF path_sorted [OF wf(1)], of p p k v] path_set [OF wf(1), of p k]
    by (simp add: ExactLookup_def Let_def wf_trie_max [OF assms] traverse_def traverse_path [OF wf]
        covering_def covers_def trie_entry_list_def)
qed

lemma iterate_last: "snd (iterate (\<lambda>(np, nk, v) r. (True, Some (nk, v))) xs r) = (if xs = [] then r else Some (snd (last xs)))"
  by (induction xs arbitrary: r) auto

lemma LongestPrefixMatch_path:
  assumes "wf_trie ops w t"
  shows "LongestPrefixMatch ops t k =
    (if path ops (trie_maxPrefix t) k (trie_root t) = [] then None
     else Some (snd (last (path ops (trie_maxPrefix t) k (trie_root t)))))"
  using wf_trie_root [OF assms] by (simp add: LongestPrefixMatch_def traverse_def traverse_path iterate_last)

lemma ancestor_seq_path:
  "wf_node ops w (iter_currentNode i) \<Longrightarrow> w \<le> iter_maxPrefix i \<Longrightarrow>
    ancestor_seq ops i = map snd (path ops (iter_prefixLen i) (iter_key i) (iter_currentNode i))"
proof (induction "size (iter_currentNode i)" arbitrary: i rule: less_induct)
  case less
  note spec = ancestor_Next_path [OF less.prems, of "iter_prefixLen i" "iter_key i"]
  show ?case
  proof (cases "ancestor_Next ops (iter_maxPrefix i) (iter_prefixLen i) (iter_key i) (iter_currentNode i)")
    case None
    then show ?thesis
      using spec by (subst ancestor_seq.simps) (simp add: ancestorIterator_Next_def)
  next
    case (Some r)
    obtain kv n' where r: "r = (kv, n')" by (cases r)
    have "size n' < size (iter_currentNode i)"
      by (rule ancestor_Next_size) (use Some r in simp)
    then have "ancestor_seq ops (i\<lparr>iter_currentNode := n'\<rparr>) =
        map snd (path ops (iter_prefixLen i) (iter_key i) n')"
      using less.hyps [of "i\<lparr>iter_currentNode := n'\<rparr>"] less.prems spec Some r by simp
    then show ?thesis
      using spec Some r by (subst ancestor_seq.simps) (auto simp: ancestorIterator_Next_def)
  qed
qed

lemma ancestorLPF_seq_map: "ancestorLPF_seq xs = map snd xs"
  by (induction xs) (auto split: prod.splits)

text \<open>The loops over the iterators visit the search path.\<close>

lemma AncestorIterator_seq:
  assumes "wf_trie ops w t" "p \<le> w"
  shows "ancestor_seq ops (AncestorIterator t p k) = map snd (path ops p k (trie_root t))"
  using assms ancestor_seq_path [of "AncestorIterator t p k"]
  by (simp add: AncestorIterator_def wf_trie_max wf_trie_def)

lemma AncestorLPF_seq:
  assumes "wf_trie ops w t"
  shows "ancestorLPF_seq (AncestorLongestPrefixFirstIterator ops t p k) = rev (map snd (path ops p k (trie_root t)))"
  using assms
  by (simp add: AncestorLongestPrefixFirstIterator_def lpf_stack_path wf_trie_def ancestorLPF_seq_map rev_map)

lemma DescendantIterator_seq:
  assumes "wf_trie ops w t" "p \<le> w"
  shows "set (descendant_seq (DescendantIterator ops t p k)) =
    snd ` covered ops p k (set (trie_entry_list t))"
proof -
  have wf: "wf_node ops w (trie_root t)" "w \<le> trie_maxPrefix t"
    using wf_trie_root [OF assms(1)] by simp_all
  let ?n = "descend ops (trie_maxPrefix t) p k (trie_root t)"
  have "set (descendant_seq (DescendantIterator ops t p k)) = snd ` set (stack_entries ?n)"
    by (cases ?n) (simp_all add: DescendantIterator_def Let_def wf_trie_max [OF assms] descendant_seq_stack image_Un)
  then show ?thesis
    using descend_covered [OF wf(1) assms(2) wf(2)] by (simp add: set_stack_entries trie_entry_list_def)
qed

lemma stack_entries_distinct:
  assumes "wf_node ops w n"
  shows "distinct (stack_entries n)"
proof -
  have len: "length (stack_entries n) = length (node_entries n)"
    by (induction n) (auto split: option.split)
  have "card (set (stack_entries n)) = length (stack_entries n)"
    using wf_distinct [OF assms] by (simp add: set_stack_entries len distinct_card)
  then show ?thesis by (rule card_distinct)
qed

lemma DescendantIterator_distinct:
  assumes "wf_trie ops w t" "p \<le> w"
  shows "\<exists>es. descendant_seq (DescendantIterator ops t p k) = map snd es \<and> distinct es \<and>
    set es = covered ops p k (set (trie_entry_list t))"
proof -
  have wf: "wf_node ops w (trie_root t)" "w \<le> trie_maxPrefix t"
    using wf_trie_root [OF assms(1)] by simp_all
  let ?n = "descend ops (trie_maxPrefix t) p k (trie_root t)"
  have "descendant_seq (DescendantIterator ops t p k) = map snd (stack_entries ?n)"
    by (cases ?n) (simp_all add: DescendantIterator_def Let_def wf_trie_max [OF assms] descendant_seq_stack)
  moreover have "set (stack_entries ?n) = covered ops p k (set (trie_entry_list t))"
    using descend_covered [OF wf(1) assms(2) wf(2)] by (simp add: set_stack_entries trie_entry_list_def)
  ultimately show ?thesis using stack_entries_distinct [OF descend_wf [OF wf(1)]] by blast
qed

lemma path_root_set:
  "wf_trie ops w t \<Longrightarrow> set (path ops p k (trie_root t)) = covering ops p k (set (trie_entry_list t))"
  by (simp add: path_set wf_trie_def trie_entry_list_def)

text \<open>The trie as a map from prefixes to values.\<close>

lemma ExactLookup_cong:
  assumes "\<And>x. ExactLookup ops t p k = Some x \<longleftrightarrow> y = Some x"
  shows "ExactLookup ops t p k = y"
  using assms by (metis option.exhaust)

lemma others_lookup:
  "(\<exists>k1. (p', k1, x) \<in> others ops p k S \<and> agree ops p' k1 k') \<longleftrightarrow>
    \<not> (p' = p \<and> agree ops p k k') \<and> (\<exists>k1. (p', k1, x) \<in> S \<and> agree ops p' k1 k')"
proof -
  have "agree ops p k k1 \<longleftrightarrow> agree ops p k k'" if "agree ops p k1 k'" for k1
    using that by (simp add: agree_def)
  then show ?thesis unfolding others_def by blast
qed

lemma ExactLookup_Upsert:
  assumes t: "wf_trie ops w t" and p: "p \<le> w" and p': "p' \<le> w"
  shows "ExactLookup ops (fst (Upsert ops t p k v)) p' k' =
    (if p' = p \<and> agree ops p k k' then Some v else ExactLookup ops t p' k')"
proof (rule ExactLookup_cong)
  fix x
  have "ExactLookup ops (fst (Upsert ops t p k v)) p' k' = Some x \<longleftrightarrow>
      (\<exists>k1. (p', k1, x) \<in> insert (p, k, v) (others ops p k (set (trie_entry_list t))) \<and> agree ops p' k1 k')"
    by (simp only: ExactLookup_iff [OF Upsert_wf [OF t p] p'] Upsert_entries [OF t p])
  also have "\<dots> \<longleftrightarrow> p' = p \<and> x = v \<and> agree ops p k k' \<or>
      (\<exists>k1. (p', k1, x) \<in> others ops p k (set (trie_entry_list t)) \<and> agree ops p' k1 k')"
    by blast
  also have "\<dots> \<longleftrightarrow> (if p' = p \<and> agree ops p k k' then Some v else ExactLookup ops t p' k') = Some x"
    unfolding others_lookup ExactLookup_iff [OF t p', of k' x, symmetric] by (simp, blast)
  finally show "ExactLookup ops (fst (Upsert ops t p k v)) p' k' = Some x \<longleftrightarrow>
      (if p' = p \<and> agree ops p k k' then Some v else ExactLookup ops t p' k') = Some x" .
qed

lemma ExactLookup_Delete:
  assumes t: "wf_trie ops w t" and p: "p \<le> w" and p': "p' \<le> w"
  shows "ExactLookup ops (fst (Delete ops t p k)) p' k' =
    (if p' = p \<and> agree ops p k k' then None else ExactLookup ops t p' k')"
proof (rule ExactLookup_cong)
  fix x
  note spec = Delete_spec [OF t p, of k]
  have "ExactLookup ops (fst (Delete ops t p k)) p' k' = Some x \<longleftrightarrow>
      (\<exists>k1. (p', k1, x) \<in> others ops p k (set (trie_entry_list t)) \<and> agree ops p' k1 k')"
    by (simp only: ExactLookup_iff [OF conjunct1 [OF spec] p'] conjunct1 [OF conjunct2 [OF spec]])
  then show "ExactLookup ops (fst (Delete ops t p k)) p' k' = Some x \<longleftrightarrow>
      (if p' = p \<and> agree ops p k k' then None else ExactLookup ops t p' k') = Some x"
    unfolding others_lookup ExactLookup_iff [OF t p', of k' x, symmetric] by simp
qed

lemma Delete_found:
  assumes t: "wf_trie ops w t" and p: "p \<le> w"
  shows "snd (Delete ops t p k) \<longleftrightarrow> ExactLookup ops t p k \<noteq> None"
proof -
  have sym: "agree ops p k k' \<longleftrightarrow> agree ops p k' k" for k' by (auto simp: agree_def)
  have "ExactLookup ops t p k \<noteq> None \<longleftrightarrow> (\<exists>v k'. (p, k', v) \<in> set (trie_entry_list t) \<and> agree ops p k' k)"
    unfolding ExactLookup_iff [OF t p, symmetric] by auto
  then show ?thesis unfolding sym [symmetric] using Delete_spec [OF t p, of k] by blast
qed

lemma longest_path_iff:
  assumes t: "wf_trie ops w t"
  shows "(p, k', v) \<in> set (path ops (trie_maxPrefix t) k (trie_root t)) \<longleftrightarrow>
    (p, k', v) \<in> set (trie_entry_list t) \<and> agree ops p k' k"
proof -
  have "(p, k', v) \<in> set (path ops (trie_maxPrefix t) k (trie_root t)) \<longleftrightarrow>
      (p, k', v) \<in> set (trie_entry_list t) \<and> p \<le> trie_maxPrefix t \<and> agree ops p k' k"
    by (simp add: path_root_set [OF t] covering_def covers_def)
  moreover have "p \<le> trie_maxPrefix t" if "(p, k', v) \<in> set (trie_entry_list t)"
    using trie_entry_le [OF t that] wf_trie_root [OF t] by simp
  ultimately show ?thesis by blast
qed

lemma LongestPrefixMatch_None:
  assumes t: "wf_trie ops w t"
  shows "LongestPrefixMatch ops t k = None \<longleftrightarrow>
    (\<forall>p k' v. (p, k', v) \<in> set (trie_entry_list t) \<longrightarrow> \<not> agree ops p k' k)"
proof -
  have "LongestPrefixMatch ops t k = None \<longleftrightarrow> path ops (trie_maxPrefix t) k (trie_root t) = []"
    by (simp add: LongestPrefixMatch_path [OF t])
  also have "\<dots> \<longleftrightarrow> (\<forall>p k' v. (p, k', v) \<notin> set (path ops (trie_maxPrefix t) k (trie_root t)))"
    by (cases "path ops (trie_maxPrefix t) k (trie_root t)") auto
  finally show ?thesis by (simp add: longest_path_iff [OF t])
qed

lemma LongestPrefixMatch_Some:
  assumes t: "wf_trie ops w t" and found: "LongestPrefixMatch ops t k = Some (k', v)"
  shows "\<exists>p. (p, k', v) \<in> set (trie_entry_list t) \<and> agree ops p k' k \<and>
    (\<forall>q k2 v2. (q, k2, v2) \<in> set (trie_entry_list t) \<and> agree ops q k2 k \<longrightarrow> q \<le> p)"
proof -
  let ?P = "path ops (trie_maxPrefix t) k (trie_root t)"
  have ne: "?P \<noteq> []" and last: "snd (last ?P) = (k', v)"
    using found by (simp_all add: LongestPrefixMatch_path [OF t] split: if_splits)
  obtain p where p: "last ?P = (p, k', v)" using last by (cases "last ?P") simp
  have split: "?P = butlast ?P @ [(p, k', v)]" using append_butlast_last_id [OF ne] p by simp
  have "sorted_wrt (<) (map fst ?P)"
    by (rule path_sorted) (use wf_trie_root [OF t] in simp)
  then have "sorted_wrt (<) (map fst (butlast ?P @ [(p, k', v)]))" by (subst (asm) split)
  then have less: "\<forall>x \<in> set (butlast ?P). fst x < p" by (simp add: sorted_wrt_append)
  have max: "q \<le> p" if "(q, k2, v2) \<in> set ?P" for q k2 v2
  proof -
    have "(q, k2, v2) \<in> set (butlast ?P) \<or> (q, k2, v2) = (p, k', v)"
      using that by (subst (asm) split) auto
    then show ?thesis using less by fastforce
  qed
  have "(p, k', v) \<in> set ?P" using last_in_set [OF ne] p by simp
  then show ?thesis using max unfolding longest_path_iff [OF t] by blast
qed

end

end
