(* ===== verification/BitlpmKeys.thy ===== *)
theory BitlpmKeys
  imports BitlpmTrie
begin

text \<open>
  The trie over unsigned integers (\<^verbatim>\<open>pkg/container/bitlpm/unsigned.go\<close>).  Go picks the
  method body by a type switch on the exact types \<^verbatim>\<open>uint8\<close> to \<^verbatim>\<open>uint64\<close>; a type that is
  only defined over one of them (the constraint \<^verbatim>\<open>~uint8\<close> admits it) matches no case and gets
  the result after the switch.  The flag \<^verbatim>\<open>named\<close> of the model says that the key type is such
  a defined type.  The shift \<^verbatim>\<open>1<<(7-i)\<close> wraps its count for \<^verbatim>\<open>i\<close> beyond the width
  and gives 0.
\<close>

definition unsignedKey_CommonPrefix :: "bool \<Rightarrow> 'a::len word \<Rightarrow> 'a word \<Rightarrow> nat" where
  "unsignedKey_CommonPrefix named u v = (if named then 0 else LeadingZeros (u XOR v))"

definition unsignedKey_BitValueAt :: "bool \<Rightarrow> 'a::len word \<Rightarrow> nat \<Rightarrow> u8" where
  "unsignedKey_BitValueAt named u i =
     (if named then 1
      else if u AND (if i < LENGTH('a) then push_bit (LENGTH('a) - 1 - i) 1 else 0) = 0 then 0 else 1)"

definition unsigned_ops :: "bool \<Rightarrow> 'a::len word KeyOps" where
  "unsigned_ops named =
     \<lparr>CommonPrefix = unsignedKey_CommonPrefix named, BitValueAt = unsignedKey_BitValueAt named\<rparr>"

record ('k, 'v) UintTrie =
  ut_trie :: "('k, 'v) trie"
  ut_keySize :: nat
  ut_named :: bool

definition NewUintTrie :: "bool \<Rightarrow> ('a::len word, 'v) UintTrie" where
  "NewUintTrie named =
     \<lparr>ut_trie = NewTrie ((LENGTH('a) div 8) * 8), ut_keySize = LENGTH('a) div 8, ut_named = named\<rparr>"

definition UintTrie_Upsert :: "('a::len word, 'v) UintTrie \<Rightarrow> nat \<Rightarrow> 'a word \<Rightarrow> 'v \<Rightarrow> ('a word, 'v) UintTrie \<times> bool" where
  "UintTrie_Upsert ut prefix k v =
     (case Upsert (unsigned_ops (ut_named ut)) (ut_trie ut) prefix k v of
        (t, isNew) \<Rightarrow> (ut\<lparr>ut_trie := t\<rparr>, isNew))"

definition UintTrie_Delete :: "('a::len word, 'v) UintTrie \<Rightarrow> nat \<Rightarrow> 'a word \<Rightarrow> ('a word, 'v) UintTrie \<times> bool" where
  "UintTrie_Delete ut prefix k =
     (case Delete (unsigned_ops (ut_named ut)) (ut_trie ut) prefix k of
        (t, found) \<Rightarrow> (ut\<lparr>ut_trie := t\<rparr>, found))"

definition UintTrie_ExactLookup :: "('a::len word, 'v) UintTrie \<Rightarrow> nat \<Rightarrow> 'a word \<Rightarrow> 'v option" where
  "UintTrie_ExactLookup ut prefix k = ExactLookup (unsigned_ops (ut_named ut)) (ut_trie ut) prefix k"

definition UintTrie_LongestPrefixMatch :: "('a::len word, 'v) UintTrie \<Rightarrow> 'a word \<Rightarrow> ('a word \<times> 'v) option" where
  "UintTrie_LongestPrefixMatch ut k = LongestPrefixMatch (unsigned_ops (ut_named ut)) (ut_trie ut) k"

definition UintTrie_Ancestors ::
  "('a::len word, 'v) UintTrie \<Rightarrow> nat \<Rightarrow> 'a word \<Rightarrow> (nat \<times> 'a word \<times> 'v \<Rightarrow> 's \<Rightarrow> bool \<times> 's) \<Rightarrow> 's \<Rightarrow> 's"
where
  "UintTrie_Ancestors ut prefix k fn s = Ancestors (unsigned_ops (ut_named ut)) (ut_trie ut) prefix k fn s"

definition UintTrie_Descendants ::
  "('a::len word, 'v) UintTrie \<Rightarrow> nat \<Rightarrow> 'a word \<Rightarrow> (nat \<times> 'a word \<times> 'v \<Rightarrow> 's \<Rightarrow> bool \<times> 's) \<Rightarrow> 's \<Rightarrow> 's"
where
  "UintTrie_Descendants ut prefix k fn s = Descendants (unsigned_ops (ut_named ut)) (ut_trie ut) prefix k fn s"

definition UintTrie_Len :: "('a::len word, 'v) UintTrie \<Rightarrow> nat" where
  "UintTrie_Len ut = trie_Len (ut_trie ut)"

definition UintTrie_ForEach ::
  "('a::len word, 'v) UintTrie \<Rightarrow> (nat \<times> 'a word \<times> 'v \<Rightarrow> 's \<Rightarrow> bool \<times> 's) \<Rightarrow> 's \<Rightarrow> 's"
where
  "UintTrie_ForEach ut fn s = ForEach (ut_trie ut) fn s"

section \<open>The key laws\<close>

lemma unsigned_bit:
  fixes u :: "'a::len word"
  shows "i < LENGTH('a) \<Longrightarrow>
    BitValueAt (unsigned_ops False) u i = (if bit u (LENGTH('a) - 1 - i) then 1 else 0)"
  by (simp add: unsigned_ops_def unsignedKey_BitValueAt_def push_bit_eq_mult and_exp_eq_0_iff_not_bit)

lemma LeadingZeros_xor_agree:
  fixes u v :: "'a::len word"
  shows "i < LeadingZeros (u XOR v) \<Longrightarrow> bit u (LENGTH('a) - 1 - i) = bit v (LENGTH('a) - 1 - i)"
  using LeadingZeros_not_bit [of i "u XOR v"] by (simp add: bit_xor_iff)

lemma LeadingZeros_xor_differ:
  fixes u v :: "'a::len word"
  shows "LeadingZeros (u XOR v) < LENGTH('a) \<Longrightarrow>
    bit u (LENGTH('a) - 1 - LeadingZeros (u XOR v)) \<noteq> bit v (LENGTH('a) - 1 - LeadingZeros (u XOR v))"
  using LeadingZeros_bit [of "u XOR v"] by (simp add: bit_xor_iff)

interpretation uint: bitlpm_key "unsigned_ops False :: 'a::len word KeyOps" "LENGTH('a)"
proof unfold_locales
  fix a b :: "'a word" and i
  let ?cp = "CommonPrefix (unsigned_ops False) a b"
  have cp: "?cp = LeadingZeros (a XOR b)"
    by (simp add: unsigned_ops_def unsignedKey_CommonPrefix_def)
  show le: "?cp \<le> LENGTH('a)"
    unfolding cp by (rule LeadingZeros_le)
  show "agree (unsigned_ops False) ?cp a b"
    using le LeadingZeros_xor_agree [of _ a b] by (simp add: agree_def cp unsigned_bit)
  show "?cp < LENGTH('a) \<Longrightarrow> BitValueAt (unsigned_ops False) a ?cp \<noteq> BitValueAt (unsigned_ops False) b ?cp"
    using LeadingZeros_xor_differ [of a b] by (auto simp: cp unsigned_bit)
  show "i < LENGTH('a) \<Longrightarrow> BitValueAt (unsigned_ops False) a i = 0 \<or> BitValueAt (unsigned_ops False) a i = 1"
    by (simp add: unsigned_bit)
qed

section \<open>Properties\<close>

definition wf_uint :: "('a::len word, 'v) UintTrie \<Rightarrow> bool" where
  "wf_uint ut \<longleftrightarrow> \<not> ut_named ut \<and> wf_trie (unsigned_ops False) LENGTH('a) (ut_trie ut)"

lemma NewUintTrie_wf: "8 dvd LENGTH('a) \<Longrightarrow> wf_uint (NewUintTrie False :: ('a::len word, 'v) UintTrie)"
  by (simp add: wf_uint_def NewUintTrie_def uint.wf_NewTrie)

lemma UintTrie_Upsert_wf:
  fixes ut :: "('a::len word, 'v) UintTrie"
  shows "wf_uint ut \<Longrightarrow> p \<le> LENGTH('a) \<Longrightarrow> wf_uint (fst (UintTrie_Upsert ut p k v))"
  using uint.Upsert_wf [of "ut_trie ut" p k v] by (simp add: wf_uint_def UintTrie_Upsert_def split_beta)

text \<open>Two nested prefixes.\<close>

definition example_trie :: "(u8, nat) UintTrie" where
  "example_trie = fst (UintTrie_Upsert (fst (UintTrie_Upsert (NewUintTrie False) 4 0x20 7)) 8 0x2f 9)"

lemma example_trie_nodes:
  "example_trie =
     \<lparr>ut_trie = \<lparr>trie_root = Node NilNode (Node NilNode NilNode 8 0x2f (Some 9)) 4 0x20 (Some 7),
        trie_maxPrefix = 8, trie_entries = 2\<rparr>, ut_keySize = 1, ut_named = False\<rparr>"
  by code_simp

lemma example_trie_wf: "wf_uint example_trie"
  unfolding example_trie_def by (intro UintTrie_Upsert_wf NewUintTrie_wf) simp_all

text \<open>
  C11.  The unsigned integer trie is a map from prefixes to values: an upsert keeps the trie well
  formed, an exact lookup afterwards returns the new value for every key with the same prefix, and
  every other prefix keeps its value.
\<close>

theorem UintTrie_Upsert_refines:
  fixes ut :: "('a::len word, 'v) UintTrie"
  assumes "wf_uint ut" "p \<le> LENGTH('a)" "p' \<le> LENGTH('a)"
  shows "wf_uint (fst (UintTrie_Upsert ut p k v)) \<and>
    UintTrie_ExactLookup (fst (UintTrie_Upsert ut p k v)) p' k' =
      (if p' = p \<and> agree (unsigned_ops False) p k k' then Some v else UintTrie_ExactLookup ut p' k')"
  using assms UintTrie_Upsert_wf [OF assms(1,2), of k v] uint.ExactLookup_Upsert [of "ut_trie ut" p p' k v k']
  by (simp add: wf_uint_def UintTrie_Upsert_def UintTrie_ExactLookup_def split_beta)

theorem UintTrie_Upsert_refines_witness:
  "UintTrie_ExactLookup (fst (UintTrie_Upsert (NewUintTrie False :: (u8, nat) UintTrie) 4 0x20 (7::nat))) 4 0x2f = Some 7"
proof -
  have "agree (unsigned_ops False) 4 (0x20 :: u8) 0x2f" by code_simp
  then show ?thesis
    using UintTrie_Upsert_refines [of "NewUintTrie False :: (u8, nat) UintTrie" 4 4 "0x20" 7 "0x2f"]
      NewUintTrie_wf [where 'a = 8 and 'v = nat]
    by simp
qed

text \<open>
  C24.  A delete keeps the trie well formed, tells whether the prefix had a value, makes the lookup of
  that prefix fail and leaves every other prefix alone.
\<close>

theorem UintTrie_Delete_refines:
  fixes ut :: "('a::len word, 'v) UintTrie"
  assumes "wf_uint ut" "p \<le> LENGTH('a)" "p' \<le> LENGTH('a)"
  shows "wf_uint (fst (UintTrie_Delete ut p k)) \<and>
    (snd (UintTrie_Delete ut p k) \<longleftrightarrow> UintTrie_ExactLookup ut p k \<noteq> None) \<and>
    UintTrie_ExactLookup (fst (UintTrie_Delete ut p k)) p' k' =
      (if p' = p \<and> agree (unsigned_ops False) p k k' then None else UintTrie_ExactLookup ut p' k')"
  using assms uint.Delete_spec [of "ut_trie ut" p k] uint.ExactLookup_Delete [of "ut_trie ut" p p' k k']
    uint.Delete_found [of "ut_trie ut" p k]
  by (simp add: wf_uint_def UintTrie_Delete_def UintTrie_ExactLookup_def split_beta)

theorem UintTrie_Delete_refines_witness:
  "snd (UintTrie_Delete example_trie 8 0x2f) \<and>
   UintTrie_ExactLookup (fst (UintTrie_Delete example_trie 8 0x2f)) 8 0x2f = None \<and>
   UintTrie_ExactLookup (fst (UintTrie_Delete example_trie 8 0x2f)) 4 0x2f = Some 7"
proof -
  have "UintTrie_ExactLookup example_trie 8 0x2f = Some 9" "UintTrie_ExactLookup example_trie 4 0x2f = Some 7"
    unfolding example_trie_nodes by code_simp+
  moreover have "agree (unsigned_ops False) 8 (0x2f :: u8) 0x2f" by (simp add: agree_def)
  ultimately show ?thesis
    using UintTrie_Delete_refines [OF example_trie_wf, of 8 8 "0x2f" "0x2f"]
      UintTrie_Delete_refines [OF example_trie_wf, of 8 4 "0x2f" "0x2f"] by simp
qed

text \<open>
  C25.  The longest prefix match returns an entry whose prefix the key has, and no entry with a longer
  prefix of the key exists; it fails only if the key has the prefix of no entry.
\<close>

theorem UintTrie_LongestPrefixMatch_best:
  fixes ut :: "('a::len word, 'v) UintTrie"
  assumes "wf_uint ut"
  shows "case UintTrie_LongestPrefixMatch ut k of
      None \<Rightarrow> \<forall>p k' v. (p, k', v) \<in> set (trie_entry_list (ut_trie ut)) \<longrightarrow> \<not> agree (unsigned_ops False) p k' k
    | Some (k', v) \<Rightarrow>
        \<exists>p. (p, k', v) \<in> set (trie_entry_list (ut_trie ut)) \<and> agree (unsigned_ops False) p k' k \<and>
          (\<forall>q k2 v2. (q, k2, v2) \<in> set (trie_entry_list (ut_trie ut)) \<and> agree (unsigned_ops False) q k2 k \<longrightarrow> q \<le> p)"
proof -
  have wf: "\<not> ut_named ut" "wf_trie (unsigned_ops False) LENGTH('a) (ut_trie ut)"
    using assms by (simp_all add: wf_uint_def)
  show ?thesis
    using uint.LongestPrefixMatch_None [OF wf(2), of k] uint.LongestPrefixMatch_Some [OF wf(2), of k]
    by (simp add: UintTrie_LongestPrefixMatch_def wf(1) split: option.split)
qed

theorem UintTrie_LongestPrefixMatch_best_witness:
  "UintTrie_LongestPrefixMatch example_trie 0x2f = Some (0x2f, 9) \<and>
   (4, 0x20, 7) \<in> set (trie_entry_list (ut_trie example_trie)) \<and> agree (unsigned_ops False) 4 0x20 (0x2f :: u8) \<and>
   \<not> (\<exists>q k v. (q, k, v) \<in> set (trie_entry_list (ut_trie example_trie)) \<and> agree (unsigned_ops False) q k 0x2f \<and> q > 8) \<and>
   UintTrie_LongestPrefixMatch example_trie 0x80 = None"
proof -
  have m: "UintTrie_LongestPrefixMatch example_trie 0x2f = Some (0x2f, 9)" "UintTrie_LongestPrefixMatch example_trie 0x80 = None"
    unfolding example_trie_nodes by code_simp+
  have e: "trie_entry_list (ut_trie example_trie) = [(4, 0x20, 7), (8, 0x2f, 9)]"
    unfolding example_trie_nodes by code_simp
  have "agree (unsigned_ops False) 4 0x20 (0x2f :: u8)" by code_simp
  moreover obtain p where "(p, 0x2f, 9) \<in> set (trie_entry_list (ut_trie example_trie))"
    "\<forall>q k v. (q, k, v) \<in> set (trie_entry_list (ut_trie example_trie)) \<and> agree (unsigned_ops False) q k 0x2f \<longrightarrow> q \<le> p"
    using UintTrie_LongestPrefixMatch_best [OF example_trie_wf, of "0x2f"] m(1) by auto
  ultimately show ?thesis using m e by auto
qed

text \<open>
  C34.  A key type that is only defined over an unsigned type is accepted by the constraint and breaks
  the trie: a value inserted under a full-length prefix of the empty trie is not found again.
\<close>

theorem UintTrie_named_lookup_fails:
  "UintTrie_ExactLookup (fst (UintTrie_Upsert (NewUintTrie True :: (u8, nat) UintTrie) 8 k v)) 8 k = None"
  by (simp add: UintTrie_ExactLookup_def UintTrie_Upsert_def NewUintTrie_def NewTrie_def Upsert_def Let_def
      node_Upsert.simps ExactLookup_def traverse_def prefixMatch_def unsigned_ops_def unsignedKey_CommonPrefix_def)

end
