(* ===== verification/PolicyKey.thy ===== *)
theory PolicyKey
  imports BitlpmKeys
begin

text \<open>
  The policy map key (\<^verbatim>\<open>pkg/policy/types/types.go\<close>).  \<^verbatim>\<open>LPMKey\<close> is indexed in the
  trie: the direction bit, the 8 bits of the protocol and the 16 bits of the port, 25 bits in all.
  \<^verbatim>\<open>Key\<close> embeds it and adds the identity.  Methods carry the name of their receiver type.
\<close>

type_synonym NumericIdentity = u32

record LPMKey =
  lpm_bits :: u8
  Nexthdr :: u8
  DestPort :: u16

record Key =
  key_LPMKey :: LPMKey
  Identity :: NumericIdentity

definition MapStatePrefixLen :: nat where
  "MapStatePrefixLen = 32"

definition Ingress :: u8 where "Ingress = 0"

definition Egress :: u8 where "Egress = 1"

definition u8proto_ANY :: u8 where "u8proto_ANY = 0"

definition u8proto_TCP :: u8 where "u8proto_TCP = 6"

definition u8proto_UDP :: u8 where "u8proto_UDP = 17"

definition u8proto_SCTP :: u8 where "u8proto_SCTP = 132"

definition directionBitShift :: nat where "directionBitShift = 7"

definition directionBitMask :: u8 where "directionBitMask = push_bit directionBitShift 1"

lemmas key_consts = Ingress_def Egress_def directionBitShift_def directionBitMask_def

section \<open>Construction\<close>

definition EgressKey :: Key where
  "EgressKey =
     \<lparr>key_LPMKey = \<lparr>lpm_bits = push_bit directionBitShift 1, Nexthdr = 0, DestPort = 0\<rparr>, Identity = 0\<rparr>"

definition IngressKey :: Key where
  "IngressKey =
     \<lparr>key_LPMKey = \<lparr>lpm_bits = push_bit directionBitShift 0, Nexthdr = 0, DestPort = 0\<rparr>, Identity = 0\<rparr>"

definition KeyForDirection :: "u8 \<Rightarrow> Key" where
  "KeyForDirection direction =
     \<lparr>key_LPMKey = \<lparr>lpm_bits = push_bit directionBitShift direction, Nexthdr = 0, DestPort = 0\<rparr>,
      Identity = 0\<rparr>"

definition Key_WithProto :: "Key \<Rightarrow> u8 \<Rightarrow> Key" where
  "Key_WithProto k proto = k\<lparr>key_LPMKey := (key_LPMKey k)\<lparr>Nexthdr := proto\<rparr>\<rparr>"

definition Key_WithPort :: "Key \<Rightarrow> u16 \<Rightarrow> Key" where
  "Key_WithPort k port =
     (let l = (key_LPMKey k)\<lparr>DestPort := port, lpm_bits := lpm_bits (key_LPMKey k) AND directionBitMask\<rparr>
      in k\<lparr>key_LPMKey := (if port \<noteq> 0 then l\<lparr>lpm_bits := lpm_bits l OR 16\<rparr> else l)\<rparr>)"

definition Key_WithPortPrefix :: "Key \<Rightarrow> u16 \<Rightarrow> u8 \<Rightarrow> Key" where
  "Key_WithPortPrefix k port prefixLen =
     (let prefixLen = (if prefixLen > 16 \<or> port \<noteq> 0 \<and> prefixLen = 0 then 16 else prefixLen);
          l = key_LPMKey k
      in k\<lparr>key_LPMKey := l\<lparr>DestPort := port AND push_bit (unat (16 - prefixLen)) 0xffff,
                          lpm_bits := lpm_bits l AND directionBitMask OR prefixLen\<rparr>\<rparr>)"

definition Key_WithPortProto :: "Key \<Rightarrow> u8 \<Rightarrow> u16 \<Rightarrow> Key" where
  "Key_WithPortProto k proto port = Key_WithPort (Key_WithProto k proto) port"

definition Key_WithPortProtoPrefix :: "Key \<Rightarrow> u8 \<Rightarrow> u16 \<Rightarrow> u8 \<Rightarrow> Key" where
  "Key_WithPortProtoPrefix k proto port prefixLen = Key_WithPortPrefix (Key_WithProto k proto) port prefixLen"

definition Key_WithTCPPort :: "Key \<Rightarrow> u16 \<Rightarrow> Key" where
  "Key_WithTCPPort k port = Key_WithPortProto k u8proto_TCP port"

definition Key_WithTCPPortPrefix :: "Key \<Rightarrow> u16 \<Rightarrow> u8 \<Rightarrow> Key" where
  "Key_WithTCPPortPrefix k port prefixLen = Key_WithPortProtoPrefix k u8proto_TCP port prefixLen"

definition Key_WithUDPPort :: "Key \<Rightarrow> u16 \<Rightarrow> Key" where
  "Key_WithUDPPort k port = Key_WithPortProto k u8proto_UDP port"

definition Key_WithUDPPortPrefix :: "Key \<Rightarrow> u16 \<Rightarrow> u8 \<Rightarrow> Key" where
  "Key_WithUDPPortPrefix k port prefixLen = Key_WithPortProtoPrefix k u8proto_UDP port prefixLen"

definition Key_WithSCTPPort :: "Key \<Rightarrow> u16 \<Rightarrow> Key" where
  "Key_WithSCTPPort k port = Key_WithPortProto k u8proto_SCTP port"

definition Key_WithSCTPPortPrefix :: "Key \<Rightarrow> u16 \<Rightarrow> u8 \<Rightarrow> Key" where
  "Key_WithSCTPPortPrefix k port prefixLen = Key_WithPortProtoPrefix k u8proto_SCTP port prefixLen"

definition Key_WithIdentity :: "Key \<Rightarrow> NumericIdentity \<Rightarrow> Key" where
  "Key_WithIdentity k nid = k\<lparr>Identity := nid\<rparr>"

section \<open>Observation\<close>

definition LPMKey_TrafficDirection :: "LPMKey \<Rightarrow> u8" where
  "LPMKey_TrafficDirection k = drop_bit directionBitShift (lpm_bits k)"

definition PortPrefixLen :: "LPMKey \<Rightarrow> u8" where
  "PortPrefixLen k = lpm_bits k AND NOT directionBitMask"

definition HasPortWildcard :: "LPMKey \<Rightarrow> bool" where
  "HasPortWildcard k \<longleftrightarrow> lpm_bits k AND NOT directionBitMask < 16"

definition IsIngress :: "LPMKey \<Rightarrow> bool" where
  "IsIngress k \<longleftrightarrow> LPMKey_TrafficDirection k = Ingress"

definition IsEgress :: "LPMKey \<Rightarrow> bool" where
  "IsEgress k \<longleftrightarrow> LPMKey_TrafficDirection k = Egress"

definition EndPort :: "LPMKey \<Rightarrow> u16" where
  "EndPort k = DestPort k + drop_bit (unat (PortPrefixLen k)) 0xffff"

definition PortIsEqual :: "LPMKey \<Rightarrow> LPMKey \<Rightarrow> bool" where
  "PortIsEqual k c \<longleftrightarrow> DestPort k = DestPort c \<and> push_bit 1 (lpm_bits k) = push_bit 1 (lpm_bits c)"

text \<open>The shift count \<^verbatim>\<open>16-kPrefixLen\<close> is a \<^verbatim>\<open>uint8\<close> and wraps for a prefix length above 16.\<close>

definition PortIsBroader :: "LPMKey \<Rightarrow> LPMKey \<Rightarrow> bool" where
  "PortIsBroader k c \<longleftrightarrow>
     (let kPrefixLen = PortPrefixLen k; cPrefixLen = PortPrefixLen c
      in kPrefixLen < cPrefixLen \<and>
         DestPort k XOR (DestPort c AND push_bit (unat (16 - kPrefixLen)) 0xffff) = 0)"

definition Key_Covers :: "Key \<Rightarrow> Key \<Rightarrow> bool" where
  "Key_Covers k c \<longleftrightarrow>
     (Identity k = 0 \<or> Identity k = Identity c) \<and>
     (Nexthdr (key_LPMKey k) = 0 \<or> Nexthdr (key_LPMKey k) = Nexthdr (key_LPMKey c)) \<and>
     (PortIsEqual (key_LPMKey k) (key_LPMKey c) \<or> PortIsBroader (key_LPMKey k) (key_LPMKey c))"

definition PortProtoIsBroader :: "LPMKey \<Rightarrow> LPMKey \<Rightarrow> bool" where
  "PortProtoIsBroader k c \<longleftrightarrow>
     Nexthdr k = 0 \<and> Nexthdr c \<noteq> 0 \<or> Nexthdr k = Nexthdr c \<and> PortIsBroader k c"

definition PortProtoIsEqual :: "LPMKey \<Rightarrow> LPMKey \<Rightarrow> bool" where
  "PortProtoIsEqual k c \<longleftrightarrow> Nexthdr k = Nexthdr c \<and> PortIsEqual k c"

definition PrefixLength :: "LPMKey \<Rightarrow> nat" where
  "PrefixLength k = (if Nexthdr k = 0 then 1 else 9 + unat (PortPrefixLen k))"

definition LPMKey_CommonPrefix :: "LPMKey \<Rightarrow> LPMKey \<Rightarrow> nat" where
  "LPMKey_CommonPrefix k b =
     (if drop_bit directionBitShift (lpm_bits k XOR lpm_bits b) \<noteq> 0 then 0
      else let v = 1 + LeadingZeros (Nexthdr k XOR Nexthdr b)
           in if v < 9 then v else v + LeadingZeros (DestPort k XOR DestPort b))"

text \<open>The shift count \<^verbatim>\<open>24-i\<close> wraps for \<^verbatim>\<open>i\<close> above 24, and the shifted port is then 0.\<close>

definition LPMKey_BitValueAt :: "LPMKey \<Rightarrow> nat \<Rightarrow> u8" where
  "LPMKey_BitValueAt k i =
     (if i = 0 then drop_bit directionBitShift (lpm_bits k)
      else if i < 9 then drop_bit (8 - i) (Nexthdr k) AND 1
      else ucast (if i \<le> 24 then drop_bit (24 - i) (DestPort k) else 0) AND 1)"

definition LPMKey_ops :: "LPMKey KeyOps" where
  "LPMKey_ops = \<lparr>CommonPrefix = LPMKey_CommonPrefix, BitValueAt = LPMKey_BitValueAt\<rparr>"

text \<open>A set of keys; a nil map is \<^verbatim>\<open>None\<close>.\<close>

type_synonym Keys = "Key list option"

definition Keys_Has :: "Keys \<Rightarrow> Key \<Rightarrow> bool" where
  "Keys_Has keys key = (case keys of None \<Rightarrow> False | Some ks \<Rightarrow> key \<in> set ks)"

definition Keys_Insert :: "Keys \<Rightarrow> Key \<Rightarrow> Keys" where
  "Keys_Insert keys key = (case keys of None \<Rightarrow> Some [key] | Some ks \<Rightarrow> Some (List.insert key ks))"

section \<open>The laws of the trie key\<close>

text \<open>The 25 indexed bits of a key.\<close>

definition lpm_bit :: "LPMKey \<Rightarrow> nat \<Rightarrow> bool" where
  "lpm_bit k i =
     (if i = 0 then bit (lpm_bits k) 7
      else if i < 9 then bit (Nexthdr k) (8 - i)
      else bit (DestPort k) (24 - i))"

lemma drop_bit_7: "drop_bit 7 (x :: u8) = of_bool (bit x 7)"
proof (rule bit_word_eqI)
  fix n assume "n < LENGTH(8)"
  then have "bit x (7 + n) \<Longrightarrow> n = 0"
    using bit_imp_le_length [of x "7 + n"] by simp
  then show "bit (drop_bit 7 x) n = bit (of_bool (bit x 7) :: u8) n"
    by (cases "n = 0") (auto simp: bit_drop_bit_eq bit_simps)
qed

lemma drop_bit_and_1: "drop_bit n (x :: 'a::len word) AND 1 = of_bool (bit x n)"
  by (simp add: and_one_eq mod_2_eq_odd flip: bit_iff_odd_drop_bit)

lemma ucast_and_1: "(ucast (x :: u16) :: u8) AND 1 = of_bool (bit x 0)"
  by (rule bit_word_eqI) (auto simp: bit_simps)

lemma LPMKey_BitValueAt_bit: "i < 25 \<Longrightarrow> BitValueAt LPMKey_ops k i = of_bool (lpm_bit k i)"
  by (auto simp: LPMKey_ops_def LPMKey_BitValueAt_def lpm_bit_def key_consts drop_bit_7 drop_bit_and_1
      ucast_and_1 bit_drop_bit_eq)

lemma LPMKey_agree: "m \<le> 25 \<Longrightarrow> agree LPMKey_ops m a b \<longleftrightarrow> (\<forall>i<m. lpm_bit a i = lpm_bit b i)"
  by (auto simp: agree_def LPMKey_BitValueAt_bit)

lemma direction_differs: "drop_bit 7 (x XOR y :: u8) \<noteq> 0 \<longleftrightarrow> bit x 7 \<noteq> bit y 7"
  by (simp add: drop_bit_7 bit_xor_iff)

lemma LPMKey_cp_spec:
  assumes "LPMKey_CommonPrefix a b = cp"
  shows "cp \<le> 25" "\<forall>i<cp. lpm_bit a i = lpm_bit b i" "cp < 25 \<Longrightarrow> lpm_bit a cp \<noteq> lpm_bit b cp"
proof -
  let ?p = "LeadingZeros (Nexthdr a XOR Nexthdr b)" and ?q = "LeadingZeros (DestPort a XOR DestPort b)"
  have p: "?p \<le> 8" and q: "?q \<le> 16"
    using LeadingZeros_le [of "Nexthdr a XOR Nexthdr b"] LeadingZeros_le [of "DestPort a XOR DestPort b"] by simp_all
  have pa: "bit (Nexthdr a) (8 - i) = bit (Nexthdr b) (8 - i)" if "0 < i" "i < Suc ?p" for i
    using LeadingZeros_xor_agree [of "i - 1" "Nexthdr a" "Nexthdr b"] that by simp
  have qa: "bit (DestPort a) (24 - i) = bit (DestPort b) (24 - i)" if "9 \<le> i" "i < 9 + ?q" for i
    using LeadingZeros_xor_agree [of "i - 9" "DestPort a" "DestPort b"] that by simp
  have cp: "cp = (if bit (lpm_bits a) 7 \<noteq> bit (lpm_bits b) 7 then 0 else if ?p < 8 then Suc ?p else 9 + ?q)"
    using assms p unfolding LPMKey_CommonPrefix_def directionBitShift_def direction_differs Let_def by auto
  consider (dir) "bit (lpm_bits a) 7 \<noteq> bit (lpm_bits b) 7" "cp = 0"
    | (proto) "bit (lpm_bits a) 7 = bit (lpm_bits b) 7" "?p < 8" "cp = Suc ?p"
    | (port) "bit (lpm_bits a) 7 = bit (lpm_bits b) 7" "?p = 8" "cp = 9 + ?q"
    using cp p by (metis linorder_neqE_nat not_le)
  then have "cp \<le> 25 \<and> (\<forall>i<cp. lpm_bit a i = lpm_bit b i) \<and> (cp < 25 \<longrightarrow> lpm_bit a cp \<noteq> lpm_bit b cp)"
  proof cases
    case dir
    then show ?thesis by (simp add: lpm_bit_def)
  next
    case proto
    then show ?thesis
      using pa LeadingZeros_xor_differ [of "Nexthdr a" "Nexthdr b"] by (auto simp: lpm_bit_def)
  next
    case port
    then show ?thesis
      using q pa qa LeadingZeros_xor_differ [of "DestPort a" "DestPort b"] by (auto simp: lpm_bit_def)
  qed
  then show "cp \<le> 25" "\<forall>i<cp. lpm_bit a i = lpm_bit b i" "cp < 25 \<Longrightarrow> lpm_bit a cp \<noteq> lpm_bit b cp"
    by auto
qed

interpretation lpm: bitlpm_key LPMKey_ops 25
proof unfold_locales
  fix a b :: LPMKey and i
  let ?cp = "CommonPrefix LPMKey_ops a b"
  have "LPMKey_CommonPrefix a b = ?cp" by (simp add: LPMKey_ops_def)
  note spec = LPMKey_cp_spec [OF this]
  show "?cp \<le> 25" by (rule spec)
  show "agree LPMKey_ops ?cp a b" using spec(1,2) by (simp add: LPMKey_agree)
  show "?cp < 25 \<Longrightarrow> BitValueAt LPMKey_ops a ?cp \<noteq> BitValueAt LPMKey_ops b ?cp"
    using spec(3) by (auto simp: LPMKey_BitValueAt_bit)
  show "i < 25 \<Longrightarrow> BitValueAt LPMKey_ops a i = 0 \<or> BitValueAt LPMKey_ops a i = 1"
    by (simp add: LPMKey_BitValueAt_bit)
qed

end
