(* ===== verification/Words.thy ===== *)
theory Words
  imports Prelude
begin

text \<open>
  Masks and prefixes of 16-bit port numbers: the wildcarded low bits of a port, and the interval of
  ports that share a prefix.
\<close>

lemma xor_eq_0: "(a :: 'a::len word) XOR b = 0 \<longleftrightarrow> a = b"
  by (auto simp: bit_eq_iff [of "a XOR b"] bit_eq_iff [of a] bit_xor_iff)

lemma bit_ffff: "bit (0xffff :: u16) j \<longleftrightarrow> j < 16"
proof -
  have "(0xffff :: u16) = mask 16" by (simp add: mask_eq_exp_minus_1)
  then show ?thesis by (simp only: bit_mask_iff) simp
qed

lemma bit_push_ffff: "bit (push_bit m 0xffff :: u16) n \<longleftrightarrow> m \<le> n \<and> n < 16"
  using bit_ffff [of "n - m"] by (auto simp only: bit_push_bit_iff possible_bit_word len_of_numeral_defs)

lemma div_eq_interval: "0 < (b::nat) \<Longrightarrow> x div b = q \<longleftrightarrow> q * b \<le> x \<and> x < Suc q * b"
  by (simp only: less_eq_div_iff_mult_less_eq [symmetric] div_less_iff_less_mult [symmetric]) linarith

lemma aligned_block:
  fixes d x :: nat
  assumes "d mod 2 ^ m = 0"
  shows "d \<le> x \<and> x \<le> d + (2 ^ m - 1) \<longleftrightarrow> x div 2 ^ m = d div 2 ^ m"
proof -
  have d: "d div 2 ^ m * 2 ^ m = d" using assms by auto
  have "Suc (d div 2 ^ m) * 2 ^ m = d + 2 ^ m" using d by simp
  then have "x div 2 ^ m = d div 2 ^ m \<longleftrightarrow> d \<le> x \<and> x < d + 2 ^ m"
    using div_eq_interval [of "2 ^ m" x "d div 2 ^ m"] d by (simp only: d) simp
  moreover have "0 < (2::nat) ^ m" by simp
  ultimately show ?thesis by linarith
qed

lemma drop_ffff: "drop_bit n (0xffff :: u16) = mask (16 - n)"
  by (rule bit_word_eqI) (simp only: bit_drop_bit_eq bit_ffff bit_mask_iff comp_def, auto)

lemma aligned_iff: "(d :: u16) AND push_bit m 0xffff = d \<longleftrightarrow> take_bit m d = 0"
proof
  assume eq: "d AND push_bit m 0xffff = d"
  show "take_bit m d = 0"
  proof (rule bit_word_eqI)
    fix n
    have "bit d n = (bit d n \<and> m \<le> n \<and> n < 16)"
      using arg_cong [OF eq, of "\<lambda>x. bit x n"] by (simp only: bit_and_iff bit_push_ffff)
    then show "bit (take_bit m d) n = bit (0 :: u16) n" by (auto simp: bit_take_bit_iff)
  qed
next
  assume eq: "take_bit m d = 0"
  show "d AND push_bit m 0xffff = d"
  proof (rule bit_word_eqI)
    fix n assume n: "n < LENGTH(16)"
    have "\<not> (n < m \<and> bit d n)"
      using arg_cong [OF eq, of "\<lambda>x. bit x n"] by (simp add: bit_take_bit_iff)
    then show "bit (d AND push_bit m 0xffff) n = bit d n"
      using n by (simp only: bit_and_iff bit_push_ffff) auto
  qed
qed
lemma unat_mask16: "k \<le> 16 \<Longrightarrow> unat (mask k :: u16) = mask k"
  by (rule bit_eqI) (auto simp: bit_unsigned_iff bit_mask_iff)

lemma unat_drop: "unat (drop_bit m y) = unat (y :: u16) div 2 ^ m"
proof -
  have "unat y < 2 ^ 16" using unsigned_less [of y] by simp
  then show ?thesis
    by (simp only: unsigned_drop_bit_eq) (simp add: drop_bit_eq_div take_bit_eq_mod)
qed

lemma port_range_iff:
  fixes d x :: u16
  assumes "n \<le> 16" "take_bit (16 - n) d = 0"
  shows "d \<le> x \<and> x \<le> d + drop_bit n 0xffff \<longleftrightarrow> drop_bit (16 - n) x = drop_bit (16 - n) d"
proof -
  let ?m = "16 - n"
  have al: "unat d mod 2 ^ ?m = 0"
    using assms(2) by (metis take_bit_eq_mod unsigned_0 unsigned_take_bit_eq)
  have m: "unat (drop_bit n (0xffff :: u16)) = 2 ^ ?m - 1"
    by (simp only: drop_ffff unat_mask16 diff_le_self) (simp only: mask_eq_exp_minus_1)
  have pow: "(2::nat) ^ 16 = 2 ^ n * 2 ^ ?m" using assms(1) by (simp flip: power_add)
  moreover have d: "unat d = unat d div 2 ^ ?m * 2 ^ ?m" using al by auto
  moreover have "unat d < 2 ^ 16" using unsigned_less [of d] by simp
  ultimately have "unat d div 2 ^ ?m < 2 ^ n" by (metis mult_less_cancel2)
  then have "Suc (unat d div 2 ^ ?m) * 2 ^ ?m \<le> 2 ^ n * 2 ^ ?m" by (intro mult_le_mono1) simp
  then have "unat d + 2 ^ ?m \<le> 2 ^ 16" using d pow by simp
  moreover have "0 < (2::nat) ^ ?m" by simp
  ultimately have "unat d + (2 ^ ?m - 1) < 2 ^ 16" by linarith
  then have "unat (d + drop_bit n 0xffff) = unat d + (2 ^ ?m - 1)"
    using m by (simp add: unat_word_ariths)
  then show ?thesis
    using aligned_block [OF al, of "unat x"] by (simp add: word_le_nat_alt word_unat_eq_iff unat_drop)
qed

lemma mask_eq_iff:
  fixes a b :: u16
  shows "a AND push_bit m 0xffff = b AND push_bit m 0xffff \<longleftrightarrow> drop_bit m a = drop_bit m b"
proof
  assume eq: "a AND push_bit m 0xffff = b AND push_bit m 0xffff"
  show "drop_bit m a = drop_bit m b"
  proof (rule bit_word_eqI)
    fix n assume "n < LENGTH(16)"
    have "bit (a AND push_bit m 0xffff) (m + n) = bit (b AND push_bit m 0xffff) (m + n)"
      using eq by simp
    then show "bit (drop_bit m a) n = bit (drop_bit m b) n"
      by (auto simp: bit_and_iff bit_push_ffff bit_drop_bit_eq dest: bit_imp_le_length)
  qed
next
  assume eq: "drop_bit m a = drop_bit m b"
  show "a AND push_bit m 0xffff = b AND push_bit m 0xffff"
  proof (rule bit_word_eqI)
    fix n assume "n < LENGTH(16)"
    have "bit (drop_bit m a) (n - m) = bit (drop_bit m b) (n - m)"
      using eq by simp
    then show "bit (a AND push_bit m 0xffff) n = bit (b AND push_bit m 0xffff) n"
      by (cases "m \<le> n") (simp_all add: bit_and_iff bit_push_ffff bit_drop_bit_eq)
  qed
qed

lemma port_bits_iff:
  fixes a b :: u16
  assumes "n \<le> 16"
  shows "(\<forall>i<n. bit a (15 - i) = bit b (15 - i)) \<longleftrightarrow> drop_bit (16 - n) a = drop_bit (16 - n) b"
proof
  assume *: "\<forall>i<n. bit a (15 - i) = bit b (15 - i)"
  show "drop_bit (16 - n) a = drop_bit (16 - n) b"
  proof (rule bit_word_eqI)
    fix j assume "j < LENGTH(16)"
    show "bit (drop_bit (16 - n) a) j = bit (drop_bit (16 - n) b) j"
    proof (cases "16 - n + j < 16")
      case True
      then show ?thesis
        using * [rule_format, of "15 - (16 - n + j)"] assms by (simp add: bit_drop_bit_eq)
    next
      case False
      then show ?thesis
        using bit_imp_le_length [of a "16 - n + j"] bit_imp_le_length [of b "16 - n + j"]
        by (auto simp: bit_drop_bit_eq)
    qed
  qed
next
  assume eq: "drop_bit (16 - n) a = drop_bit (16 - n) b"
  show "\<forall>i<n. bit a (15 - i) = bit b (15 - i)"
  proof (intro allI impI)
    fix i assume i: "i < n"
    have "bit (drop_bit (16 - n) a) (n - 1 - i) = bit (drop_bit (16 - n) b) (n - 1 - i)"
      using eq by simp
    moreover have "16 - n + (n - 1 - i) = 15 - i" using i assms by simp
    ultimately show "bit a (15 - i) = bit b (15 - i)" by (simp add: bit_drop_bit_eq)
  qed
qed

lemma drop_bit_coarser: "m \<le> n \<Longrightarrow> drop_bit m (a :: u16) = drop_bit m b \<Longrightarrow> drop_bit n a = drop_bit n b"
  by (metis drop_bit_drop_bit le_add_diff_inverse2)

lemma drop_bit_bit: "drop_bit m (a :: u16) = drop_bit m b \<Longrightarrow> m \<le> n \<Longrightarrow> bit a n = bit b n"
  using drop_bit_coarser [of m n a b] by (metis bit_iff_odd_drop_bit)

section \<open>The byte and the upper 24 bits of a 32-bit word\<close>

lemma bit_255: "bit (255 :: u32) n \<longleftrightarrow> n < 8"
proof -
  have "(255 :: u32) = mask 8" by (simp add: mask_eq_exp_minus_1)
  then show ?thesis by (simp only: bit_mask_iff) auto
qed

lemma unat_take: "unat (take_bit n (x :: u32)) = unat x mod 2 ^ n"
  by (simp only: unsigned_take_bit_eq) (simp only: take_bit_eq_mod)

lemma take_8_iff: "take_bit 8 (c :: u32) = c \<longleftrightarrow> c < 256"
proof -
  have "unat (take_bit 8 c) = unat c mod 256"
    by (simp only: unat_take) simp
  then have "take_bit 8 c = c \<longleftrightarrow> unat c mod 256 = unat c"
    by (simp only: word_unat_eq_iff)
  also have "\<dots> \<longleftrightarrow> unat c < 256"
    by (metis mod_less mod_less_divisor zero_less_numeral)
  finally show ?thesis by (simp add: word_less_nat_alt)
qed

lemma small_bit: "(c :: u32) < 256 \<Longrightarrow> bit c n \<Longrightarrow> n < 8"
  by (metis bit_take_bit_iff take_8_iff)

lemma and_255: "p AND 255 = take_bit 8 (p :: u32)"
  by (rule bit_word_eqI) (simp only: bit_and_iff bit_255 bit_take_bit_iff conj_commute)

lemma and_255_less: "(p :: u32) AND 255 < 256"
  using take_8_iff [of "p AND 255"] by (simp add: and_255)

lemma and_not_255: "(p :: u32) AND NOT 255 = push_bit 8 (drop_bit 8 p)"
  by (rule bit_word_eqI) (simp only: bit_and_iff bit_not_iff bit_255 bit_push_bit_iff bit_drop_bit_eq comp_def, auto)

lemma pack_high:
  assumes "(q :: u32) < 2 ^ 24" "c < 256"
  shows "drop_bit 8 (push_bit 8 q OR c) = q"
proof -
  have q: "take_bit 24 q = q"
  proof -
    have "unat (take_bit 24 q) = unat q mod 2 ^ 24" by (rule unat_take)
    moreover have "unat q < 2 ^ 24" using assms(1) by (simp add: word_less_nat_alt)
    ultimately show ?thesis by (simp only: word_unat_eq_iff mod_less)
  qed
  show ?thesis
  proof (rule bit_word_eqI)
    fix n assume "n < LENGTH(32)"
    have "bit q n \<Longrightarrow> n < 24" using q by (metis bit_take_bit_iff)
    moreover have "\<not> bit c (8 + n)" using small_bit [OF assms(2), of "8 + n"] by auto
    ultimately show "bit (drop_bit 8 (push_bit 8 q OR c)) n = bit q n"
      by (auto simp: bit_drop_bit_eq bit_or_iff bit_push_bit_iff)
  qed
qed

lemma pack_low: "c < 256 \<Longrightarrow> (push_bit 8 (q :: u32) OR c) AND 255 = c"
  by (rule bit_word_eqI) (simp only: bit_and_iff bit_or_iff bit_255 bit_push_bit_iff, auto dest: small_bit)

lemma unat_parts: "unat (p :: u32) = unat (drop_bit 8 p) * 256 + unat (p AND 255)"
proof -
  have "unat p < 2 ^ 32" using unsigned_less [of p] by simp
  then have "unat (drop_bit 8 p) = unat p div 256"
    by (simp only: unsigned_drop_bit_eq) (simp add: drop_bit_eq_div take_bit_eq_mod)
  moreover have "unat (p AND 255) = unat p mod 256"
    by (simp only: and_255 unat_take) simp
  ultimately show ?thesis by simp
qed

lemma parts_less_iff:
  "(p :: u32) < q \<longleftrightarrow> drop_bit 8 p < drop_bit 8 q \<or> drop_bit 8 p = drop_bit 8 q \<and> p AND 255 < q AND 255"
proof -
  have "unat (p AND 255) < 256" "unat (q AND 255) < 256"
    using and_255_less [of p] and_255_less [of q] by (simp_all add: word_less_nat_alt)
  then show ?thesis
    unfolding word_less_nat_alt word_unat_eq_iff unat_parts [of p] unat_parts [of q] by linarith
qed

end
