(* ===== verification/PolicyKeyCover.thy ===== *)
theory PolicyKeyCover
  imports PolicyKey Words
begin

text \<open>
  What a policy key matches, and the three ways in which the code decides that one key is broader
  than another: the trie's covering relation, the port and protocol comparisons, and the set of
  packets that a key matches.  They agree on well-formed keys.
\<close>

section \<open>Well-formed keys\<close>

text \<open>
  The prefix length is at most 16, the wildcarded port bits are 0, and a wildcarded protocol has a
  wildcarded port.
\<close>

definition lpm_wf :: "LPMKey \<Rightarrow> bool" where
  "lpm_wf k \<longleftrightarrow>
     PortPrefixLen k \<le> 16 \<and>
     DestPort k AND push_bit (unat (16 - PortPrefixLen k)) 0xffff = DestPort k \<and>
     (Nexthdr k = 0 \<longrightarrow> PortPrefixLen k = 0)"

definition lpm_matches :: "LPMKey \<Rightarrow> u8 \<Rightarrow> u8 \<Rightarrow> u16 \<Rightarrow> bool" where
  "lpm_matches k dir proto port \<longleftrightarrow>
     LPMKey_TrafficDirection k = dir \<and>
     (Nexthdr k = 0 \<or> Nexthdr k = proto \<and> DestPort k \<le> port \<and> port \<le> EndPort k)"

definition Key_matches :: "Key \<Rightarrow> NumericIdentity \<Rightarrow> u8 \<Rightarrow> u8 \<Rightarrow> u16 \<Rightarrow> bool" where
  "Key_matches k nid dir proto port \<longleftrightarrow>
     (Identity k = 0 \<or> Identity k = nid) \<and> lpm_matches (key_LPMKey k) dir proto port"

section \<open>Port prefixes\<close>

lemma unat_16_minus: "(n :: u8) \<le> 16 \<Longrightarrow> unat (16 - n) = 16 - unat n"
  by (simp add: unat_sub)

lemma direction_eq: "LPMKey_TrafficDirection a = LPMKey_TrafficDirection b \<longleftrightarrow> bit (lpm_bits a) 7 = bit (lpm_bits b) 7"
  by (simp add: LPMKey_TrafficDirection_def directionBitShift_def drop_bit_7)

lemma directionBitMask_bit: "bit directionBitMask n \<longleftrightarrow> n = 7"
  unfolding directionBitMask_def directionBitShift_def bit_push_bit_iff
  by (cases "7 \<le> n") (auto simp: bit_1_iff)

lemma PortPrefixLen_bit: "bit (PortPrefixLen k) n \<longleftrightarrow> n < 7 \<and> bit (lpm_bits k) n"
  using bit_imp_le_length [of "lpm_bits k" n]
  by (auto simp: PortPrefixLen_def bit_and_iff bit_not_iff directionBitMask_bit)

lemma PortPrefixLen_eq: "push_bit 1 (lpm_bits a) = push_bit 1 (lpm_bits b) \<longleftrightarrow> PortPrefixLen a = PortPrefixLen b"
proof
  assume eq: "push_bit 1 (lpm_bits a) = push_bit 1 (lpm_bits b)"
  have "bit (lpm_bits a) n = bit (lpm_bits b) n" if "n < 7" for n
    using arg_cong [OF eq, of "\<lambda>x. bit x (Suc n)"] that by (simp only: bit_push_bit_iff) simp
  then show "PortPrefixLen a = PortPrefixLen b"
    by (intro bit_word_eqI) (auto simp: PortPrefixLen_bit)
next
  assume eq: "PortPrefixLen a = PortPrefixLen b"
  have "bit (lpm_bits a) n = bit (lpm_bits b) n" if "n < 7" for n
    using arg_cong [OF eq, of "\<lambda>x. bit x n"] that by (simp add: PortPrefixLen_bit)
  then show "push_bit 1 (lpm_bits a) = push_bit 1 (lpm_bits b)"
    by (intro bit_word_eqI) (simp only: bit_push_bit_iff, auto)
qed

lemma PortIsEqual_iff: "PortIsEqual a b \<longleftrightarrow> DestPort a = DestPort b \<and> PortPrefixLen a = PortPrefixLen b"
  unfolding PortIsEqual_def PortPrefixLen_eq ..

text \<open>The number of significant port bits of a well-formed key, and its port block.\<close>

abbreviation plen :: "LPMKey \<Rightarrow> nat" where
  "plen k \<equiv> unat (PortPrefixLen k)"

lemma lpm_wf_plen: "lpm_wf k \<Longrightarrow> plen k \<le> 16"
  by (simp add: lpm_wf_def word_le_nat_alt)

lemma lpm_wf_aligned: "lpm_wf k \<Longrightarrow> take_bit (16 - plen k) (DestPort k) = 0"
  by (clarsimp simp: lpm_wf_def unat_16_minus aligned_iff)

lemma lpm_wf_wild: "lpm_wf k \<Longrightarrow> Nexthdr k = 0 \<Longrightarrow> PortPrefixLen k = 0 \<and> DestPort k = 0"
proof -
  assume wf: "lpm_wf k" and "Nexthdr k = 0"
  then have p: "PortPrefixLen k = 0" by (simp add: lpm_wf_def)
  then have "take_bit 16 (DestPort k) = 0" using lpm_wf_aligned [OF wf] by simp
  then show ?thesis using p take_bit_word_eq_self [of 16 "DestPort k"] by simp
qed

lemma PortIsBroader_iff:
  assumes "lpm_wf k"
  shows "PortIsBroader k c \<longleftrightarrow>
    plen k < plen c \<and> drop_bit (16 - plen k) (DestPort k) = drop_bit (16 - plen k) (DestPort c)"
proof -
  have "DestPort k AND push_bit (16 - plen k) 0xffff = DestPort k"
    using assms by (clarsimp simp: lpm_wf_def unat_16_minus)
  moreover have "unat (16 - PortPrefixLen k) = 16 - plen k"
    using assms by (clarsimp simp: lpm_wf_def unat_16_minus)
  ultimately show ?thesis
    using mask_eq_iff [of "DestPort k" "16 - plen k" "DestPort c"]
    by (simp add: PortIsBroader_def Let_def word_less_nat_alt xor_eq_0)
qed

lemma port_in_range_iff:
  assumes "lpm_wf k"
  shows "DestPort k \<le> x \<and> x \<le> EndPort k \<longleftrightarrow> drop_bit (16 - plen k) x = drop_bit (16 - plen k) (DestPort k)"
  using port_range_iff [OF lpm_wf_plen [OF assms] lpm_wf_aligned [OF assms]] by (simp add: EndPort_def)

section \<open>Covering\<close>

lemma PrefixLength_le: "lpm_wf k \<Longrightarrow> PrefixLength k \<le> 25"
  using lpm_wf_plen [of k] by (simp add: PrefixLength_def)

lemma proto_bits_iff: "(\<forall>i. 0 < i \<and> i < 9 \<longrightarrow> bit (a :: u8) (8 - i) = bit b (8 - i)) \<longleftrightarrow> a = b"
proof
  assume *: "\<forall>i. 0 < i \<and> i < 9 \<longrightarrow> bit a (8 - i) = bit b (8 - i)"
  show "a = b"
  proof (rule bit_word_eqI)
    fix n assume "n < LENGTH(8)"
    then show "bit a n = bit b n" using * [rule_format, of "8 - n"] by simp
  qed
qed simp

lemma lpm_agree_wild: "agree LPMKey_ops (Suc 0) a b \<longleftrightarrow> bit (lpm_bits a) 7 = bit (lpm_bits b) 7"
  by (simp add: LPMKey_agree lpm_bit_def)

lemma lpm_agree_port:
  assumes "n \<le> 16"
  shows "agree LPMKey_ops (9 + n) a b \<longleftrightarrow>
    bit (lpm_bits a) 7 = bit (lpm_bits b) 7 \<and> Nexthdr a = Nexthdr b \<and>
    drop_bit (16 - n) (DestPort a) = drop_bit (16 - n) (DestPort b)"
proof -
  have "(\<forall>i<9 + n. lpm_bit a i = lpm_bit b i) \<longleftrightarrow>
      lpm_bit a 0 = lpm_bit b 0 \<and> (\<forall>i. 0 < i \<and> i < 9 \<longrightarrow> lpm_bit a i = lpm_bit b i) \<and>
      (\<forall>i<n. lpm_bit a (9 + i) = lpm_bit b (9 + i))" (is "?all \<longleftrightarrow> ?split")
  proof
    assume ?split
    then show ?all
      by (metis add_diff_inverse_nat add_less_cancel_left not_gr_zero)
  qed simp
  moreover have "(\<forall>i. 0 < i \<and> i < 9 \<longrightarrow> lpm_bit a i = lpm_bit b i) \<longleftrightarrow> Nexthdr a = Nexthdr b"
    using proto_bits_iff [of "Nexthdr a" "Nexthdr b"] by (simp add: lpm_bit_def)
  moreover have "(\<forall>i<n. lpm_bit a (9 + i) = lpm_bit b (9 + i)) \<longleftrightarrow>
      drop_bit (16 - n) (DestPort a) = drop_bit (16 - n) (DestPort b)"
    using port_bits_iff [OF assms, of "DestPort a" "DestPort b"] by (simp add: lpm_bit_def)
  ultimately show ?thesis
    using assms by (simp add: LPMKey_agree) (simp add: lpm_bit_def)
qed

abbreviation lpm_covers :: "LPMKey \<Rightarrow> LPMKey \<Rightarrow> bool" where
  "lpm_covers k c \<equiv> covers LPMKey_ops (PrefixLength k) k (PrefixLength c) c"

lemma lpm_covers_fields:
  assumes "lpm_wf k" "lpm_wf c"
  shows "lpm_covers k c \<longleftrightarrow>
    LPMKey_TrafficDirection k = LPMKey_TrafficDirection c \<and>
    (Nexthdr k = 0 \<or>
     Nexthdr k = Nexthdr c \<and> plen k \<le> plen c \<and>
     drop_bit (16 - plen k) (DestPort k) = drop_bit (16 - plen k) (DestPort c))"
proof (cases "Nexthdr k = 0")
  case True
  then show ?thesis by (simp add: covers_def PrefixLength_def lpm_agree_wild direction_eq)
next
  case False
  then show ?thesis
    using lpm_agree_port [OF lpm_wf_plen [OF assms(1)], of k c]
    by (auto simp: covers_def PrefixLength_def direction_eq)
qed

lemma port_broader_or_equal:
  assumes "lpm_wf k" "lpm_wf c"
  shows "PortIsEqual k c \<or> PortIsBroader k c \<longleftrightarrow>
    plen k \<le> plen c \<and> drop_bit (16 - plen k) (DestPort k) = drop_bit (16 - plen k) (DestPort c)"
proof (cases "PortPrefixLen k = PortPrefixLen c")
  case True
  have "DestPort k AND push_bit (16 - plen k) 0xffff = DestPort k"
    "DestPort c AND push_bit (16 - plen k) 0xffff = DestPort c"
    using assms True by (simp_all add: aligned_iff lpm_wf_aligned flip: True)
      (metis True lpm_wf_aligned)
  then have "drop_bit (16 - plen k) (DestPort k) = drop_bit (16 - plen k) (DestPort c) \<longleftrightarrow> DestPort k = DestPort c"
    using mask_eq_iff [of "DestPort k" "16 - plen k" "DestPort c"] by metis
  then show ?thesis
    using True by (simp add: PortIsEqual_iff PortIsBroader_iff [OF assms(1)])
next
  case False
  then have "plen k \<noteq> plen c" by (simp add: word_unat_eq_iff)
  then show ?thesis
    using False by (auto simp: PortIsEqual_iff PortIsBroader_iff [OF assms(1)])
qed

lemma lpm_covers_broader:
  assumes "lpm_wf k" "lpm_wf c"
  shows "lpm_covers k c \<longleftrightarrow>
    LPMKey_TrafficDirection k = LPMKey_TrafficDirection c \<and> (PortProtoIsEqual k c \<or> PortProtoIsBroader k c)"
proof (cases "Nexthdr k = 0")
  case True
  have "PortIsEqual k c" if "Nexthdr c = 0"
    using lpm_wf_wild [OF assms(1) True] lpm_wf_wild [OF assms(2) that] by (simp add: PortIsEqual_iff)
  then show ?thesis
    using True by (auto simp: lpm_covers_fields [OF assms] PortProtoIsEqual_def PortProtoIsBroader_def)
next
  case False
  then show ?thesis
    using port_broader_or_equal [OF assms]
    by (auto simp: lpm_covers_fields [OF assms] PortProtoIsEqual_def PortProtoIsBroader_def)
qed

text \<open>The trie's covering relation is the inclusion of the matched packets.\<close>

lemma lpm_matches_iff:
  assumes "lpm_wf k"
  shows "lpm_matches k dir proto port \<longleftrightarrow>
    LPMKey_TrafficDirection k = dir \<and>
    (Nexthdr k = 0 \<or> Nexthdr k = proto \<and> drop_bit (16 - plen k) port = drop_bit (16 - plen k) (DestPort k))"
  using port_in_range_iff [OF assms, of port] by (simp add: lpm_matches_def)

lemma lpm_covers_matches:
  assumes "lpm_wf k" "lpm_wf c" "lpm_covers k c" "lpm_matches c dir proto port"
  shows "lpm_matches k dir proto port"
proof -
  have "drop_bit (16 - plen k) port = drop_bit (16 - plen k) (DestPort c)"
    if "plen k \<le> plen c" "drop_bit (16 - plen c) port = drop_bit (16 - plen c) (DestPort c)"
    using drop_bit_coarser [OF _ that(2), of "16 - plen k"] that(1) by simp
  moreover have "Nexthdr c \<noteq> 0" if "Nexthdr k \<noteq> 0" "Nexthdr k = Nexthdr c" using that by simp
  ultimately show ?thesis
    using assms(3,4) by (auto simp: lpm_covers_fields [OF assms(1,2)] lpm_matches_iff assms(1,2))
qed

lemma flip_bit_prefix:
  fixes d :: u16
  assumes "n < 16"
  shows "drop_bit (16 - n) (flip_bit (15 - n) d) = drop_bit (16 - n) d"
    and "n < m \<Longrightarrow> m \<le> 16 \<Longrightarrow> drop_bit (16 - m) (flip_bit (15 - n) d) \<noteq> drop_bit (16 - m) d"
proof -
  show "drop_bit (16 - n) (flip_bit (15 - n) d) = drop_bit (16 - n) d"
    by (rule bit_word_eqI) (use assms in \<open>auto simp: bit_drop_bit_eq bit_flip_bit_iff dest: bit_imp_le_length\<close>)
next
  assume m: "n < m" "m \<le> 16"
  show "drop_bit (16 - m) (flip_bit (15 - n) d) \<noteq> drop_bit (16 - m) d"
  proof
    assume eq: "drop_bit (16 - m) (flip_bit (15 - n) d) = drop_bit (16 - m) d"
    have "16 - m + (m - 1 - n) = 15 - n" using m by simp
    then have "bit (flip_bit (15 - n) d) (15 - n) = bit d (15 - n)"
      using arg_cong [OF eq, of "\<lambda>x. bit x (m - 1 - n)"] by (simp add: bit_drop_bit_eq)
    moreover have "15 - n < 16" by simp
    ultimately show False by (auto simp: bit_flip_bit_iff)
  qed
qed

lemma lpm_matches_covers:
  assumes "lpm_wf k" "lpm_wf c"
    and sub: "\<And>dir proto port. lpm_matches c dir proto port \<Longrightarrow> lpm_matches k dir proto port"
  shows "lpm_covers k c"
proof -
  let ?dir = "LPMKey_TrafficDirection c"
  have own: "lpm_matches k ?dir (Nexthdr c) (DestPort c)"
    by (rule sub) (simp add: lpm_matches_iff assms)
  show ?thesis
  proof (cases "Nexthdr k = 0")
    case True
    then show ?thesis using own by (simp add: lpm_covers_fields assms lpm_matches_iff)
  next
    case False
    have "Nexthdr c \<noteq> 0"
    proof
      assume "Nexthdr c = 0"
      then have "lpm_matches k ?dir (Nexthdr k + 1) (DestPort c)"
        by (intro sub) (simp add: lpm_matches_iff assms)
      with False show False by (simp add: lpm_matches_iff assms)
    qed
    moreover have "plen k \<le> plen c"
    proof (rule ccontr)
      assume lt: "\<not> plen k \<le> plen c"
      then have c16: "plen c < 16" using lpm_wf_plen [OF assms(1)] by simp
      let ?port = "flip_bit (15 - plen c) (DestPort c)"
      have "lpm_matches k ?dir (Nexthdr c) ?port"
        by (rule sub) (simp add: lpm_matches_iff assms flip_bit_prefix(1) [OF c16])
      then show False
        using own False flip_bit_prefix(2) [OF c16 _ lpm_wf_plen [OF assms(1)], of "DestPort c"] lt
        by (simp add: lpm_matches_iff assms)
    qed
    ultimately show ?thesis
      using own False by (auto simp: lpm_covers_fields assms lpm_matches_iff)
  qed
qed

section \<open>Keys with identities\<close>

lemma Key_Covers_iff:
  assumes "lpm_wf (key_LPMKey k)" "lpm_wf (key_LPMKey c)"
    and "LPMKey_TrafficDirection (key_LPMKey k) = LPMKey_TrafficDirection (key_LPMKey c)"
  shows "Key_Covers k c \<longleftrightarrow>
    (Identity k = 0 \<or> Identity k = Identity c) \<and> lpm_covers (key_LPMKey k) (key_LPMKey c)"
proof -
  have "plen (key_LPMKey k) = 0 \<and> DestPort (key_LPMKey k) = 0" if "Nexthdr (key_LPMKey k) = 0"
    using lpm_wf_wild [OF assms(1) that] by simp
  moreover have "drop_bit 16 (x :: u16) = 0" for x
    by (rule bit_word_eqI) (auto simp: bit_drop_bit_eq dest: bit_imp_le_length)
  ultimately show ?thesis
    using assms(3)
    by (auto simp: Key_Covers_def lpm_covers_fields [OF assms(1,2)] port_broader_or_equal [OF assms(1,2)])
qed

lemma Key_Covers_matches_iff:
  assumes "lpm_wf (key_LPMKey k)" "lpm_wf (key_LPMKey c)"
    and "LPMKey_TrafficDirection (key_LPMKey k) = LPMKey_TrafficDirection (key_LPMKey c)"
  shows "Key_Covers k c \<longleftrightarrow>
    (\<forall>nid dir proto port. Key_matches c nid dir proto port \<longrightarrow> Key_matches k nid dir proto port)"
    (is "_ \<longleftrightarrow> ?sub")
proof
  assume "Key_Covers k c"
  then show ?sub
    using lpm_covers_matches [OF assms(1,2)] by (auto simp: Key_Covers_iff [OF assms] Key_matches_def)
next
  assume sub: ?sub
  have "lpm_matches (key_LPMKey k) dir proto port" if "lpm_matches (key_LPMKey c) dir proto port" for dir proto port
    using sub [rule_format, of "Identity c" dir proto port] that by (simp add: Key_matches_def)
  then have lpm: "lpm_covers (key_LPMKey k) (key_LPMKey c)"
    by (rule lpm_matches_covers [OF assms(1,2)])
  have own: "lpm_matches (key_LPMKey c) (LPMKey_TrafficDirection (key_LPMKey c)) (Nexthdr (key_LPMKey c))
      (DestPort (key_LPMKey c))"
    by (simp add: lpm_matches_iff assms)
  have "Identity k = 0 \<or> Identity k = Identity c"
    using sub [rule_format, OF Key_matches_def [THEN iffD2], OF conjI, OF _ own, of "Identity c"]
      sub [rule_format, OF Key_matches_def [THEN iffD2], OF conjI, OF _ own, of "Identity k + 1"]
    by (auto simp: Key_matches_def)
  then show "Key_Covers k c" using lpm by (simp add: Key_Covers_iff [OF assms])
qed

text \<open>
  \<^verbatim>\<open>Covers\<close> does not look at the direction.  The key with the direction of another one:
\<close>

definition turned :: "LPMKey \<Rightarrow> LPMKey \<Rightarrow> LPMKey" where
  "turned k c = c\<lparr>lpm_bits := lpm_bits k AND directionBitMask OR lpm_bits c AND NOT directionBitMask\<rparr>"

lemma turned_fields [simp]:
  "Nexthdr (turned k c) = Nexthdr c" "DestPort (turned k c) = DestPort c" "PortPrefixLen (turned k c) = PortPrefixLen c"
  "EndPort (turned k c) = EndPort c" "LPMKey_TrafficDirection (turned k c) = LPMKey_TrafficDirection k"
proof -
  show len: "PortPrefixLen (turned k c) = PortPrefixLen c"
    by (rule bit_word_eqI) (auto simp: PortPrefixLen_bit turned_def bit_and_iff bit_or_iff bit_not_iff directionBitMask_bit)
  show "Nexthdr (turned k c) = Nexthdr c" "DestPort (turned k c) = DestPort c" by (simp_all add: turned_def)
  then show "EndPort (turned k c) = EndPort c" using len by (simp add: EndPort_def)
  show "LPMKey_TrafficDirection (turned k c) = LPMKey_TrafficDirection k"
    by (simp add: direction_eq turned_def bit_and_iff bit_or_iff bit_not_iff directionBitMask_bit)
qed

lemma turned_wf: "lpm_wf (turned k c) \<longleftrightarrow> lpm_wf c"
  by (simp add: lpm_wf_def)

lemma Key_Covers_turned: "Key_Covers k (c\<lparr>key_LPMKey := turned d (key_LPMKey c)\<rparr>) \<longleftrightarrow> Key_Covers k c"
  unfolding Key_Covers_def PortIsEqual_def PortIsBroader_def PortPrefixLen_eq by simp

lemma Key_matches_turned:
  "Key_matches (c\<lparr>key_LPMKey := turned d (key_LPMKey c)\<rparr>) nid dir proto port \<longleftrightarrow>
    LPMKey_TrafficDirection d = dir \<and> (\<exists>dir. Key_matches c nid dir proto port)"
  by (auto simp: Key_matches_def lpm_matches_def)

lemma Key_Covers_undirected:
  assumes "lpm_wf (key_LPMKey k)" "lpm_wf (key_LPMKey c)"
  shows "Key_Covers k c \<longleftrightarrow>
    (\<forall>nid proto port. (\<exists>dir. Key_matches c nid dir proto port) \<longrightarrow> (\<exists>dir. Key_matches k nid dir proto port))"
proof -
  let ?c = "c\<lparr>key_LPMKey := turned (key_LPMKey k) (key_LPMKey c)\<rparr>"
  have dir: "Key_matches k nid (LPMKey_TrafficDirection (key_LPMKey k)) proto port \<longleftrightarrow> (\<exists>dir. Key_matches k nid dir proto port)"
    for nid proto port by (auto simp: Key_matches_def lpm_matches_def)
  have "Key_Covers k c \<longleftrightarrow>
      (\<forall>nid dir proto port. Key_matches ?c nid dir proto port \<longrightarrow> Key_matches k nid dir proto port)"
    using Key_Covers_matches_iff [of k ?c] assms by (simp add: Key_Covers_turned turned_wf)
  then show ?thesis unfolding Key_matches_turned using dir by blast
qed

section \<open>The order of the keys\<close>

lemma lpm_covers_refl [simp]: "lpm_covers k k"
  by (simp add: covers_def)

lemma lpm_covers_trans: "lpm_covers a b \<Longrightarrow> lpm_covers b c \<Longrightarrow> lpm_covers a c"
  unfolding covers_def by (meson agree_def le_trans less_le_trans lpm.agree_trans)

lemma lpm_bits_eq:
  assumes "bit (lpm_bits a) 7 = bit (lpm_bits b) 7" "PortPrefixLen a = PortPrefixLen b"
  shows "lpm_bits a = lpm_bits b"
proof (rule bit_word_eqI)
  fix n assume "n < LENGTH(8)"
  then consider "n < 7" | "n = 7" by fastforce
  then show "bit (lpm_bits a) n = bit (lpm_bits b) n"
    using assms(1) arg_cong [OF assms(2), of "\<lambda>x. bit x n"] by cases (simp_all add: PortPrefixLen_bit)
qed

lemma lpm_covers_antisym:
  assumes wf: "lpm_wf a" "lpm_wf b" and "lpm_covers a b" "lpm_covers b a"
  shows "a = b"
proof -
  have dir: "bit (lpm_bits a) 7 = bit (lpm_bits b) 7" and proto: "Nexthdr a = Nexthdr b"
    using assms(3,4) by (auto simp: lpm_covers_fields wf direction_eq)
  have port: "PortIsEqual a b"
  proof (cases "Nexthdr a = 0")
    case True
    then show ?thesis
      using lpm_wf_wild [OF wf(1)] lpm_wf_wild [OF wf(2)] proto by (simp add: PortIsEqual_iff)
  next
    case False
    then have "plen a = plen b" "drop_bit (16 - plen a) (DestPort a) = drop_bit (16 - plen a) (DestPort b)"
      using assms(3,4) proto by (auto simp: lpm_covers_fields wf)
    then show ?thesis
      using port_broader_or_equal [OF wf] PortIsBroader_iff [OF wf(1)] by auto
  qed
  then show ?thesis
    using lpm_bits_eq [OF dir] proto by (simp add: PortIsEqual_iff)
qed

text \<open>Well-formed keys with the same prefix are equal, so a trie node stands for one key.\<close>

lemma lpm_same_prefix:
  assumes "lpm_wf a" "lpm_wf b" "PrefixLength a = PrefixLength b" "agree LPMKey_ops (PrefixLength a) a b"
  shows "a = b"
  by (rule lpm_covers_antisym [OF assms(1,2)]) (use assms(3,4) lpm.agree_sym in \<open>auto simp: covers_def\<close>)

section \<open>Construction of well-formed keys\<close>

lemma wild_lpm_wf: "lpm_wf \<lparr>lpm_bits = push_bit directionBitShift d, Nexthdr = 0, DestPort = 0\<rparr>"
proof -
  have "PortPrefixLen \<lparr>lpm_bits = push_bit directionBitShift d, Nexthdr = 0, DestPort = 0\<rparr> = 0"
    by (rule bit_word_eqI) (simp only: PortPrefixLen_bit directionBitShift_def LPMKey.simps bit_push_bit_iff, auto)
  then show ?thesis by (simp add: lpm_wf_def)
qed

lemma prefix_len_bit:
  assumes "(n :: u8) \<le> 16" "bit n m"
  shows "m < 5"
proof -
  have "take_bit 5 n = n"
    using assms(1) by (simp add: word_unat_eq_iff unsigned_take_bit_eq take_bit_nat_eq_self word_le_nat_alt)
  then show ?thesis using assms(2) bit_take_bit_iff [of 5 n m] by simp
qed

lemma direction_bits_plen:
  assumes "n \<le> 16"
  shows "PortPrefixLen \<lparr>lpm_bits = b AND directionBitMask OR n, Nexthdr = p, DestPort = d\<rparr> = n"
proof (rule bit_word_eqI)
  fix m
  have "m < 7" if "bit n m" using prefix_len_bit [OF assms that] by simp
  then show "bit (PortPrefixLen \<lparr>lpm_bits = b AND directionBitMask OR n, Nexthdr = p, DestPort = d\<rparr>) m = bit n m"
    by (auto simp: PortPrefixLen_bit bit_and_iff bit_or_iff directionBitMask_bit)
qed

lemma mask_aligned: "(port AND push_bit n 0xffff) AND push_bit n 0xffff = (port AND push_bit n 0xffff :: u16)"
  by (simp only: and.assoc and.idem)

lemma WithPortPrefix_wf:
  assumes "Nexthdr (key_LPMKey k) = 0 \<longrightarrow> port = 0 \<and> prefixLen = 0"
  shows "lpm_wf (key_LPMKey (Key_WithPortPrefix k port prefixLen))"
proof -
  define n where "n = (if prefixLen > 16 \<or> port \<noteq> 0 \<and> prefixLen = 0 then 16 else prefixLen)"
  have n: "n \<le> 16" by (auto simp: n_def)
  define l where "l = \<lparr>lpm_bits = lpm_bits (key_LPMKey k) AND directionBitMask OR n, Nexthdr = Nexthdr (key_LPMKey k),
      DestPort = port AND push_bit (unat (16 - n)) 0xffff\<rparr>"
  have eq: "key_LPMKey (Key_WithPortPrefix k port prefixLen) = l"
    by (cases "key_LPMKey k") (simp add: Key_WithPortPrefix_def Let_def n_def l_def)
  have pl: "PortPrefixLen l = n" unfolding l_def by (rule direction_bits_plen [OF n])
  have "n = 0" if "Nexthdr l = 0" using assms that by (simp add: l_def n_def)
  then show ?thesis
    unfolding eq lpm_wf_def pl using n mask_aligned by (simp add: l_def)
qed

lemma WithPort_prefix: "Key_WithPort k port = Key_WithPortPrefix k port (if port = 0 then 0 else 16)"
proof -
  have "push_bit 16 (0xffff :: u16) = 0" by (rule bit_word_eqI) (simp only: bit_push_bit_iff, auto)
  moreover have "port AND 0xffff = port" by (rule bit_word_eqI) (simp only: bit_and_iff bit_ffff, simp)
  ultimately show ?thesis
    by (cases "port = 0") (simp_all add: Key_WithPort_def Key_WithPortPrefix_def Let_def)
qed

lemma WithPort_wf: "(Nexthdr (key_LPMKey k) = 0 \<longrightarrow> port = 0) \<Longrightarrow> lpm_wf (key_LPMKey (Key_WithPort k port))"
  unfolding WithPort_prefix by (rule WithPortPrefix_wf) simp

lemma WithPortPrefix_fields:
  "Nexthdr (key_LPMKey (Key_WithPortPrefix k port prefixLen)) = Nexthdr (key_LPMKey k)"
  "Identity (Key_WithPortPrefix k port prefixLen) = Identity k"
  by (simp_all add: Key_WithPortPrefix_def Let_def)

lemma WithPortPrefix_direction:
  assumes "LPMKey_TrafficDirection (key_LPMKey k) = d"
  shows "LPMKey_TrafficDirection (key_LPMKey (Key_WithPortPrefix k port prefixLen)) = d"
proof -
  define n where "n = (if prefixLen > 16 \<or> port \<noteq> 0 \<and> prefixLen = 0 then 16 else prefixLen)"
  have "n \<le> 16" by (auto simp: n_def)
  then have "\<not> bit n 7" using prefix_len_bit [of n 7] by auto
  then have "bit (lpm_bits (key_LPMKey (Key_WithPortPrefix k port prefixLen))) 7 = bit (lpm_bits (key_LPMKey k)) 7"
    by (simp add: Key_WithPortPrefix_def Let_def n_def bit_and_iff bit_or_iff directionBitMask_bit)
  then show ?thesis using assms direction_eq by metis
qed

section \<open>Properties\<close>

text \<open>
  C10.  \<^verbatim>\<open>Covers\<close> decides inclusion up to the direction.  A well-formed key covers another one
  exactly if every identity, protocol and port that the other matches in its direction is matched by the
  key in its own direction.  For two keys of one direction this is the documented inclusion of the
  packets (identity, direction, protocol, port) they match; two keys of opposite directions have no
  packet in common, although one may cover the other.
\<close>

theorem Key_Covers_semantic:
  assumes "lpm_wf (key_LPMKey k)" "lpm_wf (key_LPMKey c)"
  shows "(Key_Covers k c \<longleftrightarrow>
      (\<forall>nid proto port. (\<exists>dir. Key_matches c nid dir proto port) \<longrightarrow> (\<exists>dir. Key_matches k nid dir proto port))) \<and>
    (if LPMKey_TrafficDirection (key_LPMKey k) = LPMKey_TrafficDirection (key_LPMKey c)
     then Key_Covers k c \<longleftrightarrow>
       (\<forall>nid dir proto port. Key_matches c nid dir proto port \<longrightarrow> Key_matches k nid dir proto port)
     else \<not> (\<exists>nid dir proto port. Key_matches c nid dir proto port \<and> Key_matches k nid dir proto port))"
proof (intro conjI)
  show "if LPMKey_TrafficDirection (key_LPMKey k) = LPMKey_TrafficDirection (key_LPMKey c)
     then Key_Covers k c \<longleftrightarrow>
       (\<forall>nid dir proto port. Key_matches c nid dir proto port \<longrightarrow> Key_matches k nid dir proto port)
     else \<not> (\<exists>nid dir proto port. Key_matches c nid dir proto port \<and> Key_matches k nid dir proto port)"
    using Key_Covers_matches_iff [OF assms] by (auto simp: Key_matches_def lpm_matches_def)
qed (rule Key_Covers_undirected [OF assms])

theorem Key_Covers_semantic_witness:
  "let k = Key_WithTCPPortPrefix IngressKey 80 12 in
   \<not> (\<exists>nid dir proto port. Key_matches (Key_WithTCPPort IngressKey 81) nid dir proto port \<and> \<not> Key_matches k nid dir proto port) \<and>
   Key_Covers k (Key_WithTCPPort EgressKey 81) \<and>
   \<not> (\<exists>nid dir proto port. Key_matches (Key_WithTCPPort EgressKey 81) nid dir proto port \<and> Key_matches k nid dir proto port)"
proof -
  let ?k = "Key_WithTCPPortPrefix IngressKey 80 12"
  have wf: "lpm_wf (key_LPMKey ?k)" "lpm_wf (key_LPMKey (Key_WithTCPPort IngressKey 81))"
    "lpm_wf (key_LPMKey (Key_WithTCPPort EgressKey 81))"
    by code_simp+
  have dir: "LPMKey_TrafficDirection (key_LPMKey ?k) = LPMKey_TrafficDirection (key_LPMKey (Key_WithTCPPort IngressKey 81))"
    "LPMKey_TrafficDirection (key_LPMKey ?k) \<noteq> LPMKey_TrafficDirection (key_LPMKey (Key_WithTCPPort EgressKey 81))"
    by code_simp+
  have cov: "Key_Covers ?k (Key_WithTCPPort IngressKey 81)" "Key_Covers ?k (Key_WithTCPPort EgressKey 81)"
    by code_simp+
  show ?thesis
    unfolding Let_def
    using Key_Covers_semantic [OF wf(1,2), unfolded if_P [OF dir(1)]] Key_Covers_semantic [OF wf(1,3), unfolded if_not_P [OF dir(2)]]
      cov by blast
qed

text \<open>
  C26.  The covering relation of the trie (same leading bits, shorter or equal prefix) is the
  comparison of direction, protocol and port that the key type offers.
\<close>

theorem trie_cover_is_broader:
  assumes "lpm_wf k" "lpm_wf c"
  shows "covers LPMKey_ops (PrefixLength k) k (PrefixLength c) c \<longleftrightarrow>
    LPMKey_TrafficDirection k = LPMKey_TrafficDirection c \<and> (PortProtoIsEqual k c \<or> PortProtoIsBroader k c)"
  by (rule lpm_covers_broader [OF assms])

theorem trie_cover_is_broader_witness:
  "covers LPMKey_ops 21 (key_LPMKey (Key_WithTCPPortPrefix IngressKey 80 12)) 25
    (key_LPMKey (Key_WithTCPPort IngressKey 81))"
proof -
  have "lpm_wf (key_LPMKey (Key_WithTCPPortPrefix IngressKey 80 12))"
    "lpm_wf (key_LPMKey (Key_WithTCPPort IngressKey 81))"
    "PrefixLength (key_LPMKey (Key_WithTCPPortPrefix IngressKey 80 12)) = 21"
    "PrefixLength (key_LPMKey (Key_WithTCPPort IngressKey 81)) = 25"
    "LPMKey_TrafficDirection (key_LPMKey (Key_WithTCPPortPrefix IngressKey 80 12)) =
      LPMKey_TrafficDirection (key_LPMKey (Key_WithTCPPort IngressKey 81))"
    "PortProtoIsBroader (key_LPMKey (Key_WithTCPPortPrefix IngressKey 80 12))
      (key_LPMKey (Key_WithTCPPort IngressKey 81))"
    by code_simp+
  then show ?thesis using trie_cover_is_broader by metis
qed

end
