(* ===== verification/PortRange.thy ===== *)
theory PortRange
  imports Words
begin

text \<open>
  Port ranges as masked ports (\<^verbatim>\<open>pkg/policy/portrange.go\<close>): a range is translated to a list
  of ports whose low bits are wildcarded, because the policy map is a longest-prefix-match map.
\<close>

record MaskedPort =
  mp_port :: u16
  mp_mask :: u16

definition maskedPort :: "u16 \<Rightarrow> nat \<Rightarrow> MaskedPort" where
  "maskedPort port wildcardBits =
     (let mask = push_bit wildcardBits 0xffff in \<lparr>mp_port = port AND mask, mp_mask = mask\<rparr>)"

definition PortRangeToMaskedPorts :: "u16 \<Rightarrow> u16 \<Rightarrow> MaskedPort list" where
  "PortRangeToMaskedPorts start end' =
     (if start = 0 \<and> (end' = 0 \<or> end' = 0xffff) then [\<lparr>mp_port = 0, mp_mask = 0\<rparr>]
      else if end' \<le> start then [\<lparr>mp_port = start, mp_mask = 0xffff\<rparr>]
      else
        let commonBits = LeadingZeros (start XOR end');
            mask = drop_bit commonBits (0xffff :: u16)
        in
        if start AND mask = 0 \<and> NOT end' AND mask = 0 then [maskedPort start (16 - commonBits)]
        else
          let middleBit = 16 - 1 - commonBits;
              middle = push_bit middleBit (1 :: u16);
              bit1 = TrailingZeros (start OR middle);
              bit2 = TrailingZeros (NOT end' OR middle)
          in
          [maskedPort start bit1] @
          map (\<lambda>b. maskedPort (start + push_bit b 1) b)
            (filter (\<lambda>b. start AND push_bit b 1 = 0) [bit1 + 1..<middleBit]) @
          [maskedPort end' bit2] @
          map (\<lambda>b. maskedPort (end' - push_bit b 1) b)
            (filter (\<lambda>b. end' AND push_bit b 1 \<noteq> 0) [bit2 + 1..<middleBit]))"

text \<open>A masked port matches the ports that agree with it on the mask.\<close>

definition mp_matches :: "MaskedPort \<Rightarrow> u16 \<Rightarrow> bool" where
  "mp_matches m p \<longleftrightarrow> p AND mp_mask m = mp_port m"

section \<open>Blocks\<close>

lemma maskedPort_matches: "mp_matches (maskedPort q w) p \<longleftrightarrow> drop_bit w p = drop_bit w q"
  using mask_eq_iff [of p w q] by (simp add: mp_matches_def maskedPort_def Let_def)

lemma and_push_1: "(a :: u16) AND push_bit b 1 = 0 \<longleftrightarrow> \<not> bit a b"
  by (simp add: push_bit_eq_mult and_exp_eq_0_iff_not_bit)

lemma drop_bit_Suc_cong:
  "drop_bit b (p :: u16) = drop_bit b q \<longleftrightarrow> bit p b = bit q b \<and> drop_bit (Suc b) p = drop_bit (Suc b) q"
proof
  assume eq: "drop_bit b p = drop_bit b q"
  have "drop_bit (Suc b) x = drop_bit 1 (drop_bit b x)" for x :: u16
    by (simp add: drop_bit_drop_bit)
  then show "bit p b = bit q b \<and> drop_bit (Suc b) p = drop_bit (Suc b) q"
    using eq by (metis bit_iff_odd_drop_bit)
next
  assume *: "bit p b = bit q b \<and> drop_bit (Suc b) p = drop_bit (Suc b) q"
  show "drop_bit b p = drop_bit b q"
  proof (rule bit_word_eqI)
    fix n assume "n < LENGTH(16)"
    show "bit (drop_bit b p) n = bit (drop_bit b q) n"
    proof (cases n)
      case 0
      then show ?thesis using * by (simp add: bit_drop_bit_eq)
    next
      case (Suc m)
      then show ?thesis
        using arg_cong [of _ _ "\<lambda>x. bit x m", OF conjunct2 [OF *]] by (simp add: bit_drop_bit_eq)
    qed
  qed
qed

lemma add_push_1: "\<not> bit (a :: u16) b \<Longrightarrow> a + push_bit b 1 = Bit_Operations.set_bit b a"
proof -
  assume nb: "\<not> bit a b"
  have "a AND push_bit b 1 = 0" using nb by (simp only: and_push_1) simp
  then have "a + push_bit b 1 = a OR push_bit b 1"
    by (rule disjunctive_add_eq_or)
  then show ?thesis by (simp add: set_bit_eq_or)
qed

lemma sub_push_1: "bit (a :: u16) b \<Longrightarrow> a - push_bit b 1 = unset_bit b a"
proof -
  assume b: "bit a b"
  have "\<not> bit (unset_bit b a) b" by (simp add: bit_unset_bit_iff)
  then have "unset_bit b a + push_bit b 1 = Bit_Operations.set_bit b (unset_bit b a)" by (rule add_push_1)
  also have "\<dots> = a"
    by (rule bit_word_eqI) (use b in \<open>auto simp: bit_set_bit_iff bit_unset_bit_iff\<close>)
  finally show ?thesis by (simp add: algebra_simps)
qed

lemma block_above:
  assumes "\<not> bit s b" "b < 16"
  shows "mp_matches (maskedPort (s + push_bit b 1) b) p \<longleftrightarrow> bit p b \<and> drop_bit (Suc b) p = drop_bit (Suc b) s"
proof -
  have "drop_bit (Suc b) (Bit_Operations.set_bit b s) = drop_bit (Suc b) s"
    by (rule bit_word_eqI) (auto simp: bit_drop_bit_eq bit_set_bit_iff)
  then show ?thesis
    unfolding maskedPort_matches drop_bit_Suc_cong [of b] add_push_1 [OF assms(1)]
    using assms(2) by (simp add: bit_set_bit_iff)
qed

lemma block_below:
  assumes "bit e b"
  shows "mp_matches (maskedPort (e - push_bit b 1) b) p \<longleftrightarrow> \<not> bit p b \<and> drop_bit (Suc b) p = drop_bit (Suc b) e"
proof -
  have "drop_bit (Suc b) (unset_bit b e) = drop_bit (Suc b) e"
    by (rule bit_word_eqI) (auto simp: bit_drop_bit_eq bit_unset_bit_iff)
  then show ?thesis
    unfolding maskedPort_matches drop_bit_Suc_cong [of b] sub_push_1 [OF assms]
    by (simp add: bit_unset_bit_iff)
qed

section \<open>The order of ports by their highest differing bit\<close>

lemma bit_u16_odd: "bit (x :: u16) n \<longleftrightarrow> odd (unat x div 2 ^ n)"
proof -
  have "bit x n = bit (unat x) n"
    by (auto simp: bit_unsigned_iff dest: bit_imp_le_length)
  then show ?thesis by (simp add: bit_iff_odd)
qed

lemma less_by_bit:
  assumes "\<not> bit (a :: u16) n" "bit b n" "drop_bit (Suc n) a = drop_bit (Suc n) b"
  shows "a < b"
proof -
  have step: "unat x div 2 ^ n = 2 * (unat x div 2 ^ Suc n) + of_bool (bit x n)" for x :: u16
  proof -
    have "unat x div 2 ^ Suc n = unat x div 2 ^ n div 2"
      unfolding power_Suc2 div_mult2_eq ..
    then show ?thesis
      by (simp add: bit_u16_odd flip: mod_2_eq_odd)
  qed
  have "unat a div 2 ^ Suc n = unat b div 2 ^ Suc n"
    using arg_cong [OF assms(3), of unat] by (simp only: unat_drop)
  then have "unat a div 2 ^ n < unat b div 2 ^ n"
    using assms(1,2) step [of a] step [of b] by simp
  then have "unat a < unat b" by (meson div_le_mono not_le)
  then show ?thesis by (simp add: word_less_nat_alt)
qed

lemma highest_differing_bit:
  assumes "(s :: u16) < e"
  shows "LeadingZeros (s XOR e) < 16" "\<not> bit s (15 - LeadingZeros (s XOR e))" "bit e (15 - LeadingZeros (s XOR e))"
    "drop_bit (Suc (15 - LeadingZeros (s XOR e))) s = drop_bit (Suc (15 - LeadingZeros (s XOR e))) e"
proof -
  let ?l = "LeadingZeros (s XOR e)"
  show l: "?l < 16"
    using LeadingZeros_less [of "s XOR e"] assms by (simp add: xor_eq_0)
  have "\<forall>i<?l. bit s (15 - i) = bit e (15 - i)"
    using LeadingZeros_not_bit [of _ "s XOR e"] by (simp add: bit_xor_iff)
  moreover have "16 - ?l = Suc (15 - ?l)" using l by simp
  ultimately show eq: "drop_bit (Suc (15 - ?l)) s = drop_bit (Suc (15 - ?l)) e"
    using port_bits_iff [of ?l s e] l by simp
  have "bit s (15 - ?l) \<noteq> bit e (15 - ?l)"
    using LeadingZeros_bit [of "s XOR e"] l by (simp add: bit_xor_iff)
  moreover have "\<not> (bit s (15 - ?l) \<and> \<not> bit e (15 - ?l))"
    using less_by_bit [OF _ _ eq [symmetric]] assms by (meson order_less_asym)
  ultimately show "\<not> bit s (15 - ?l)" "bit e (15 - ?l)" by auto
qed

lemma less_iff_bit:
  "(a :: u16) < b \<longleftrightarrow> (\<exists>n<16. \<not> bit a n \<and> bit b n \<and> drop_bit (Suc n) a = drop_bit (Suc n) b)"
proof
  assume "a < b"
  from highest_differing_bit [OF this]
  show "\<exists>n<16. \<not> bit a n \<and> bit b n \<and> drop_bit (Suc n) a = drop_bit (Suc n) b"
    by (intro exI [of _ "15 - LeadingZeros (a XOR b)"]) auto
qed (blast intro: less_by_bit)

section \<open>The two halves of a range\<close>

text \<open>
  The blocks that approach the middle bit from the start of the range: the trailing zeros of the
  start are wildcarded, and every 0-bit between them and the middle bit gives a block.
\<close>

definition blocks_above :: "u16 \<Rightarrow> nat \<Rightarrow> u16 \<Rightarrow> bool" where
  "blocks_above s M p \<longleftrightarrow>
     (let tz = TrailingZeros (s OR push_bit M 1) in
      drop_bit tz p = drop_bit tz s \<or>
      (\<exists>b. tz < b \<and> b < M \<and> \<not> bit s b \<and> bit p b \<and> drop_bit (Suc b) p = drop_bit (Suc b) s))"

lemma push_1_bit: "M < 16 \<Longrightarrow> bit (push_bit M 1 :: u16) n \<longleftrightarrow> n = M"
  by (cases "M \<le> n") (auto simp: bit_push_bit_iff bit_1_iff simp del: push_bit_of_1)

lemma blocks_above_iff:
  assumes M: "M < 16" and sM: "\<not> bit s M"
  shows "blocks_above s M p \<longleftrightarrow> drop_bit M p = drop_bit M s \<and> s \<le> p"
proof -
  define x where "x = s OR push_bit M (1 :: u16)"
  define tz where "tz = TrailingZeros x"
  have or_bit: "bit x n \<longleftrightarrow> bit s n \<or> n = M" for n
    unfolding x_def using M by (simp only: bit_or_iff push_1_bit)
  have tzM: "tz \<le> M"
    using TrailingZeros_not_bit [of M x] or_bit [of M] tz_def by (meson not_le)
  have low: "\<not> bit s n" if "n < tz" for n
    using TrailingZeros_not_bit [of n x] that or_bit [of n] tz_def by simp
  have at: "bit s tz" if "tz < M"
    using TrailingZeros_bit [of x] that M or_bit [of tz] by (simp add: tz_def)
  have al: "take_bit tz s = 0"
    by (rule bit_word_eqI) (auto simp: bit_take_bit_iff low)
  have first: "s \<le> p" if "drop_bit tz p = drop_bit tz s"
    using port_range_iff [of "16 - tz" s p] al that tzM M by simp
  have split: "n < tz \<or> tz < n \<and> n < M" if "drop_bit M p = drop_bit M s" "\<not> bit s n" "bit p n" for n
    using at that drop_bit_bit [OF that(1), of n] by (metis linorder_neqE_nat not_le)
  have "s \<le> p \<longleftrightarrow> drop_bit tz p = drop_bit tz s \<or>
      (\<exists>b. tz < b \<and> b < M \<and> \<not> bit s b \<and> bit p b \<and> drop_bit (Suc b) p = drop_bit (Suc b) s)"
    if top: "drop_bit M p = drop_bit M s"
  proof
    assume "s \<le> p"
    then consider "s = p" | n where "n < 16" "\<not> bit s n" "bit p n" "drop_bit (Suc n) s = drop_bit (Suc n) p"
      using less_iff_bit [of s p] by (auto simp: order_le_less)
    then show "drop_bit tz p = drop_bit tz s \<or>
      (\<exists>b. tz < b \<and> b < M \<and> \<not> bit s b \<and> bit p b \<and> drop_bit (Suc b) p = drop_bit (Suc b) s)"
    proof cases
      case (2 n)
      then show ?thesis
        using split [OF top 2(2,3)] drop_bit_coarser [of "Suc n" tz p s] by (metis Suc_leI)
    qed simp
  qed (metis first less_by_bit order_less_imp_le)
  moreover have "drop_bit M p = drop_bit M s" if "blocks_above s M p"
    using that tzM drop_bit_coarser [of _ M p s] unfolding blocks_above_def Let_def x_def [symmetric] tz_def [symmetric]
    by (metis Suc_leI)
  ultimately show ?thesis
    unfolding blocks_above_def Let_def x_def [symmetric] tz_def [symmetric] by blast
qed

lemma drop_bit_not: "drop_bit m (NOT a :: u16) = drop_bit m (NOT b) \<longleftrightarrow> drop_bit m a = drop_bit m b"
proof -
  have "drop_bit m (NOT a) = drop_bit m (NOT b)" if "drop_bit m a = drop_bit m b" for a b :: u16
    by (rule bit_word_eqI) (use drop_bit_bit [OF that] in \<open>auto simp: bit_drop_bit_eq bit_not_iff\<close>)
  from this [of a b] this [of "NOT a" "NOT b"] show ?thesis by auto
qed

lemma not_le_not: "NOT (a :: u16) \<le> NOT b \<longleftrightarrow> b \<le> a"
proof -
  have "NOT b < NOT a \<longleftrightarrow> a < b"
    unfolding less_iff_bit drop_bit_not by (auto simp: bit_not_iff)
  then show ?thesis by (simp add: not_less [symmetric])
qed

lemma drop_bit_between:
  assumes "drop_bit m (a :: u16) = drop_bit m b" "a \<le> p" "p \<le> b"
  shows "drop_bit m p = drop_bit m a"
proof -
  have "unat a div 2 ^ m = unat b div 2 ^ m"
    using arg_cong [OF assms(1), of unat] by (simp only: unat_drop)
  moreover have "unat a div 2 ^ m \<le> unat p div 2 ^ m" "unat p div 2 ^ m \<le> unat b div 2 ^ m"
    using assms(2,3) by (simp_all add: word_le_nat_alt div_le_mono)
  ultimately have "unat (drop_bit m p) = unat (drop_bit m a)" by (simp only: unat_drop)
  then show ?thesis by (simp only: word_unat_eq_iff)
qed

text \<open>The blocks of both sides are the ports between the start and the end.\<close>

lemma halves_iff:
  assumes M: "M < 16" and bits: "\<not> bit s M" "bit e M" and top: "drop_bit (Suc M) s = drop_bit (Suc M) e"
  shows "blocks_above s M p \<or> blocks_above (NOT e) M (NOT p) \<longleftrightarrow> s \<le> p \<and> p \<le> e"
proof -
  have ne: "\<not> bit (NOT e) M" using bits M by (simp add: bit_not_iff)
  have right: "blocks_above (NOT e) M (NOT p) \<longleftrightarrow> drop_bit M p = drop_bit M e \<and> p \<le> e"
    unfolding blocks_above_iff [OF M ne] drop_bit_not not_le_not ..
  have left: "blocks_above s M p \<longleftrightarrow> drop_bit M p = drop_bit M s \<and> s \<le> p"
    by (rule blocks_above_iff [OF M bits(1)])
  have "p < e" if "drop_bit M p = drop_bit M s"
    using that bits top by (intro less_by_bit [of p M e]) (auto simp: drop_bit_Suc_cong [of M p s])
  moreover have "s < p" if "drop_bit M p = drop_bit M e"
    using that bits top by (intro less_by_bit [of s M p]) (auto simp: drop_bit_Suc_cong [of M p e])
  moreover have "drop_bit M p = drop_bit M s \<or> drop_bit M p = drop_bit M e" if "s \<le> p" "p \<le> e"
    using drop_bit_between [OF top that] bits top by (auto simp: drop_bit_Suc_cong [of M p])
  ultimately show ?thesis
    unfolding left right by (meson order_less_imp_le)
qed

lemma whole_block_iff:
  assumes "l < 16" "drop_bit (16 - l) s = drop_bit (16 - l) e"
    and "s AND drop_bit l 0xffff = (0 :: u16)" "NOT e AND drop_bit l 0xffff = (0 :: u16)"
  shows "drop_bit (16 - l) p = drop_bit (16 - l) s \<longleftrightarrow> s \<le> p \<and> p \<le> e"
proof -
  have al: "take_bit (16 - l) s = 0" "take_bit (16 - l) (NOT e) = 0"
    using assms(3,4) by (simp_all only: drop_ffff take_bit_eq_mask)
  have "s \<le> p" if "drop_bit (16 - l) p = drop_bit (16 - l) s"
    using port_range_iff [OF _ al(1), of p] that assms(1) by simp
  moreover have "p \<le> e" if "drop_bit (16 - l) p = drop_bit (16 - l) e"
    using port_range_iff [OF _ al(2), of "NOT p"] that assms(1) by (simp add: drop_bit_not not_le_not)
  ultimately show ?thesis
    using drop_bit_between [OF assms(2), of p] assms(2) by auto
qed

section \<open>The translation of a range\<close>

lemma bex_block_list:
  "(\<exists>m \<in> set ([x] @ map f (filter P [t + 1..<M])). Q m) \<longleftrightarrow> Q x \<or> (\<exists>b. t < b \<and> b < M \<and> P b \<and> Q (f b))"
  by (auto simp: Suc_le_eq)

lemma blocks_above_list:
  assumes "M \<le> 16"
  shows "(\<exists>m \<in> set ([maskedPort s (TrailingZeros (s OR push_bit M 1))] @
        map (\<lambda>b. maskedPort (s + push_bit b 1) b)
          (filter (\<lambda>b. s AND push_bit b 1 = 0) [TrailingZeros (s OR push_bit M 1) + 1..<M])). mp_matches m p) \<longleftrightarrow>
    blocks_above s M p"
proof -
  have "(s AND push_bit b 1 = 0 \<and> mp_matches (maskedPort (s + push_bit b 1) b) p) \<longleftrightarrow>
      (\<not> bit s b \<and> bit p b \<and> drop_bit (Suc b) p = drop_bit (Suc b) s)" if "b < M" for b
    using block_above [of s b p] that assms unfolding and_push_1 by auto
  then show ?thesis
    unfolding bex_block_list blocks_above_def Let_def maskedPort_matches [of s] by meson
qed

lemma blocks_below_list:
  assumes "M \<le> 16"
  shows "(\<exists>m \<in> set ([maskedPort e (TrailingZeros (NOT e OR push_bit M 1))] @
        map (\<lambda>b. maskedPort (e - push_bit b 1) b)
          (filter (\<lambda>b. e AND push_bit b 1 \<noteq> 0) [TrailingZeros (NOT e OR push_bit M 1) + 1..<M])). mp_matches m p) \<longleftrightarrow>
    blocks_above (NOT e) M (NOT p)"
proof -
  have "(e AND push_bit b 1 \<noteq> 0 \<and> mp_matches (maskedPort (e - push_bit b 1) b) p) \<longleftrightarrow>
      (\<not> bit (NOT e) b \<and> bit (NOT p) b \<and> drop_bit (Suc b) p = drop_bit (Suc b) e)" if "b < M" for b
    using block_below [of e b p] that assms unfolding and_push_1 by (auto simp: bit_not_iff)
  then show ?thesis
    unfolding bex_block_list blocks_above_def Let_def maskedPort_matches [of e] drop_bit_not by meson
qed

lemma PortRange_proper:
  assumes se: "start < end'" and nw: "\<not> (start = 0 \<and> (end' = 0 \<or> end' = 0xffff))"
  shows "(\<exists>m \<in> set (PortRangeToMaskedPorts start end'). mp_matches m p) \<longleftrightarrow> start \<le> p \<and> p \<le> end'"
proof -
  define l where "l = LeadingZeros (start XOR end')"
  note hb = highest_differing_bit [OF se, folded l_def]
  have M: "16 - 1 - l = 15 - l" "16 - l = Suc (15 - l)" using hb(1) by simp_all
  have nle: "\<not> end' \<le> start" using se by simp
  show ?thesis
  proof (cases "start AND drop_bit l 0xffff = 0 \<and> NOT end' AND drop_bit l 0xffff = 0")
    case True
    then have "PortRangeToMaskedPorts start end' = [maskedPort start (16 - l)]"
      unfolding PortRangeToMaskedPorts_def Let_def l_def [symmetric] using nw nle by (simp only: if_True if_False simp_thms)
    then show ?thesis
      using whole_block_iff [of l start end' p] True hb(1,4) M(2) by (simp add: maskedPort_matches)
  next
    case False
    have le: "15 - l \<le> 16" by simp
    have "(\<exists>m \<in> set (PortRangeToMaskedPorts start end'). mp_matches m p) \<longleftrightarrow>
        blocks_above start (15 - l) p \<or> blocks_above (NOT end') (15 - l) (NOT p)"
      unfolding PortRangeToMaskedPorts_def Let_def l_def [symmetric] M(1)
      unfolding blocks_below_list [OF le, symmetric]
      unfolding blocks_above_list [OF le, symmetric]
      using nw nle False by (simp only: if_False set_append bex_Un disj_assoc simp_thms)
    then show ?thesis
      using halves_iff [OF _ hb(2-4), of p] by simp
  qed
qed

section \<open>Properties\<close>

text \<open>
  C22.  The masked ports of a range match exactly the ports of the range.  The two special cases are
  those of the code: the range 0 to 0 or 0 to 65535 is the full wildcard, and a range whose end is not
  above its start is the single port \<^verbatim>\<open>start\<close>.
\<close>

theorem PortRangeToMaskedPorts_exact:
  "(\<exists>m \<in> set (PortRangeToMaskedPorts start end'). mp_matches m p) \<longleftrightarrow>
     (if start = 0 \<and> (end' = 0 \<or> end' = 0xffff) then True
      else if end' \<le> start then p = start
      else start \<le> p \<and> p \<le> end')"
proof (cases "start = 0 \<and> (end' = 0 \<or> end' = 0xffff)")
  case True
  have "PortRangeToMaskedPorts start end' = [\<lparr>mp_port = 0, mp_mask = 0\<rparr>]"
    unfolding PortRangeToMaskedPorts_def by (rule if_P [OF True])
  then show ?thesis using True by (simp add: mp_matches_def)
next
  case nw: False
  show ?thesis
  proof (cases "end' \<le> start")
    case True
    have "p AND 0xffff = p" by (rule bit_word_eqI) (simp only: bit_and_iff bit_ffff, simp)
    then have "mp_matches \<lparr>mp_port = start, mp_mask = 0xffff\<rparr> p \<longleftrightarrow> p = start"
      unfolding mp_matches_def MaskedPort.simps by metis
    moreover have "PortRangeToMaskedPorts start end' = [\<lparr>mp_port = start, mp_mask = 0xffff\<rparr>]"
      unfolding PortRangeToMaskedPorts_def if_not_P [OF nw] by (rule if_P [OF True])
    ultimately show ?thesis using True nw by auto
  next
    case False
    then show ?thesis using PortRange_proper [of start end' p] nw by auto
  qed
qed

end
