(* ===== verification/PolicyEntry.thy ===== *)
theory PolicyEntry
  imports PolicyKeyCover
begin

text \<open>
  Priorities, precedences and policy map entries (\<^verbatim>\<open>pkg/policy/types/entry.go\<close>,
  \<^verbatim>\<open>policyentry.go\<close>).  A precedence is a 32-bit word: the inverted 24-bit priority above
  a byte that orders the verdicts of one priority (0 pass, 1 allow, 2-254 redirects, 255 deny).
\<close>

type_synonym ListenerPriority = u8
type_synonym Priority = u32
type_synonym Precedence = u32
type_synonym Tier = u8

datatype Verdict = Allow | Deny | Pass

definition MaxListenerPriority :: u8 where "MaxListenerPriority = 126"

definition precedencePriorityShift :: nat where "precedencePriorityShift = 8"

definition HighestPriority :: Priority where "HighestPriority = 0"

definition LowestPriority :: Priority where "LowestPriority = push_bit 24 1 - 1"

definition precedenceByteMask :: Precedence where "precedenceByteMask = 255"

definition precedenceByteDeny :: Precedence where "precedenceByteDeny = 255"

definition precedenceByteAllow :: Precedence where "precedenceByteAllow = 1"

definition precedenceBytePass :: Precedence where "precedenceBytePass = 0"

definition MaxPrecedence :: Precedence where "MaxPrecedence = NOT 0"

definition MaxDenyPrecedence :: Precedence where "MaxDenyPrecedence = MaxPrecedence"

definition MaxBasePrecedence :: Precedence where
  "MaxBasePrecedence = MaxPrecedence AND NOT precedenceByteMask"

definition MaxAllowPrecedence :: Precedence where
  "MaxAllowPrecedence = (MaxPrecedence AND NOT precedenceByteMask) OR precedenceByteAllow"

lemmas precedence_consts = precedencePriorityShift_def precedenceByteMask_def precedenceByteDeny_def
  precedenceByteAllow_def precedenceBytePass_def MaxListenerPriority_def

section \<open>Priorities\<close>

text \<open>A zero \<^verbatim>\<open>to\<close> is a division by zero, which panics (\<^verbatim>\<open>None\<close>).\<close>

definition Roundup :: "'a::len word \<Rightarrow> 'a word \<Rightarrow> 'a word option" where
  "Roundup n to = (if to = 0 then None else let r = n mod to in Some (if r \<noteq> 0 then n + (to - r) else n))"

definition IncrementWithRoundup :: "Priority \<Rightarrow> Priority \<Rightarrow> (Priority \<times> bool) option" where
  "IncrementWithRoundup p to =
     (case Roundup (p + 1) to of
        None \<Rightarrow> None
      | Some np \<Rightarrow> Some (if np > LowestPriority \<or> np < p then (p, False) else (np, True)))"

definition Priority_Add :: "Priority \<Rightarrow> Priority \<Rightarrow> Priority \<times> bool" where
  "Priority_Add p add =
     (let np = p + add in if np > LowestPriority \<or> np < p then (p, False) else (np, True))"

definition toBasePrecedence :: "Priority \<Rightarrow> Precedence" where
  "toBasePrecedence priority =
     (let priority = (if priority > LowestPriority then LowestPriority else priority)
      in push_bit precedencePriorityShift (LowestPriority - priority))"

definition ToPassPrecedence :: "Priority \<Rightarrow> Precedence" where
  "ToPassPrecedence priority = toBasePrecedence priority"

definition ToAllowPrecedence :: "Priority \<Rightarrow> Precedence" where
  "ToAllowPrecedence priority = toBasePrecedence priority OR precedenceByteAllow"

definition ToDenyPrecedence :: "Priority \<Rightarrow> Precedence" where
  "ToDenyPrecedence priority = toBasePrecedence priority OR precedenceByteDeny"

section \<open>Precedences\<close>

definition Precedence_WithListenerPriority :: "Precedence \<Rightarrow> ListenerPriority \<Rightarrow> Precedence" where
  "Precedence_WithListenerPriority p priority =
     (let p = (p AND NOT precedenceByteMask) OR precedenceByteAllow
      in if priority > 0
         then p + (precedenceByteMask - 1 - ucast (min priority MaxListenerPriority))
         else p + 1)"

definition ToPrecedenceWithListenerPriority ::
  "Priority \<Rightarrow> bool \<Rightarrow> bool \<Rightarrow> ListenerPriority \<Rightarrow> Precedence"
where
  "ToPrecedenceWithListenerPriority p deny redirect lp =
     (let precedence = toBasePrecedence p
      in if deny then precedence OR precedenceByteDeny
         else if \<not> redirect then precedence OR precedenceByteAllow
         else Precedence_WithListenerPriority precedence lp)"

definition Precedence_IsDeny :: "Precedence \<Rightarrow> bool" where
  "Precedence_IsDeny p \<longleftrightarrow> p AND precedenceByteMask = precedenceByteDeny"

definition Precedence_IsPass :: "Precedence \<Rightarrow> bool" where
  "Precedence_IsPass p \<longleftrightarrow> p AND precedenceByteMask = precedenceBytePass"

definition Precedence_IsAllow :: "Precedence \<Rightarrow> bool" where
  "Precedence_IsAllow p \<longleftrightarrow> \<not> Precedence_IsDeny p \<and> \<not> Precedence_IsPass p"

definition AllowPrecedence :: "Precedence \<Rightarrow> Precedence" where
  "AllowPrecedence p = (p AND NOT precedenceByteMask) OR precedenceByteAllow"

definition ProxyPortPrecedenceMayDiffer :: "Precedence \<Rightarrow> Precedence \<Rightarrow> bool" where
  "ProxyPortPrecedenceMayDiffer p o' \<longleftrightarrow>
     p XOR o' \<le> precedenceByteMask \<and> Precedence_IsDeny p = Precedence_IsDeny o'"

definition Precedence_Priority :: "Precedence \<Rightarrow> Priority" where
  "Precedence_Priority p = LowestPriority - drop_bit precedencePriorityShift p"

definition Precedence_ListenerPriority :: "Precedence \<Rightarrow> ListenerPriority" where
  "Precedence_ListenerPriority p = ucast (precedenceByteMask - (p AND precedenceByteMask))"

section \<open>Entries\<close>

record MapStateEntry =
  mse_Precedence :: Precedence
  mse_ProxyPort :: u16
  mse_invalid :: bool
  mse_Cookie :: u32

definition Invalidate :: "MapStateEntry \<Rightarrow> MapStateEntry" where
  "Invalidate e = e\<lparr>mse_invalid := True\<rparr>"

definition IsValid :: "MapStateEntry \<Rightarrow> bool" where
  "IsValid e \<longleftrightarrow> \<not> mse_invalid e"

definition MapStateEntry_IsDeny :: "MapStateEntry \<Rightarrow> bool" where
  "MapStateEntry_IsDeny e \<longleftrightarrow> Precedence_IsDeny (mse_Precedence e)"

definition MapStateEntry_IsAllow :: "MapStateEntry \<Rightarrow> bool" where
  "MapStateEntry_IsAllow e \<longleftrightarrow> Precedence_IsAllow (mse_Precedence e)"

definition IsRedirectEntry :: "MapStateEntry \<Rightarrow> bool" where
  "IsRedirectEntry e \<longleftrightarrow> mse_ProxyPort e \<noteq> 0"

definition MapStateEntry_WithListenerPriority :: "MapStateEntry \<Rightarrow> ListenerPriority \<Rightarrow> MapStateEntry" where
  "MapStateEntry_WithListenerPriority e priority =
     (if mse_ProxyPort e \<noteq> 0
      then e\<lparr>mse_Precedence := Precedence_WithListenerPriority (mse_Precedence e) priority\<rparr>
      else e)"

definition NewMapStateEntry :: "Priority \<Rightarrow> bool \<Rightarrow> u16 \<Rightarrow> ListenerPriority \<Rightarrow> MapStateEntry" where
  "NewMapStateEntry priority deny proxyPort listenerPriority =
     (let base = toBasePrecedence priority;
          precedence = (if deny then base OR precedenceByteDeny else base OR precedenceByteAllow);
          proxyPort = (if deny then 0 else proxyPort);
          listenerPriority = (if deny then 0 else listenerPriority)
      in MapStateEntry_WithListenerPriority
           \<lparr>mse_Precedence = precedence, mse_ProxyPort = proxyPort, mse_invalid = False, mse_Cookie = 0\<rparr>
           listenerPriority)"

definition AllowEntry :: MapStateEntry where
  "AllowEntry = \<lparr>mse_Precedence = MaxAllowPrecedence, mse_ProxyPort = 0, mse_invalid = False, mse_Cookie = 0\<rparr>"

definition DenyEntry :: MapStateEntry where
  "DenyEntry = \<lparr>mse_Precedence = MaxDenyPrecedence, mse_ProxyPort = 0, mse_invalid = False, mse_Cookie = 0\<rparr>"

definition InvalidEntry :: MapStateEntry where
  "InvalidEntry = \<lparr>mse_Precedence = MaxDenyPrecedence, mse_ProxyPort = 0, mse_invalid = True, mse_Cookie = 0\<rparr>"

definition WithPriority :: "MapStateEntry \<Rightarrow> Priority \<Rightarrow> MapStateEntry" where
  "WithPriority e priority =
     e\<lparr>mse_Precedence := (mse_Precedence e AND (push_bit precedencePriorityShift 1 - 1)) OR
                          push_bit precedencePriorityShift (LowestPriority - priority)\<rparr>"

definition WithDeny :: "MapStateEntry \<Rightarrow> bool \<Rightarrow> MapStateEntry" where
  "WithDeny e isDeny =
     (if isDeny then
        if \<not> MapStateEntry_IsDeny e
        then e\<lparr>mse_Precedence := (mse_Precedence e AND NOT precedenceByteMask) OR precedenceByteDeny\<rparr>
        else e
      else if \<not> MapStateEntry_IsAllow e
      then e\<lparr>mse_Precedence := (mse_Precedence e AND NOT precedenceByteMask) OR precedenceByteAllow\<rparr>
      else e)"

text \<open>A zero proxy port panics (\<^verbatim>\<open>None\<close>).\<close>

definition WithProxyPort :: "MapStateEntry \<Rightarrow> u16 \<Rightarrow> MapStateEntry option" where
  "WithProxyPort e proxyPort =
     (if proxyPort = 0 then None
      else Some (e\<lparr>mse_ProxyPort := proxyPort,
                   mse_Precedence := (mse_Precedence e AND NOT precedenceByteMask) OR precedenceByteAllow\<rparr>))"

definition MapStateEntry_Merge :: "MapStateEntry \<Rightarrow> MapStateEntry \<Rightarrow> MapStateEntry" where
  "MapStateEntry_Merge e entry =
     (if MapStateEntry_IsAllow e \<and> MapStateEntry_IsAllow entry \<and> IsRedirectEntry entry \<and>
         (mse_Precedence entry > mse_Precedence e \<or>
          mse_Precedence entry = mse_Precedence e \<and> mse_ProxyPort entry < mse_ProxyPort e)
      then e\<lparr>mse_ProxyPort := mse_ProxyPort entry, mse_Precedence := mse_Precedence entry\<rparr>
      else e)"

end
