(* ===== verification/Precedence.thy ===== *)
theory Precedence
  imports PolicyEntry
begin

text \<open>
  The order of precedences: comparing two precedences as numbers compares the priorities first
  (a lower priority number wins) and the verdicts of one priority next.
\<close>

lemma LowestPriority_eq: "LowestPriority = 0xFFFFFF"
  by (simp add: LowestPriority_def)

lemma inverted_less: "p \<le> LowestPriority \<Longrightarrow> LowestPriority - p < 2 ^ 24"
proof -
  assume "p \<le> LowestPriority"
  then have "unat (LowestPriority - p) \<le> unat LowestPriority"
    by (simp add: unat_sub)
  then show ?thesis by (simp add: word_less_nat_alt LowestPriority_eq)
qed

lemma inverted_less_iff:
  "p \<le> LowestPriority \<Longrightarrow> q \<le> LowestPriority \<Longrightarrow> LowestPriority - p < LowestPriority - q \<longleftrightarrow> q < p"
  by (simp add: word_less_nat_alt word_le_nat_alt unat_sub) linarith

lemma inverted_eq_iff: "LowestPriority - p = LowestPriority - q \<longleftrightarrow> p = q"
  by auto

lemma pack_or_add: "c < 256 \<Longrightarrow> push_bit 8 (q :: u32) OR c = push_bit 8 q + c"
proof -
  assume c: "c < 256"
  have "push_bit 8 q AND c = 0"
    by (rule bit_word_eqI) (simp only: bit_and_iff bit_push_bit_iff, auto dest: small_bit [OF c])
  then show ?thesis by (simp add: disjunctive_add_eq_or)
qed

text \<open>The priority part and the verdict byte of every precedence the code builds.\<close>

lemma base_precedence: "p \<le> LowestPriority \<Longrightarrow> toBasePrecedence p = push_bit 8 (LowestPriority - p) OR 0"
  by (simp add: toBasePrecedence_def precedence_consts Let_def not_less)

lemma toBase_or:
  "p \<le> LowestPriority \<Longrightarrow> toBasePrecedence p OR c = push_bit 8 (LowestPriority - p) OR c"
  by (simp add: base_precedence)

definition listener_byte :: "ListenerPriority \<Rightarrow> u32" where
  "listener_byte lp = (if lp = 0 then 2 else 255 - ucast (min lp 126))"

definition verdict_byte :: "bool \<Rightarrow> bool \<Rightarrow> ListenerPriority \<Rightarrow> u32" where
  "verdict_byte deny redirect lp = (if deny then 255 else if \<not> redirect then 1 else listener_byte lp)"

lemma unat_ucast_8_32: "unat (ucast (x :: u8) :: u32) = unat x"
proof -
  have "unat x < 2 ^ 8" using unsigned_less [of x] by simp
  then show ?thesis by (simp only: unsigned_ucast_eq take_bit_eq_mod) simp
qed

lemma ucast_min_126: "unat (ucast (min (lp :: u8) 126) :: u32) = min (unat lp) 126"
  unfolding unat_ucast_8_32 by (auto simp: min_def word_le_nat_alt)

lemma listener_byte_unat: "unat (listener_byte lp) = (if lp = 0 then 2 else 255 - min (unat lp) 126)"
proof (cases "lp = 0")
  case False
  have "ucast (min lp 126) \<le> (255 :: u32)" by (simp add: word_le_nat_alt ucast_min_126)
  then show ?thesis using False by (simp add: listener_byte_def unat_sub ucast_min_126)
qed (simp add: listener_byte_def)

lemma listener_byte_range: "1 < listener_byte lp" "listener_byte lp < 255"
  using listener_byte_unat [of lp] unat_gt_0 [of lp]
  by (auto simp: word_less_nat_alt split: if_splits)

lemma verdict_byte_less: "verdict_byte d r lp < 256"
  using listener_byte_range(2) [of lp] by (auto simp: verdict_byte_def word_less_nat_alt)

lemma WithListenerPriority_pack:
  "Precedence_WithListenerPriority p lp = push_bit 8 (drop_bit 8 p) OR listener_byte lp"
proof -
  have one: "push_bit 8 (drop_bit 8 p) OR 1 = push_bit 8 (drop_bit 8 p) + 1"
    by (rule pack_or_add) simp
  have "(lp > 0) = (lp \<noteq> 0)" by (simp add: word_neq_0_conv)
  moreover have "1 + (255 - 1 - ucast (min lp 126)) = (255 - ucast (min lp 126) :: u32)" by simp
  ultimately have "Precedence_WithListenerPriority p lp = push_bit 8 (drop_bit 8 p) + listener_byte lp"
    unfolding Precedence_WithListenerPriority_def Let_def precedence_consts and_not_255 one listener_byte_def
    by (simp add: add.assoc)
  moreover have "listener_byte lp < 256"
    using listener_byte_range(2) [of lp] by (simp add: word_less_nat_alt)
  ultimately show ?thesis by (simp only: pack_or_add)
qed

lemma ToPrecedence_pack:
  assumes "p \<le> LowestPriority"
  shows "ToPrecedenceWithListenerPriority p d r lp = push_bit 8 (LowestPriority - p) OR verdict_byte d r lp"
proof -
  have "drop_bit 8 (push_bit 8 (LowestPriority - p) OR 0) = LowestPriority - p"
    by (rule pack_high [OF inverted_less [OF assms]]) simp
  then show ?thesis
    using assms
    by (simp add: ToPrecedenceWithListenerPriority_def Let_def toBase_or precedence_consts verdict_byte_def
        WithListenerPriority_pack base_precedence)
qed

lemma ToPrecedence_parts:
  assumes "p \<le> LowestPriority"
  shows "drop_bit 8 (ToPrecedenceWithListenerPriority p d r lp) = LowestPriority - p"
    and "ToPrecedenceWithListenerPriority p d r lp AND 255 = verdict_byte d r lp"
  unfolding ToPrecedence_pack [OF assms]
  by (rule pack_high [OF inverted_less [OF assms] verdict_byte_less], rule pack_low [OF verdict_byte_less])

section \<open>Order and round trips\<close>

definition verdict_rank :: "bool \<Rightarrow> bool \<Rightarrow> ListenerPriority \<Rightarrow> nat" where
  "verdict_rank deny redirect lp =
     (if deny then 255 else if \<not> redirect then 1 else if lp = 0 then 2 else 255 - min (unat lp) 126)"

lemma verdict_byte_rank: "unat (verdict_byte d r lp) = verdict_rank d r lp"
  by (simp add: verdict_byte_def verdict_rank_def listener_byte_unat)

lemma verdict_byte_255: "verdict_byte d r lp = 255 \<longleftrightarrow> d"
  using listener_byte_range(2) [of lp] by (auto simp: verdict_byte_def)

lemma verdict_byte_0: "verdict_byte d r lp \<noteq> 0"
  using listener_byte_range(1) [of lp] by (auto simp: verdict_byte_def word_less_nat_alt)

text \<open>
  C23.  For priorities up to the lowest one, the numeric order of precedences is the intended order of
  rules: a smaller priority number
  wins; at equal priority a deny wins over every allow, a redirect wins over a plain allow, and among
  redirects the smaller listener priority (0 meaning none, the last) wins.
\<close>

theorem precedence_order:
  assumes "p \<le> LowestPriority" "q \<le> LowestPriority"
  shows "ToPrecedenceWithListenerPriority p d r lp < ToPrecedenceWithListenerPriority q d' r' lp' \<longleftrightarrow>
    q < p \<or> q = p \<and> verdict_rank d r lp < verdict_rank d' r' lp'"
  unfolding parts_less_iff [of "ToPrecedenceWithListenerPriority p d r lp"] ToPrecedence_parts [OF assms(1)]
    ToPrecedence_parts [OF assms(2)] inverted_eq_iff inverted_less_iff [OF assms] verdict_byte_rank [symmetric]
    word_less_nat_alt [of "verdict_byte _ _ _"]
  by auto

theorem precedence_order_witness:
  "ToPrecedenceWithListenerPriority 5 False True 0 < ToPrecedenceWithListenerPriority 5 False True 100 \<and>
   ToPrecedenceWithListenerPriority 5 True False 0 < ToPrecedenceWithListenerPriority 4 False False 0"
  using precedence_order [of 5 5 False True 0 False True 100] precedence_order [of 5 4 True False 0 False False 0]
  by (simp add: LowestPriority_eq verdict_rank_def)

text \<open>
  C29.  The priority and the verdict of the precedence of a priority up to the lowest one can be read back.
\<close>

theorem precedence_roundtrip:
  assumes "p \<le> LowestPriority"
  shows "Precedence_Priority (ToPrecedenceWithListenerPriority p d r lp) = p \<and>
    (Precedence_IsDeny (ToPrecedenceWithListenerPriority p d r lp) \<longleftrightarrow> d) \<and>
    (Precedence_IsAllow (ToPrecedenceWithListenerPriority p d r lp) \<longleftrightarrow> \<not> d) \<and>
    Precedence_Priority (ToDenyPrecedence p) = p \<and> Precedence_IsDeny (ToDenyPrecedence p) \<and>
    Precedence_Priority (ToPassPrecedence p) = p \<and> Precedence_IsPass (ToPassPrecedence p)"
proof -
  have deny: "ToDenyPrecedence p = ToPrecedenceWithListenerPriority p True False 0"
    by (simp add: ToDenyPrecedence_def ToPrecedenceWithListenerPriority_def Let_def)
  have pass: "ToPassPrecedence p = push_bit 8 (LowestPriority - p) OR 0"
    using assms by (simp add: ToPassPrecedence_def base_precedence)
  have "drop_bit 8 (ToPassPrecedence p) = LowestPriority - p" "ToPassPrecedence p AND 255 = 0"
    unfolding pass by (rule pack_high [OF inverted_less [OF assms]], simp) (rule pack_low, simp)
  then show ?thesis
    unfolding deny
    using ToPrecedence_parts [OF assms] verdict_byte_255 verdict_byte_0
    by (simp add: Precedence_Priority_def Precedence_IsDeny_def Precedence_IsAllow_def Precedence_IsPass_def
        precedence_consts)
qed

theorem precedence_roundtrip_witness:
  "Precedence_Priority (ToPrecedenceWithListenerPriority 7 True False 0) = 7"
  using precedence_roundtrip [of 7 True False 0] by (simp add: LowestPriority_eq)

lemma Roundup_unat:
  fixes n to :: "'a::len word"
  assumes "to \<noteq> 0" "unat n + unat to < 2 ^ LENGTH('a)"
  shows "\<exists>m. Roundup n to = Some m \<and> n \<le> m \<and> unat to dvd unat m \<and> unat m < unat n + unat to"
proof (cases "n mod to = 0")
  case True
  then have "unat to dvd unat n" by (metis unat_mod_distrib unat_0 mod_0_imp_dvd)
  then show ?thesis using assms True by (simp add: Roundup_def unat_gt_0)
next
  case False
  define r where "r = unat n mod unat to"
  have r: "unat (n mod to) = r" by (simp add: r_def unat_mod_distrib)
  have rpos: "0 < r" using False r unat_gt_0 by metis
  have rlt: "r < unat to" using assms(1) by (simp add: r_def unat_gt_0)
  have "n mod to \<le> to" using r rlt by (simp add: word_le_nat_alt)
  then have "unat (to - n mod to) = unat to - r" by (simp add: unat_sub r)
  then have sum: "unat (n + (to - n mod to)) = unat n + (unat to - r)"
    using assms(2) by (simp add: unat_word_ariths)
  moreover have "unat to dvd unat n + (unat to - r)"
  proof -
    have "unat n + (unat to - r) = (unat n div unat to + 1) * unat to"
      using rlt div_mult_mod_eq [of "unat n" "unat to"] unfolding r_def distrib_right by linarith
    then show ?thesis by simp
  qed
  ultimately show ?thesis
    using assms False rpos rlt by (auto simp: Roundup_def Let_def word_le_nat_alt)
qed

text \<open>
  C32.  Incrementing a valid priority, rounding to a valid unit other than 0, never leaves the range of
  priorities: it either reports
  failure and keeps the priority, or returns a greater multiple of the unit that is still a valid
  priority.
\<close>

theorem IncrementWithRoundup_bounds:
  assumes "p \<le> LowestPriority" "to \<noteq> 0" "to \<le> LowestPriority"
  shows "\<exists>np ok. IncrementWithRoundup p to = Some (np, ok) \<and> np \<le> LowestPriority \<and>
    (if ok then p < np \<and> unat to dvd unat np else np = p)"
proof -
  have p: "unat p \<le> 0xFFFFFF" and to: "unat to \<le> 0xFFFFFF"
    using assms by (simp_all add: LowestPriority_eq word_le_nat_alt)
  have p1: "unat (p + 1) = unat p + 1" using p by (simp add: unat_word_ariths)
  obtain m where m: "Roundup (p + 1) to = Some m" "p + 1 \<le> m" "unat to dvd unat m"
    using Roundup_unat [OF assms(2), of "p + 1"] p1 p to by auto
  have "p < m" using m(2) p1 by (simp add: word_le_nat_alt word_less_nat_alt)
  then show ?thesis
    using m assms(1) by (auto simp: IncrementWithRoundup_def not_less)
qed

theorem IncrementWithRoundup_bounds_witness:
  "\<exists>np ok. IncrementWithRoundup 1005 1000 = Some (np, ok) \<and> np \<le> LowestPriority"
  using IncrementWithRoundup_bounds [of 1005 1000] by (auto simp: LowestPriority_eq)

end
