(* ===== verification/Identity.thy ===== *)
theory Identity
  imports PolicyKey
begin

text \<open>
  Numeric identities, cluster identifiers and identity aggregation
  (\<^verbatim>\<open>pkg/identity/numericidentity.go\<close>, \<^verbatim>\<open>pkg/clustermesh/types\<close>,
  \<^verbatim>\<open>pkg/policy/aggregate.go\<close>).  \<^verbatim>\<open>math.Log2\<close> of a power of two is exact; the model
  takes the integer part through the leading zeros.  For the maximum 32-bit configuration value the
  argument wraps to 0, where Go's conversion of the result is unspecified; the supported values are
  255 and 511.
\<close>

record ClusterInfo =
  ci_ID :: u32
  ci_MaxConnectedClusters :: u32

definition Bitlength :: u32 where "Bitlength = 24"

definition MinimalIdentity :: u32 where "MinimalIdentity = 256"

definition UserReservedNumericIdentity :: NumericIdentity where "UserReservedNumericIdentity = 128"

definition IdentityScopeMask :: NumericIdentity where "IdentityScopeMask = 0xFF000000"

definition IdentityScopeLocal :: NumericIdentity where "IdentityScopeLocal = push_bit 24 1"

definition IdentityScopeRemoteNode :: NumericIdentity where "IdentityScopeRemoteNode = push_bit 24 2"

definition IdentityUnknown :: NumericIdentity where "IdentityUnknown = 0"

definition ReservedIdentityAggregateCluster :: NumericIdentity where "ReservedIdentityAggregateCluster = 11"

definition ReservedIdentityAggregateClusterMesh :: NumericIdentity where
  "ReservedIdentityAggregateClusterMesh = 12"

definition ReservedIdentityAggregateWorld :: NumericIdentity where "ReservedIdentityAggregateWorld = 13"

definition ReservedIdentityAggregateRemoteNode :: NumericIdentity where
  "ReservedIdentityAggregateRemoteNode = 14"

lemmas identity_consts = IdentityUnknown_def ReservedIdentityAggregateCluster_def
  ReservedIdentityAggregateClusterMesh_def ReservedIdentityAggregateWorld_def
  ReservedIdentityAggregateRemoteNode_def

definition InitClusterIDMax :: "ClusterInfo \<Rightarrow> u32 option" where
  "InitClusterIDMax c =
     (if ci_MaxConnectedClusters c = 255 \<or> ci_MaxConnectedClusters c = 511
      then Some (ci_MaxConnectedClusters c) else None)"

definition GetClusterIDBits :: "ClusterInfo \<Rightarrow> u32" where
  "GetClusterIDBits c = of_nat (31 - LeadingZeros (ci_MaxConnectedClusters c + 1))"

definition GetClusterIDShift :: "ClusterInfo \<Rightarrow> u32" where
  "GetClusterIDShift c = Bitlength - GetClusterIDBits c"

definition MinimalAllocationIdentityFor :: "ClusterInfo \<Rightarrow> u32 \<Rightarrow> u32" where
  "MinimalAllocationIdentityFor c clusterID =
     (if clusterID > 0 then push_bit (unat (GetClusterIDShift c)) 1 * clusterID else MinimalIdentity)"

definition MinimalAllocationIdentity :: "ClusterInfo \<Rightarrow> u32" where
  "MinimalAllocationIdentity c = MinimalAllocationIdentityFor c (ci_ID c)"

definition MaximumAllocationIdentityFor :: "ClusterInfo \<Rightarrow> u32 \<Rightarrow> u32" where
  "MaximumAllocationIdentityFor c clusterID = push_bit (unat (GetClusterIDShift c)) 1 * (clusterID + 1) - 1"

definition MaximumAllocationIdentity :: "ClusterInfo \<Rightarrow> u32" where
  "MaximumAllocationIdentity c = MaximumAllocationIdentityFor c (ci_ID c)"

definition ValidateClusterID :: "u32 \<Rightarrow> u32 \<Rightarrow> bool" where
  "ValidateClusterID clusterIDMax clusterID \<longleftrightarrow> clusterID \<noteq> 0 \<and> \<not> clusterID > clusterIDMax"

definition ClusterID :: "NumericIdentity \<Rightarrow> ClusterInfo \<Rightarrow> u32" where
  "ClusterID nid cinfo = drop_bit (unat (GetClusterIDShift cinfo)) nid AND ci_MaxConnectedClusters cinfo"

definition Scope :: "NumericIdentity \<Rightarrow> NumericIdentity" where
  "Scope nid = nid AND IdentityScopeMask"

definition HasLocalScope :: "NumericIdentity \<Rightarrow> bool" where
  "HasLocalScope nid \<longleftrightarrow> Scope nid = IdentityScopeLocal"

definition HasRemoteNodeScope :: "NumericIdentity \<Rightarrow> bool" where
  "HasRemoteNodeScope nid \<longleftrightarrow> Scope nid = IdentityScopeRemoteNode"

definition IsUserReservedIdentity :: "NumericIdentity \<Rightarrow> bool" where
  "IsUserReservedIdentity nid \<longleftrightarrow> nid \<ge> UserReservedNumericIdentity \<and> nid < MinimalIdentity"

section \<open>Aggregation\<close>

definition aggregateFor :: "NumericIdentity \<Rightarrow> ClusterInfo \<Rightarrow> NumericIdentity" where
  "aggregateFor nid cinfo =
     (if nid = IdentityUnknown \<or> nid = ReservedIdentityAggregateCluster \<or>
         nid = ReservedIdentityAggregateClusterMesh \<or> nid = ReservedIdentityAggregateWorld \<or>
         nid = ReservedIdentityAggregateRemoteNode then nid
      else if nid < 100 then IdentityUnknown
      else if Scope nid = IdentityScopeRemoteNode then ReservedIdentityAggregateRemoteNode
      else if Scope nid = IdentityScopeLocal then ReservedIdentityAggregateWorld
      else if ClusterID nid cinfo = ci_ID cinfo then ReservedIdentityAggregateCluster
      else ReservedIdentityAggregateClusterMesh)"

definition aggregates :: "NumericIdentity \<Rightarrow> NumericIdentity \<Rightarrow> ClusterInfo \<Rightarrow> bool" where
  "aggregates agg child cinfo \<longleftrightarrow> agg \<noteq> child \<and> aggregateFor child cinfo = agg"

definition isAggregate :: "NumericIdentity \<Rightarrow> ClusterInfo \<Rightarrow> bool" where
  "isAggregate nid cinfo \<longleftrightarrow> nid = aggregateFor nid cinfo"

definition AllAggregates :: "NumericIdentity list" where
  "AllAggregates =
     [IdentityUnknown, ReservedIdentityAggregateRemoteNode, ReservedIdentityAggregateWorld,
      ReservedIdentityAggregateCluster, ReservedIdentityAggregateClusterMesh]"

lemma aggregateFor_in: "aggregateFor nid cinfo \<in> set AllAggregates"
  by (simp add: aggregateFor_def AllAggregates_def)

lemma aggregateFor_fix: "nid \<in> set AllAggregates \<Longrightarrow> aggregateFor nid cinfo = nid"
  by (auto simp: aggregateFor_def AllAggregates_def)

lemma aggregateFor_idem [simp]: "aggregateFor (aggregateFor nid cinfo) cinfo = aggregateFor nid cinfo"
  by (rule aggregateFor_fix [OF aggregateFor_in])

lemma isAggregate_iff: "isAggregate nid cinfo \<longleftrightarrow> nid \<in> set AllAggregates"
  unfolding isAggregate_def using aggregateFor_in [of nid cinfo] aggregateFor_fix [of nid cinfo] by metis

section \<open>Allocation ranges\<close>

lemma cluster_shift:
  "ci_MaxConnectedClusters c = 255 \<Longrightarrow> GetClusterIDShift c = 16"
  "ci_MaxConnectedClusters c = 511 \<Longrightarrow> GetClusterIDShift c = 15"
proof -
  have "LeadingZeros (0x100 :: u32) = 23" "LeadingZeros (0x200 :: u32) = 22" by code_simp+
  then show "ci_MaxConnectedClusters c = 255 \<Longrightarrow> GetClusterIDShift c = 16"
    "ci_MaxConnectedClusters c = 511 \<Longrightarrow> GetClusterIDShift c = 15"
    by (simp_all add: GetClusterIDShift_def GetClusterIDBits_def Bitlength_def)
qed

lemma small_scope: "unat nid < 2 ^ 24 \<Longrightarrow> Scope nid = 0"
proof (rule bit_word_eqI)
  fix n assume small: "unat nid < 2 ^ 24"
  have "take_bit 24 nid = nid"
    unfolding word_unat_eq_iff unsigned_take_bit_eq by (rule take_bit_nat_eq_self [OF small])
  then have "n < 24" if "bit nid n" using that bit_take_bit_iff [of 24 nid n] by simp
  moreover have "\<not> bit (0xFF000000 :: u32) n" if "n < 24"
  proof -
    have "(0xFF000000 :: u32) = push_bit 24 (mask 8)" by code_simp
    then show ?thesis using that by (simp only: bit_push_bit_iff) simp
  qed
  ultimately show "bit (Scope nid) n = bit 0 n"
    by (auto simp: Scope_def IdentityScopeMask_def bit_and_iff)
qed

text \<open>The identities from one allocation bound to the other, as natural numbers.\<close>

lemma allocation_nat:
  assumes s: "unat (GetClusterIDShift c) = s" "7 \<le> s" "s \<le> 16" and k: "unat k < 2 ^ (24 - s)"
    and lo: "MinimalAllocationIdentityFor c k \<le> nid" and hi: "nid \<le> MaximumAllocationIdentityFor c k"
  shows "unat k * 2 ^ s \<le> unat nid" "unat nid < (unat k + 1) * 2 ^ s" "100 \<le> unat nid" "unat nid < 2 ^ 24"
proof -
  have p: "unat (push_bit s 1 :: u32) = 2 ^ s"
  proof -
    have "(2::nat) ^ s < 2 ^ 32" using s(3) by (intro power_strict_increasing) simp_all
    then show ?thesis using s(3) by (simp only: unsigned_push_bit_eq) (simp add: take_bit_nat_eq_self)
  qed
  have "(unat k + 1) * 2 ^ s \<le> 2 ^ (24 - s) * 2 ^ s"
    using k by (intro mult_right_mono) simp_all
  also have "\<dots> = 2 ^ 24" using s(3) by (simp flip: power_add)
  finally have k1: "(unat k + 1) * 2 ^ s \<le> 2 ^ 24" .
  have "unat k + 1 \<le> (unat k + 1) * 2 ^ s"
    using mult_le_mono2 [of 1 "2 ^ s" "unat k + 1"] by simp
  with k1 have uk: "unat (k + 1) = unat k + 1" by (simp add: unat_word_ariths)
  have prod: "unat (push_bit s 1 * (k + 1)) = (unat k + 1) * 2 ^ s"
    using k1 unfolding unat_word_ariths(2) p uk by (simp add: mult.commute)
  have pos: "0 < (unat k + 1) * 2 ^ s" by simp
  have "push_bit s 1 * (k + 1) \<noteq> 0"
    using prod pos by (metis less_irrefl unat_0)
  then have "unat (push_bit s 1 * (k + 1) - 1) = (unat k + 1) * 2 ^ s - 1"
    by (subst unat_minus_one) (simp_all only: prod not_False_eq_True)
  then have "unat nid \<le> (unat k + 1) * 2 ^ s - 1"
    using hi unfolding MaximumAllocationIdentityFor_def s(1) word_le_nat_alt by simp
  then show less: "unat nid < (unat k + 1) * 2 ^ s" using pos by linarith
  then show "unat nid < 2 ^ 24" using k1 by linarith
  have prod0: "unat (push_bit s 1 * k) = unat k * 2 ^ s"
    using k1 unfolding unat_word_ariths(2) p by (simp add: mult.commute)
  show block: "unat k * 2 ^ s \<le> unat nid"
    using lo prod0 unfolding MinimalAllocationIdentityFor_def s(1) word_le_nat_alt
    by (cases "k = 0") (simp_all add: word_neq_0_conv)
  show "100 \<le> unat nid"
  proof (cases "k = 0")
    case True
    then show ?thesis
      using lo by (simp add: MinimalAllocationIdentityFor_def MinimalIdentity_def word_le_nat_alt)
  next
    case False
    have "(2::nat) ^ 7 \<le> 2 ^ s" using s(2) by (rule power_increasing) simp
    also have "\<dots> \<le> unat k * 2 ^ s" using False unat_gt_0 [of k] by (simp add: Suc_le_eq)
    finally show ?thesis using block by simp
  qed
qed

lemma allocation_cluster:
  assumes max: "ci_MaxConnectedClusters c = 255 \<or> ci_MaxConnectedClusters c = 511" and k: "k \<le> ci_MaxConnectedClusters c"
    and lo: "MinimalAllocationIdentityFor c k \<le> nid" and hi: "nid \<le> MaximumAllocationIdentityFor c k"
  shows "ClusterID nid c = k" "100 \<le> nid" "Scope nid = 0"
proof -
  obtain s where s: "unat (GetClusterIDShift c) = s" "7 \<le> s" "s \<le> 16"
    and m: "ci_MaxConnectedClusters c = mask (24 - s)" "unat k < 2 ^ (24 - s)"
    using max
  proof
    assume "ci_MaxConnectedClusters c = 255"
    then show ?thesis using that [of 16] cluster_shift(1) k by (simp add: mask_eq_exp_minus_1 word_le_nat_alt)
  next
    assume "ci_MaxConnectedClusters c = 511"
    then show ?thesis using that [of 15] cluster_shift(2) k by (simp add: mask_eq_exp_minus_1 word_le_nat_alt)
  qed
  note nat = allocation_nat [OF s m(2) lo hi]
  have "unat nid div 2 ^ s = unat k"
    using nat(1,2) by (simp add: div_nat_eqI mult.commute)
  moreover have "take_bit 32 (unat nid) = unat nid"
    using unsigned_less [of nid] by (intro take_bit_nat_eq_self) simp
  ultimately have "drop_bit s nid = k"
    unfolding word_unat_eq_iff unsigned_drop_bit_eq by (simp add: drop_bit_eq_div)
  moreover have "take_bit (24 - s) k = k"
    unfolding word_unat_eq_iff unsigned_take_bit_eq by (rule take_bit_nat_eq_self [OF m(2)])
  ultimately show "ClusterID nid c = k"
    by (simp add: ClusterID_def s(1) m(1) take_bit_eq_mask)
  show "100 \<le> nid" using nat(3) by (simp add: word_le_nat_alt)
  show "Scope nid = 0" by (rule small_scope [OF nat(4)])
qed

section \<open>Properties\<close>

text \<open>
  C30.  For both supported sizes of the cluster mesh, every identity in the allocation range of a
  cluster belongs to that cluster, and it is aggregated to the cluster aggregate if that cluster is
  the local one and to the cluster mesh aggregate otherwise.
\<close>

theorem allocated_identity_aggregate:
  assumes "ci_MaxConnectedClusters c = 255 \<or> ci_MaxConnectedClusters c = 511"
    and "k \<le> ci_MaxConnectedClusters c"
    and "MinimalAllocationIdentityFor c k \<le> nid" "nid \<le> MaximumAllocationIdentityFor c k"
  shows "ClusterID nid c = k \<and>
    aggregateFor nid c =
      (if k = ci_ID c then ReservedIdentityAggregateCluster else ReservedIdentityAggregateClusterMesh)"
proof -
  note a = allocation_cluster [OF assms]
  have "\<not> nid < 100" using a(2) by simp
  moreover have "nid \<notin> set AllAggregates"
    using a(2) by (auto simp: AllAggregates_def identity_consts word_le_nat_alt)
  ultimately show ?thesis
    using a by (simp add: aggregateFor_def AllAggregates_def IdentityScopeLocal_def IdentityScopeRemoteNode_def)
qed

theorem allocated_identity_aggregate_witness:
  "aggregateFor 70000 \<lparr>ci_ID = 1, ci_MaxConnectedClusters = 255\<rparr> = ReservedIdentityAggregateCluster"
proof -
  let ?c = "\<lparr>ci_ID = 1, ci_MaxConnectedClusters = 255\<rparr>"
  have "MinimalAllocationIdentityFor ?c 1 \<le> 70000" "70000 \<le> MaximumAllocationIdentityFor ?c 1"
    by code_simp+
  then show ?thesis using allocated_identity_aggregate [of ?c 1 70000] by simp
qed

text \<open>
  C31.  The aggregate of an identity is one of the five aggregates, an aggregate is its own aggregate,
  and the aggregates are exactly the fixed points.
\<close>

theorem aggregateFor_fixpoints:
  "aggregateFor nid c \<in> set AllAggregates \<and> aggregateFor (aggregateFor nid c) c = aggregateFor nid c \<and>
   (isAggregate nid c \<longleftrightarrow> nid \<in> set AllAggregates) \<and> \<not> aggregates nid nid c"
  by (simp add: aggregateFor_in isAggregate_iff aggregates_def)

end
