(* ===== verification/GoStrings.thy ===== *)
theory GoStrings
  imports Prelude "HOL-Library.List_Lexorder" "HOL-Library.Char_ord"
begin

text \<open>
  The functions of the packages \<^verbatim>\<open>strings\<close> and \<^verbatim>\<open>strconv\<close> that the sources
  use.  Go strings are lists of bytes, compared lexicographically.
\<close>

section \<open>The functions of package strings\<close>

fun Join :: "string list \<Rightarrow> string \<Rightarrow> string" where
  "Join [] sep = []"
| "Join [x] sep = x"
| "Join (x # xs) sep = x @ sep @ Join xs sep"

text \<open>Splitting at a separator of one byte; the empty string splits to one empty item.\<close>

fun Split :: "string \<Rightarrow> char \<Rightarrow> string list" where
  "Split [] sep = [[]]"
| "Split (c # cs) sep =
     (if c = sep then [] # Split cs sep
      else case Split cs sep of [] \<Rightarrow> [[c]] | x # xs \<Rightarrow> (c # x) # xs)"

definition IndexByte :: "string \<Rightarrow> char \<Rightarrow> int" where
  "IndexByte s c = (let n = length (takeWhile (\<lambda>x. x \<noteq> c) s) in if n < length s then int n else -1)"

definition slice :: "string \<Rightarrow> int \<Rightarrow> int \<Rightarrow> string" where
  "slice s i j = take (nat (j - i)) (drop (nat i) s)"

lemma IndexByte_less: "IndexByte s c \<ge> 0 \<Longrightarrow> IndexByte s c < int (length s)"
  by (auto simp: IndexByte_def Let_def split: if_splits)

lemma IndexByte_append: "c \<notin> set x \<Longrightarrow> IndexByte (x @ c # y) c = int (length x)"
  by (induction x) (auto simp: IndexByte_def Let_def split: if_splits)

lemma IndexByte_none: "c \<notin> set x \<Longrightarrow> IndexByte x c = - 1"
  by (induction x) (auto simp: IndexByte_def Let_def split: if_splits)

lemma IndexByte_present: "c \<in> set s \<Longrightarrow> IndexByte s c \<ge> 0"
  by (induction s) (auto simp: IndexByte_def Let_def split: if_splits)

lemma slice_middle: "slice (pre @ mid @ rest) (int (length pre)) (int (length pre + length mid)) = mid"
  by (simp add: slice_def)

lemma Split_nonempty: "Split s sep \<noteq> []"
  by (induction s) (auto split: list.splits)

lemma Split_append_sep: "sep \<notin> set x \<Longrightarrow> Split (x @ sep # s) sep = x # Split s sep"
  by (induction x) auto

lemma Split_no_sep: "sep \<notin> set x \<Longrightarrow> Split x sep = [x]"
  by (induction x) auto

lemma Split_Join:
  "xs \<noteq> [] \<Longrightarrow> (\<forall>x \<in> set xs. sep \<notin> set x) \<Longrightarrow> Split (Join xs [sep]) sep = xs"
  by (induction xs "[sep]" rule: Join.induct) (simp_all add: Split_append_sep Split_no_sep)

lemma Split_items: "x \<in> set (Split s sep) \<Longrightarrow> sep \<notin> set x"
proof (induction s arbitrary: x)
  case (Cons c cs)
  then show ?case
    by (cases "Split cs sep") (auto split: if_splits)
qed simp

lemma Split_length: "length (Split x sep) = count_list x sep + 1"
  by (induction x) (auto split: list.split)

section \<open>Decimal numbers\<close>

definition digit_char :: "nat \<Rightarrow> char" where
  "digit_char d = char_of (48 + d)"

text \<open>\<^verbatim>\<open>strconv.FormatUint\<close> in base ten.\<close>

fun FormatUint :: "nat \<Rightarrow> string" where
  "FormatUint n = (if n < 10 then [digit_char n] else FormatUint (n div 10) @ [digit_char (n mod 10)])"

declare FormatUint.simps [simp del]

definition digit_value :: "char \<Rightarrow> nat option" where
  "digit_value c = (let n = of_char c :: nat in if 48 \<le> n \<and> n \<le> 57 then Some (n - 48) else None)"

text \<open>
  \<^verbatim>\<open>strconv.ParseUint\<close> in base ten: an error for the empty string, for a byte that is no
  digit and for a value above the maximum.
\<close>

fun parseDigits :: "nat \<Rightarrow> string \<Rightarrow> nat \<Rightarrow> nat option" where
  "parseDigits maxVal [] n = Some n"
| "parseDigits maxVal (c # cs) n =
     (case digit_value c of
        None \<Rightarrow> None
      | Some d \<Rightarrow> let n1 = n * 10 + d in if n1 > maxVal then None else parseDigits maxVal cs n1)"

definition ParseUint :: "string \<Rightarrow> nat \<Rightarrow> nat option" where
  "ParseUint s bitSize = (if s = [] then None else parseDigits (2 ^ bitSize - 1) s 0)"

lemma digit_value_char [simp]: "d < 10 \<Longrightarrow> digit_value (digit_char d) = Some d"
  by (simp add: digit_value_def digit_char_def Let_def)

lemma digit_char_no_colon [simp]: "d < 10 \<Longrightarrow> digit_char d \<noteq> CHR '':''"
proof
  assume "d < 10" "digit_char d = CHR '':''"
  then have "of_char (digit_char d) = (58 :: nat)" by simp
  with \<open>d < 10\<close> show False by (simp add: digit_char_def)
qed

lemma FormatUint_nonempty: "FormatUint n \<noteq> []"
  by (subst FormatUint.simps) simp

lemma FormatUint_no_colon: "CHR '':'' \<notin> set (FormatUint n)"
proof (induction n rule: FormatUint.induct)
  case (1 n)
  then show ?case
    by (subst FormatUint.simps) (auto simp: digit_char_no_colon [symmetric] simp del: digit_char_no_colon)
qed

lemma parseDigits_append:
  "parseDigits m (xs @ ys) n = Option.bind (parseDigits m xs n) (parseDigits m ys)"
  by (induction xs arbitrary: n) (auto simp: Let_def split: option.split)

lemma parseDigits_Format: "n \<le> m \<Longrightarrow> parseDigits m (FormatUint n) 0 = Some n"
proof (induction n rule: FormatUint.induct)
  case (1 n)
  show ?case
  proof (cases "n < 10")
    case True
    then show ?thesis using 1(2) by (subst FormatUint.simps) simp
  next
    case False
    have "parseDigits m (FormatUint (n div 10)) 0 = Some (n div 10)" using 1 False by simp
    then show ?thesis using False 1(2) by (subst FormatUint.simps) (simp add: parseDigits_append Let_def)
  qed
qed

lemma ParseUint_Format: "ParseUint (FormatUint (unat w)) 16 = Some (unat w)" for w :: u16
proof -
  have "unat w < 2 ^ 16" using unsigned_less [of w] by simp
  then show ?thesis by (simp add: ParseUint_def FormatUint_nonempty parseDigits_Format)
qed

end
