(* ===== verification/MemberSet.thy ===== *)
theory MemberSet
  imports Prelude
begin

text \<open>
  Sets that store a single non-zero member inline (\<^verbatim>\<open>pkg/container/set/set.go\<close>).  Copies of
  a set share the map of members, so the model has a store of maps: a set refers to its map by the
  index, and a map is a list without duplicates in the order of its iteration.  The zero value of the
  member type is \<^verbatim>\<open>0\<close>.
\<close>

section \<open>The operations\<close>

record 'a memSet =
  ms_single :: 'a
  ms_members :: "nat option"

type_synonym 'a memStore = "'a list list"

definition hasSingle :: "('a::zero) memSet \<Rightarrow> bool" where
  "hasSingle s \<longleftrightarrow> ms_members s = None \<and> ms_single s \<noteq> 0"

text \<open>The members of a set: what the iterator visits.\<close>

definition Members :: "'a memStore \<Rightarrow> ('a::zero) memSet \<Rightarrow> 'a list" where
  "Members h s = (if hasSingle s then [ms_single s] else case ms_members s of None \<Rightarrow> [] | Some a \<Rightarrow> h ! a)"

definition memSet_Empty :: "'a memStore \<Rightarrow> ('a::zero) memSet \<Rightarrow> bool" where
  "memSet_Empty h s \<longleftrightarrow> \<not> hasSingle s \<and> (case ms_members s of None \<Rightarrow> True | Some a \<Rightarrow> length (h ! a) = 0)"

definition memSet_Len :: "'a memStore \<Rightarrow> ('a::zero) memSet \<Rightarrow> nat" where
  "memSet_Len h s = (if hasSingle s then 1 else case ms_members s of None \<Rightarrow> 0 | Some a \<Rightarrow> length (h ! a))"

definition memSet_Has :: "'a memStore \<Rightarrow> ('a::zero) memSet \<Rightarrow> 'a \<Rightarrow> bool" where
  "memSet_Has h s member =
     (if hasSingle s then ms_single s = member
      else case ms_members s of None \<Rightarrow> False | Some a \<Rightarrow> member \<in> set (h ! a))"

definition memSet_Insert :: "'a \<Rightarrow> ('a::zero) memSet \<Rightarrow> 'a memStore \<Rightarrow> bool \<times> 'a memSet \<times> 'a memStore" where
  "memSet_Insert member s h =
     (case ms_members s of
        Some a \<Rightarrow>
          if member \<in> set (h ! a) then (False, s, h)
          else if length (h ! a) = 1 then (True, s\<lparr>ms_members := Some (length h)\<rparr>, h @ [h ! a @ [member]])
          else (False, s, h[a := h ! a @ [member]])
      | None \<Rightarrow>
          if hasSingle s then
            (if member = ms_single s then (False, s, h)
             else (True, \<lparr>ms_single = 0, ms_members = Some (length h)\<rparr>, h @ [[ms_single s, member]]))
          else if member = 0 then (True, s\<lparr>ms_members := Some (length h)\<rparr>, h @ [[member]])
          else (True, s\<lparr>ms_single := member\<rparr>, h))"

definition memSet_Remove :: "'a \<Rightarrow> ('a::zero) memSet \<Rightarrow> 'a memStore \<Rightarrow> bool \<times> 'a memSet \<times> 'a memStore" where
  "memSet_Remove member s h =
     (case ms_members s of
        Some a \<Rightarrow>
          if member \<notin> set (h ! a) then (False, s, h)
          else if length (h ! a) = 1 then (True, s\<lparr>ms_members := None\<rparr>, h)
          else
            let rest = removeAll member (h ! a); h' = h[a := rest] in
            if length (h ! a) = 2 then
              (True, fold (\<lambda>m s. if m \<noteq> 0 then s\<lparr>ms_single := m, ms_members := None\<rparr> else s) rest s, h')
            else (False, s, h')
      | None \<Rightarrow>
          if hasSingle s \<and> ms_single s = member then (True, s\<lparr>ms_single := 0\<rparr>, h) else (False, s, h))"

text \<open>Loops that insert or remove a list of members, and whether any of the steps reports a change.\<close>

fun insertMembers :: "'a list \<Rightarrow> bool \<times> ('a::zero) memSet \<times> 'a memStore \<Rightarrow> bool \<times> 'a memSet \<times> 'a memStore" where
  "insertMembers [] st = st"
| "insertMembers (m # ms) (changed, s, h) = (let (c, s, h) = memSet_Insert m s h in insertMembers ms (c \<or> changed, s, h))"

fun removeMembers :: "'a list \<Rightarrow> bool \<times> ('a::zero) memSet \<times> 'a memStore \<Rightarrow> bool \<times> 'a memSet \<times> 'a memStore" where
  "removeMembers [] st = st"
| "removeMembers (m # ms) (changed, s, h) = (let (c, s, h) = memSet_Remove m s h in removeMembers ms (c \<or> changed, s, h))"

definition NewSet :: "('a::zero) list \<Rightarrow> 'a memStore \<Rightarrow> 'a memSet \<times> 'a memStore" where
  "NewSet members h = snd (insertMembers members (False, \<lparr>ms_single = 0, ms_members = None\<rparr>, h))"

definition memSet_Merge :: "('a::zero) memSet list \<Rightarrow> 'a memSet \<Rightarrow> 'a memStore \<Rightarrow> bool \<times> 'a memSet \<times> 'a memStore" where
  "memSet_Merge sets s h = fold (\<lambda>other (changed, s, h). insertMembers (Members h other) (changed, s, h)) sets (False, s, h)"

definition RemoveSets :: "('a::zero) memSet list \<Rightarrow> 'a memSet \<Rightarrow> 'a memStore \<Rightarrow> bool \<times> 'a memSet \<times> 'a memStore" where
  "RemoveSets sets s h = fold (\<lambda>other (changed, s, h). removeMembers (Members h other) (changed, s, h)) sets (False, s, h)"

definition memSet_Clear :: "('a::zero) memSet \<Rightarrow> 'a memSet" where
  "memSet_Clear s = s\<lparr>ms_single := 0, ms_members := None\<rparr>"

definition memSet_Get :: "'a memStore \<Rightarrow> ('a::zero) memSet \<Rightarrow> 'a \<times> bool" where
  "memSet_Get h s =
     (if hasSingle s then (ms_single s, True)
      else case ms_members s of
        None \<Rightarrow> (0, False)
      | Some a \<Rightarrow> (case h ! a of [] \<Rightarrow> (0, False) | m # ms \<Rightarrow> (m, True)))"

definition memSet_Equal :: "'a memStore \<Rightarrow> ('a::zero) memSet \<Rightarrow> 'a memSet \<Rightarrow> bool" where
  "memSet_Equal h s o' =
     (let sLen = memSet_Len h s; oLen = memSet_Len h o' in
      if sLen \<noteq> oLen then False
      else if sLen = 0 then True
      else if sLen = 1 then fst (memSet_Get h s) = fst (memSet_Get h o')
      else list_all (\<lambda>m. case ms_members o' of None \<Rightarrow> False | Some b \<Rightarrow> m \<in> set (h ! b))
             (case ms_members s of None \<Rightarrow> [] | Some a \<Rightarrow> h ! a))"

definition AsSlice :: "'a memStore \<Rightarrow> ('a::zero) memSet \<Rightarrow> 'a list" where
  "AsSlice h s = Members h s"

definition memSet_Clone :: "('a::zero) memSet \<Rightarrow> 'a memStore \<Rightarrow> 'a memSet \<times> 'a memStore" where
  "memSet_Clone s h =
     (case ms_members s of
        Some a \<Rightarrow> (\<lparr>ms_single = 0, ms_members = Some (length h)\<rparr>, h @ [h ! a])
      | None \<Rightarrow> (s, h))"

text \<open>
  The copy into another set first assigns the structure, so that the map is copied onto itself.
\<close>

definition DeepCopyInto :: "('a::zero) memSet \<Rightarrow> 'a memStore \<Rightarrow> 'a memSet \<times> 'a memStore" where
  "DeepCopyInto s h =
     (let out = s in
      case (ms_members out, ms_members s) of
        (Some b, Some a) \<Rightarrow> (out, h[b := fold List.insert (h ! a) (h ! b)])
      | _ \<Rightarrow> (out, h))"

section \<open>The invariant\<close>

text \<open>
  A set is well formed if its map exists and has no duplicates, is not empty, and is a singleton only
  for the zero value; the inline member is then unused.
\<close>

definition set_wf :: "'a memStore \<Rightarrow> ('a::zero) memSet \<Rightarrow> bool" where
  "set_wf h s \<longleftrightarrow>
     (case ms_members s of
        None \<Rightarrow> True
      | Some a \<Rightarrow> a < length h \<and> distinct (h ! a) \<and> h ! a \<noteq> [] \<and> (\<forall>x. h ! a = [x] \<longrightarrow> x = 0) \<and> ms_single s = 0)"

text \<open>A set that does not share its map.\<close>

definition apart :: "('a::zero) memSet \<Rightarrow> 'a memSet \<Rightarrow> bool" where
  "apart s t \<longleftrightarrow> ms_members s = None \<or> ms_members s \<noteq> ms_members t"

lemma insert_members:
  assumes "set_wf h s" "memSet_Insert m s h = (changed, s', h')"
  shows "set (Members h' s') = insert m (set (Members h s))" "set_wf h' s'" "\<not> changed \<Longrightarrow> s' = s"
    "length h \<le> length h'"
  using assms
  by (auto simp: memSet_Insert_def set_wf_def Members_def hasSingle_def nth_append append_eq_Cons_conv
      split: option.splits if_splits)

lemma insert_others:
  assumes "set_wf h s" "set_wf h t" "apart t s" "memSet_Insert m s h = (changed, s', h')"
  shows "Members h' t = Members h t" "set_wf h' t" "apart t s'"
  using assms
  by (auto simp: memSet_Insert_def set_wf_def Members_def hasSingle_def apart_def nth_append nth_list_update
      split: option.splits if_splits)

lemma two_members:
  assumes "distinct xs" "length xs = 2" "m \<in> set xs"
  obtains x where "removeAll m xs = [x]" "set xs = {m, x}" "x \<noteq> m"
proof -
  obtain a b where "xs = [a, b]" using assms(2) by (auto simp: numeral_2_eq_2 length_Suc_conv)
  then show ?thesis using that assms(1,3) by (cases "m = a") auto
qed

lemma remove_members:
  assumes wf: "set_wf h s" and r: "memSet_Remove m s h = (changed, s', h')"
  shows "set (Members h' s') = set (Members h s) - {m} \<and> set_wf h' s' \<and> (\<not> changed \<longrightarrow> s' = s) \<and> length h' = length h"
proof (cases "ms_members s")
  case None
  then show ?thesis using wf r by (auto simp: memSet_Remove_def set_wf_def Members_def hasSingle_def split: if_splits)
next
  case (Some a)
  have a: "a < length h" "distinct (h ! a)" "h ! a \<noteq> []" "ms_single s = 0" "\<And>x. h ! a = [x] \<Longrightarrow> x = 0"
    using wf Some by (auto simp: set_wf_def)
  have mem: "Members h s = h ! a" using Some by (simp add: Members_def hasSingle_def)
  consider (absent) "m \<notin> set (h ! a)" | (one) "m \<in> set (h ! a)" "length (h ! a) = 1"
    | (two) "m \<in> set (h ! a)" "length (h ! a) = 2" | (more) "m \<in> set (h ! a)" "length (h ! a) > 2"
    using a(3) by (metis One_nat_def Suc_1 Suc_lessI length_greater_0_conv)
  then show ?thesis
  proof cases
    case absent
    then show ?thesis using r Some wf mem by (auto simp: memSet_Remove_def)
  next
    case one
    then obtain x where "h ! a = [x]" by (auto simp: length_Suc_conv)
    then show ?thesis using one r Some a by (auto simp: memSet_Remove_def set_wf_def Members_def hasSingle_def)
  next
    case two
    obtain x where x: "removeAll m (h ! a) = [x]" "set (h ! a) = {m, x}" "x \<noteq> m"
      by (rule two_members [OF a(2) two(2,1)])
    then show ?thesis
      using two r Some a mem by (cases "x = 0") (auto simp: memSet_Remove_def Let_def set_wf_def Members_def hasSingle_def)
  next
    case more
    have "length (removeAll m (h ! a)) = length (h ! a) - 1"
      using a(2) more(1) by (simp add: distinct_remove1_removeAll [symmetric] length_remove1)
    then have len: "length (removeAll m (h ! a)) \<ge> 2" using more(2) by simp
    then have "removeAll m (h ! a) \<noteq> []" "removeAll m (h ! a) \<noteq> [x]" for x by auto
    moreover have "s' = s" "h' = h[a := removeAll m (h ! a)]" "\<not> changed"
      using more r Some by (auto simp: memSet_Remove_def Let_def)
    ultimately show ?thesis
      using Some a by (auto simp: set_wf_def Members_def hasSingle_def distinct_removeAll)
  qed
qed

lemma Len_members: "memSet_Len h s = length (Members h s)"
  by (simp add: memSet_Len_def Members_def split: option.split)

lemma Has_members: "memSet_Has h s m \<longleftrightarrow> m \<in> set (Members h s)"
  by (auto simp: memSet_Has_def Members_def split: option.split)

lemma distinct_members: "set_wf h s \<Longrightarrow> distinct (Members h s)"
  by (auto simp: set_wf_def Members_def split: option.splits)

lemma Equal_members:
  assumes "set_wf h s" "set_wf h t"
  shows "memSet_Equal h s t \<longleftrightarrow> set (Members h s) = set (Members h t)"
proof (cases "length (Members h s) = length (Members h t) \<and> length (Members h s) > 1")
  case True
  have big: "\<exists>a. ms_members u = Some a \<and> Members h u = h ! a" if "length (Members h u) > 1" for u
    using that by (auto simp: Members_def split: option.splits if_splits)
  obtain a where a: "ms_members s = Some a" "Members h s = h ! a" using True big [of s] by blast
  obtain b where b: "ms_members t = Some b" "Members h t = h ! b" using True big [of t] by auto
  have "memSet_Equal h s t \<longleftrightarrow> set (h ! a) \<subseteq> set (h ! b)"
    using True by (auto simp: memSet_Equal_def Len_members Let_def a b list_all_iff)
  also have "\<dots> \<longleftrightarrow> set (h ! a) = set (h ! b)"
    using True distinct_members [OF assms(1)] distinct_members [OF assms(2)] a b
    by (metis card_subset_eq distinct_card finite_set subset_refl)
  finally show ?thesis using a b by simp
next
  case False
  have len: "length (Members h s) = length (Members h t)" if "set (Members h s) = set (Members h t)"
    using that distinct_card distinct_members assms by metis
  have get: "Members h u = [x] \<Longrightarrow> fst (memSet_Get h u) = x" for u x
    by (auto simp: memSet_Get_def Members_def split: option.splits if_splits)
  show ?thesis
  proof (cases "length (Members h s) = length (Members h t)")
    case True
    with False consider "Members h s = []" "Members h t = []" | x y where "Members h s = [x]" "Members h t = [y]"
      by (cases "Members h s"; cases "Members h t") (auto simp: length_Suc_conv)
    then show ?thesis using get by cases (auto simp: memSet_Equal_def Len_members Let_def)
  next
    case False
    then show ?thesis using len by (auto simp: memSet_Equal_def Len_members Let_def)
  qed
qed

lemma insertMembers_members:
  assumes "set_wf h s" "insertMembers ms (c, s, h) = (c', s', h')"
  shows "set (Members h' s') = set ms \<union> set (Members h s) \<and> set_wf h' s' \<and> (\<not> c' \<longrightarrow> \<not> c \<and> s' = s)"
  using assms
proof (induction ms arbitrary: c s h)
  case (Cons m ms)
  obtain c1 s1 h1 where i: "memSet_Insert m s h = (c1, s1, h1)" by (rule prod_cases3)
  note ins = insert_members [OF Cons.prems(1) i]
  show ?case using Cons.IH [OF ins(2)] Cons.prems(2) i ins by auto
qed auto

lemma remove_others:
  assumes "set_wf h s" "set_wf h t" "apart t s" "memSet_Remove m s h = (changed, s', h')"
  shows "Members h' t = Members h t \<and> set_wf h' t"
proof -
  have "h' = h \<or> (\<exists>a xs. ms_members s = Some a \<and> h' = h[a := xs])"
    using assms(4) by (auto simp: memSet_Remove_def Let_def split: option.splits if_splits)
  then show ?thesis
    using assms(2,3) by (auto simp: set_wf_def Members_def hasSingle_def apart_def nth_list_update split: option.splits)
qed

section \<open>Refinement of sets\<close>

lemma NewSet_members:
  assumes "NewSet ms h = (s, h')"
  shows "set (Members h' s) = set ms \<and> set_wf h' s"
proof -
  obtain c where "insertMembers ms (False, \<lparr>ms_single = 0, ms_members = None\<rparr>, h) = (c, s, h')"
    using assms by (cases "insertMembers ms (False, \<lparr>ms_single = 0, ms_members = None\<rparr>, h)") (auto simp: NewSet_def)
  from insertMembers_members [OF _ this] show ?thesis
    by (simp add: set_wf_def Members_def hasSingle_def)
qed

text \<open>
  C20.  The two representations implement a set.  A constructed set has exactly the given members; an
  insertion adds its member and a removal deletes it; both keep the representation invariant, in
  which a non-zero singleton is always inline; a report that nothing changed means that the stored
  value need not be written back; the length is the cardinality, the equality test decides equality
  of sets, and no set with another map is affected.
\<close>

theorem memSet_refines_set:
  assumes "set_wf h s" "set_wf h t" "apart t s"
    and ins: "memSet_Insert m s h = (ci, si, hi)" and rem: "memSet_Remove m s h = (cr, sr, hr)"
  shows "(set (Members hi si) = insert m (set (Members h s)) \<and> set_wf hi si \<and> (ci \<or> si = s))
    \<and> (set (Members hr sr) = set (Members h s) - {m} \<and> set_wf hr sr \<and> (cr \<or> sr = s))
    \<and> (memSet_Has h s m \<longleftrightarrow> m \<in> set (Members h s))
    \<and> memSet_Len h s = card (set (Members h s))
    \<and> (memSet_Equal h s t \<longleftrightarrow> set (Members h s) = set (Members h t))
    \<and> (Members hi t = Members h t \<and> set_wf hi t) \<and> (Members hr t = Members h t \<and> set_wf hr t)
    \<and> (set (Members (snd (NewSet ms h)) (fst (NewSet ms h))) = set ms \<and> set_wf (snd (NewSet ms h)) (fst (NewSet ms h)))"
proof -
  have "set (Members hr sr) = set (Members h s) - {m} \<and> set_wf hr sr \<and> (cr \<or> sr = s)"
    using remove_members [OF assms(1) rem] by blast
  moreover have "memSet_Len h s = card (set (Members h s))"
    by (simp add: Len_members distinct_card distinct_members assms(1))
  moreover have "set (Members (snd (NewSet ms h)) (fst (NewSet ms h))) = set ms \<and> set_wf (snd (NewSet ms h)) (fst (NewSet ms h))"
    by (rule NewSet_members) simp
  ultimately show ?thesis
    using insert_members [OF assms(1) ins] insert_others [OF assms(1-3) ins] remove_others [OF assms(1-3) rem]
      Equal_members [OF assms(1,2)] Has_members [of h s m] by blast
qed

theorem memSet_refines_set_witness:
  "let (s, h) = NewSet [5, 0::nat] []; (cr, sr, hr) = memSet_Remove 0 s h
   in (s, h) = (\<lparr>ms_single = 0, ms_members = Some 0\<rparr>, [[5, 0]]) \<and> sr = \<lparr>ms_single = 5, ms_members = None\<rparr>
      \<and> set (Members hr sr) = {5}"
proof -
  let ?s = "\<lparr>ms_single = 0::nat, ms_members = Some 0\<rparr>" and ?t = "\<lparr>ms_single = 7::nat, ms_members = None\<rparr>"
  have n: "NewSet [5, 0::nat] [] = (?s, [[5, 0]])" by (simp add: NewSet_def memSet_Insert_def hasSingle_def)
  have r: "memSet_Remove 0 ?s [[5, 0]] = (True, \<lparr>ms_single = 5, ms_members = None\<rparr>, [[5]])"
    by (simp add: memSet_Remove_def)
  have "memSet_Insert 0 ?s [[5, 0]] = (False, ?s, [[5, 0]])" by (simp add: memSet_Insert_def)
  from memSet_refines_set [OF _ _ _ this r, of ?t] show ?thesis
    by (simp add: n r set_wf_def apart_def Members_def hasSingle_def)
qed

end
