(* ===== verification/RuleOrigin.thy ===== *)
theory RuleOrigin
  imports GoStrings MemberSet
begin

text \<open>
  Rule origins: the labels and log strings of the rules an entry derives from
  (\<^verbatim>\<open>pkg/policy/origin.go\<close>) and the merge of sorted label array lists in their string form
  (\<^verbatim>\<open>pkg/labels/arraylist.go\<close>).  Go strings are lists of bytes, compared
  lexicographically.  An interned handle is equal to another exactly when the values are; the zero
  handle is \<^verbatim>\<open>None\<close>.
\<close>

section \<open>Merging label array lists\<close>

definition nextArray :: "string \<Rightarrow> int \<Rightarrow> int \<times> int" where
  "nextArray str end' =
     (let start = IndexByte (drop (nat end') str) (CHR ''['') in
      if start \<ge> 0 then
        let start = start + end';
            e = IndexByte (drop (nat start) str) (CHR '']'')
        in (start, if e \<ge> 0 then e + start + 1 else e)
      else (start, end'))"

definition noArray :: "int \<times> int \<Rightarrow> bool" where
  "noArray p \<longleftrightarrow> fst p < 0 \<or> snd p < 0 \<or> fst p \<ge> snd p"

definition writeRemainder :: "string \<Rightarrow> int \<Rightarrow> int \<Rightarrow> string \<Rightarrow> string" where
  "writeRemainder str start end' sb =
     (if start \<ge> 0 \<and> start < end' then (if sb \<noteq> [] then sb @ '', '' else sb) @ drop (nat start) str else sb)"

definition writeArray :: "string \<Rightarrow> string \<Rightarrow> string" where
  "writeArray sb arr = (if sb \<noteq> [] then sb @ '', '' else sb) @ arr"

lemma nextArray_advance:
  assumes "\<not> noArray (nextArray str e)"
  shows "e < snd (nextArray str e)" "snd (nextArray str e) \<le> int (length str)"
proof -
  let ?i = "IndexByte (drop (nat e) str) (CHR ''['')"
  let ?j = "IndexByte (drop (nat (?i + e)) str) (CHR '']'')"
  have i: "?i \<ge> 0" and j: "?j \<ge> 0" and pos: "?i + e \<ge> 0" and s: "snd (nextArray str e) = ?j + (?i + e) + 1"
    using assms by (auto simp: noArray_def nextArray_def Let_def split: if_splits)
  show "e < snd (nextArray str e)" using i j s by simp
  show "snd (nextArray str e) \<le> int (length str)"
    using IndexByte_less [OF j] j s pos
    by (cases "nat (?i + e) \<le> length str") (simp_all add: of_nat_diff)
qed

lemma nextArray_measure:
  "\<not> noArray (nextArray str e) \<Longrightarrow> nat (int (length str) - snd (nextArray str e)) < nat (int (length str) - e)"
  using nextArray_advance [of str e] by simp

text \<open>
  The inner loop of the merge: write the lesser label arrays of \<^verbatim>\<open>a\<close> until one is not less
  than the current array of \<^verbatim>\<open>b\<close>.  The left result is the final string of
  \<^verbatim>\<open>break Loop\<close>.  The second inner loop is the same with the roles exchanged.
\<close>

function addLesser :: "string \<Rightarrow> string \<Rightarrow> int \<times> int \<Rightarrow> int \<times> int \<Rightarrow> string \<Rightarrow> string + (int \<times> int) \<times> string" where
  "addLesser a b pa pb sb =
     (if slice a (fst pa) (snd pa) < slice b (fst pb) (snd pb) then
        let sb' = writeArray sb (slice a (fst pa) (snd pa));
            pa' = nextArray a (snd pa)
        in if noArray pa' then Inl (writeRemainder b (fst pb) (snd pb) sb') else addLesser a b pa' pb sb'
      else Inr (pa, sb))"
  by pat_completeness auto
termination
  by (relation "measure (\<lambda>(a, b, pa, pb, sb). nat (int (length a) - snd pa))")
    (auto dest: nextArray_measure)

declare addLesser.simps [simp del]

lemma addLesser_advance: "addLesser a b pa pb sb = Inr (pa', sb') \<Longrightarrow> snd pa \<le> snd pa'"
proof (induction a b pa pb sb rule: addLesser.induct)
  case (1 a b pa pb sb)
  show ?case
  proof (cases "slice a (fst pa) (snd pa) < slice b (fst pb) (snd pb) \<and> \<not> noArray (nextArray a (snd pa))")
    case True
    then have "snd (nextArray a (snd pa)) \<le> snd pa'"
      using 1 by (simp add: addLesser.simps [of a b pa])
    then show ?thesis using True nextArray_advance(1) [of a "snd pa"] by simp
  next
    case False
    then show ?thesis using 1(2) by (auto simp: addLesser.simps [of a b pa] Let_def split: if_splits)
  qed
qed

function mergeLoop :: "string \<Rightarrow> string \<Rightarrow> int \<Rightarrow> int \<Rightarrow> string \<Rightarrow> string" where
  "mergeLoop a b aEnd bEnd sb =
     (let pa = nextArray a aEnd; pb = nextArray b bEnd in
      if noArray pa then writeRemainder b (fst pb) (snd pb) sb
      else if noArray pb then writeRemainder a (fst pa) (snd pa) sb
      else case addLesser a b pa pb sb of
        Inl res \<Rightarrow> res
      | Inr (pa', sb1) \<Rightarrow>
          (case addLesser b a pb pa' sb1 of
             Inl res \<Rightarrow> res
           | Inr (pb', sb2) \<Rightarrow>
               let sb3 = (if slice a (fst pa') (snd pa') = slice b (fst pb') (snd pb')
                          then writeArray sb2 (slice b (fst pb') (snd pb')) else sb2)
               in mergeLoop a b (snd pa') (snd pb') sb3))"
  by pat_completeness auto
termination
proof (relation "measure (\<lambda>(a, b, aEnd, bEnd, sb). nat (int (length a) - aEnd))", goal_cases)
  case 1
  then show ?case by simp
next
  case (2 a b aEnd bEnd sb pa pb y pa' sb1 y' pb' sb2 sb3)
  then have "nat (int (length a) - snd (nextArray a aEnd)) < nat (int (length a) - aEnd)"
    by (intro nextArray_measure) simp
  moreover have "snd (nextArray a aEnd) \<le> snd pa'"
    using 2 addLesser_advance by fastforce
  ultimately show ?case by simp
qed

declare mergeLoop.simps [simp del]

definition MergeSortedLabelArrayListStrings :: "string \<Rightarrow> string \<Rightarrow> string" where
  "MergeSortedLabelArrayListStrings la lb = mergeLoop la lb 0 0 []"

section \<open>Rule origins\<close>

definition separator :: char where "separator = CHR 0x1F"

record RuleMeta =
  rm_labels :: string
  rm_log :: string

type_synonym ruleOrigin = "RuleMeta option"

definition newStringList :: "string list \<Rightarrow> string" where
  "newStringList items = Join (sort items) [separator]"

definition stringList_List :: "string \<Rightarrow> string list" where
  "stringList_List sl = Split sl separator"

text \<open>
  The lines are collected in a set (\<^verbatim>\<open>pkg/container/set\<close>), whose members come back in the order
  in which the map is iterated; the zero value of a string is the empty string.
\<close>

instantiation list :: (type) zero
begin

definition zero_list :: "'a list" where "zero_list = []"

instance ..

end

definition mergeStringList :: "string \<Rightarrow> string \<Rightarrow> string" where
  "mergeStringList a b =
     (if a = [] then b
      else if b = [] then a
      else
        let (logLines, h) = NewSet [] [];
            (_, logLines, h) = insertMembers (stringList_List a) (False, logLines, h);
            (_, logLines, h) = insertMembers (stringList_List b) (False, logLines, h)
        in newStringList (AsSlice h logLines))"

definition ruleOrigin_Value :: "ruleOrigin \<Rightarrow> RuleMeta" where
  "ruleOrigin_Value ro = (case ro of None \<Rightarrow> \<lparr>rm_labels = [], rm_log = []\<rparr> | Some rm \<Rightarrow> rm)"

definition LabelsString :: "ruleOrigin \<Rightarrow> string" where
  "LabelsString ro = (case ro of None \<Rightarrow> [] | Some _ \<Rightarrow> rm_labels (ruleOrigin_Value ro))"

text \<open>
  \<^verbatim>\<open>LogString\<close> is the JSON encoding of the log lines.  The encoder escapes quotes,
  backslashes, control bytes and the HTML characters, replaces bytes that are not UTF-8, and escapes
  the line separators U+2028 and U+2029.
\<close>

definition byte_in :: "nat \<Rightarrow> nat \<Rightarrow> char \<Rightarrow> bool" where
  "byte_in lo hi c \<longleftrightarrow> lo \<le> of_char c \<and> of_char c \<le> hi"

definition rune_size :: "string \<Rightarrow> nat option" where
  "rune_size s =
     (let cont = byte_in 0x80 0xBF;
          second = (\<lambda>lo hi. length s > 1 \<and> byte_in lo hi (s ! 1));
          third = (length s > 2 \<and> cont (s ! 2));
          fourth = (length s > 3 \<and> cont (s ! 3))
      in case s of
           [] \<Rightarrow> None
         | c # _ \<Rightarrow>
             if byte_in 0xC2 0xDF c then (if second 0x80 0xBF then Some 2 else None)
             else if byte_in 0xE0 0xE0 c then (if second 0xA0 0xBF \<and> third then Some 3 else None)
             else if byte_in 0xED 0xED c then (if second 0x80 0x9F \<and> third then Some 3 else None)
             else if byte_in 0xE1 0xEF c then (if second 0x80 0xBF \<and> third then Some 3 else None)
             else if byte_in 0xF0 0xF0 c then (if second 0x90 0xBF \<and> third \<and> fourth then Some 4 else None)
             else if byte_in 0xF1 0xF3 c then (if second 0x80 0xBF \<and> third \<and> fourth then Some 4 else None)
             else if byte_in 0xF4 0xF4 c then (if second 0x80 0x8F \<and> third \<and> fourth then Some 4 else None)
             else None)"

definition hex_digit :: "nat \<Rightarrow> char" where
  "hex_digit n = ''0123456789abcdef'' ! n"

definition json_escape :: "char \<Rightarrow> string" where
  "json_escape c =
     (let n = of_char c :: nat in
      if c = CHR 0x5C \<or> c = CHR 0x22 then [CHR 0x5C, c]
      else if n = 8 then [CHR 0x5C, CHR ''b'']
      else if n = 12 then [CHR 0x5C, CHR ''f'']
      else if n = 10 then [CHR 0x5C, CHR ''n'']
      else if n = 13 then [CHR 0x5C, CHR ''r'']
      else if n = 9 then [CHR 0x5C, CHR ''t'']
      else if n < 32 \<or> c = CHR ''<'' \<or> c = CHR ''>'' \<or> c = CHR ''&''
        then [CHR 0x5C, CHR ''u'', CHR ''0'', CHR ''0'', hex_digit (n div 16), hex_digit (n mod 16)]
      else [c])"

function json_body :: "string \<Rightarrow> string" where
  "json_body s =
     (case s of
        [] \<Rightarrow> []
      | c # cs \<Rightarrow>
          if (of_char c :: nat) < 0x80 then json_escape c @ json_body cs
          else case rune_size s of
            None \<Rightarrow> CHR 0x5C # ''ufffd'' @ json_body cs
          | Some n \<Rightarrow>
              (if take n s = [CHR 0xE2, CHR 0x80, CHR 0xA8] then CHR 0x5C # ''u2028''
               else if take n s = [CHR 0xE2, CHR 0x80, CHR 0xA9] then CHR 0x5C # ''u2029''
               else take n s) @ json_body (drop (n - 1) cs))"
  by pat_completeness auto
termination
  by (relation "measure length") auto

definition json_strings :: "string list \<Rightarrow> string" where
  "json_strings xs =
     ''['' @ Join (map (\<lambda>s. [CHR 0x22] @ json_body s @ [CHR 0x22]) xs) '','' @ '']''"

definition LogString :: "ruleOrigin \<Rightarrow> string" where
  "LogString ro =
     (case ro of None \<Rightarrow> [] | Some _ \<Rightarrow> json_strings (stringList_List (rm_log (ruleOrigin_Value ro))))"

definition newRuleOrigin :: "RuleMeta \<Rightarrow> ruleOrigin" where
  "newRuleOrigin rm = Some rm"

definition ruleOrigin_Merge :: "ruleOrigin \<Rightarrow> ruleOrigin \<Rightarrow> ruleOrigin" where
  "ruleOrigin_Merge ro other =
     (if ro = other then ro
      else if ro = None then other
      else if other = None then ro
      else Some \<lparr>rm_labels = MergeSortedLabelArrayListStrings (LabelsString ro) (LabelsString other),
                 rm_log = mergeStringList (rm_log (ruleOrigin_Value ro)) (rm_log (ruleOrigin_Value other))\<rparr>)"

definition NilRuleOrigin :: ruleOrigin where
  "NilRuleOrigin = newRuleOrigin \<lparr>rm_labels = ''[]'', rm_log = []\<rparr>"

section \<open>What the merge keeps\<close>

lemma ruleOrigin_Merge_same [simp]: "ruleOrigin_Merge ro ro = ro"
  by (simp add: ruleOrigin_Merge_def)

text \<open>The set that the loops build has exactly the lines of both lists; sorting makes its order irrelevant.\<close>

lemma mergeStringList_members:
  assumes "a \<noteq> []" "b \<noteq> []"
  shows "\<exists>lines. mergeStringList a b = newStringList lines \<and> distinct lines \<and>
    set lines = set (stringList_List a) \<union> set (stringList_List b)"
proof -
  obtain s0 h0 where 0: "NewSet [] ([] :: string memStore) = (s0, h0)" by fastforce
  obtain c1 s1 h1 where 1: "insertMembers (stringList_List a) (False, s0, h0) = (c1, s1, h1)" by (rule prod_cases3)
  obtain c2 s2 h2 where 2: "insertMembers (stringList_List b) (False, s1, h1) = (c2, s2, h2)" by (rule prod_cases3)
  have m0: "set (Members h0 s0) = {}" "set_wf h0 s0" using NewSet_members [OF 0] by simp_all
  have m1: "set (Members h1 s1) = set (stringList_List a)" "set_wf h1 s1"
    using insertMembers_members [OF m0(2) 1] m0(1) by simp_all
  have m2: "set (Members h2 s2) = set (stringList_List b) \<union> set (stringList_List a)" "set_wf h2 s2"
    using insertMembers_members [OF m1(2) 2] m1(1) by simp_all
  have "mergeStringList a b = newStringList (AsSlice h2 s2)"
    using assms by (simp add: mergeStringList_def 0 1 2)
  then show ?thesis using m2 distinct_members [OF m2(2)] by (auto simp: AsSlice_def)
qed

text \<open>A list of lines without separators is read back sorted.\<close>

lemma newStringList_lines:
  assumes "lines \<noteq> []" "\<forall>x \<in> set lines. separator \<notin> set x"
  shows "stringList_List (newStringList lines) = sort lines"
  using Split_Join [of "sort lines" separator] assms
  by (simp add: stringList_List_def newStringList_def) (metis length_0_conv length_sort)

lemma stringList_List_items: "stringList_List a \<noteq> []" "x \<in> set (stringList_List a) \<Longrightarrow> separator \<notin> set x"
  using Split_nonempty Split_items by (auto simp: stringList_List_def)

section \<open>Printed lists of label arrays\<close>








section \<open>Properties\<close>

text \<open>
  C33.  Merging the log lines of two rules: an empty log leaves the other one as it is; the lines of the
  merge of two non-empty logs are exactly the lines of both, strictly sorted (so without duplicates),
  and the merge does not depend on the order of the two.
\<close>

theorem mergeStringList_merges_lines:
  "mergeStringList a [] = a \<and> mergeStringList [] b = b \<and>
   (a \<noteq> [] \<and> b \<noteq> [] \<longrightarrow>
      sorted_wrt (<) (stringList_List (mergeStringList a b)) \<and>
      set (stringList_List (mergeStringList a b)) = set (stringList_List a) \<union> set (stringList_List b) \<and>
      mergeStringList a b = mergeStringList b a)"
proof (intro conjI impI, goal_cases)
  case 1
  show ?case by (simp add: mergeStringList_def)
next
  case 2
  show ?case by (simp add: mergeStringList_def)
next
  case 3
  then obtain xs where xs: "mergeStringList a b = newStringList xs" "distinct xs"
    "set xs = set (stringList_List a) \<union> set (stringList_List b)"
    using mergeStringList_members by blast
  then have "stringList_List (mergeStringList a b) = sort xs"
    using newStringList_lines [of xs] stringList_List_items by fastforce
  then show ?case using xs(2) by (simp add: strict_sorted_iff)
next
  case 4
  then obtain xs where xs: "mergeStringList a b = newStringList xs"
    "set xs = set (stringList_List a) \<union> set (stringList_List b)"
    using mergeStringList_members by blast
  then have "stringList_List (mergeStringList a b) = sort xs"
    using newStringList_lines [of xs] stringList_List_items by fastforce
  then show ?case using xs(2) by simp
next
  case 5
  then obtain xs ys where "mergeStringList a b = newStringList xs" "mergeStringList b a = newStringList ys"
    "distinct xs" "distinct ys" "set xs = set ys"
    using mergeStringList_members [of a b] mergeStringList_members [of b a] by (metis Un_commute)
  moreover from this have "sort xs = sort ys" by (intro sorted_distinct_set_unique) simp_all
  ultimately show ?case by (simp add: newStringList_def)
qed

theorem mergeStringList_merges_lines_witness:
  "stringList_List (mergeStringList [CHR ''b'', separator, CHR ''a''] [CHR ''c'', separator, CHR ''a'']) = [''a'', ''b'', ''c'']"
proof -
  let ?a = "[CHR ''b'', separator, CHR ''a'']" and ?b = "[CHR ''c'', separator, CHR ''a'']"
  have lines: "stringList_List ?a = [''b'', ''a'']" "stringList_List ?b = [''c'', ''a'']" by code_simp+
  have "?a \<noteq> [] \<and> ?b \<noteq> []" by simp
  note merged = mergeStringList_merges_lines [of ?a ?b, THEN conjunct2, THEN conjunct2, rule_format, OF this, unfolded lines]
  have "sorted_wrt (<) (stringList_List (mergeStringList ?a ?b))" by (rule merged [THEN conjunct1])
  moreover have "set (stringList_List (mergeStringList ?a ?b)) = set [''a'', ''b'', ''c'']"
    unfolding merged [THEN conjunct2, THEN conjunct1] by auto
  moreover have "sorted_wrt (<) [''a'', ''b'', ''c'']" by code_simp
  ultimately show ?thesis by (metis strict_sorted_equal)
qed



end
