(* ===== verification/PassMetas.thy ===== *)
theory PassMetas
  imports Precedence
begin

text \<open>
  Metadata of pass verdicts (\<^verbatim>\<open>passMeta\<close> and \<^verbatim>\<open>passMetas\<close> in
  \<^verbatim>\<open>pkg/policy/mapstate.go\<close>).  A tier is identified by its least precedence; a list of
  metadata has at most one element for each tier, in increasing order.  A pointer to a slice is an
  optional list.
\<close>

record passMeta =
  pm_precedence :: Precedence
  pm_tierMaxPrecedence :: Precedence
  pm_tierMinPrecedence :: Precedence

type_synonym passMetas = "passMeta list"

definition insertAt :: "nat \<Rightarrow> 'a \<Rightarrow> 'a list \<Rightarrow> 'a list" where
  "insertAt i x xs = take i xs @ x # drop i xs"

text \<open>The loop of \<^verbatim>\<open>Collect\<close> from index \<^verbatim>\<open>i\<close> on.\<close>

fun Collect_loop :: "passMeta \<Rightarrow> passMetas \<Rightarrow> passMetas" where
  "Collect_loop pass [] = [pass]"
| "Collect_loop pass (m # ms) =
     (if pm_tierMinPrecedence m > pm_tierMinPrecedence pass then pass # m # ms
      else if pm_tierMinPrecedence m = pm_tierMinPrecedence pass then
        (if pm_precedence pass > pm_precedence m then pass # ms else m # ms)
      else m # Collect_loop pass ms)"

definition passMetas_Collect :: "passMetas \<Rightarrow> passMeta \<Rightarrow> passMetas" where
  "passMetas_Collect pm pass =
     (if pm_precedence pass = 0 \<or> pm_precedence pass < pm_tierMinPrecedence pass \<or>
         pm_precedence pass > pm_tierMaxPrecedence pass then pm
      else Collect_loop pass pm)"

definition isDifferentTierOrHigherPrecedence :: "passMeta \<Rightarrow> Precedence \<Rightarrow> bool" where
  "isDifferentTierOrHigherPrecedence pass precedence \<longleftrightarrow>
     (let sameTier = pm_tierMinPrecedence pass \<le> precedence \<and> precedence \<le> pm_tierMaxPrecedence pass
      in \<not> sameTier \<or> pm_precedence pass > precedence)"

definition passMetas_Delete :: "passMetas \<Rightarrow> Precedence \<Rightarrow> passMetas" where
  "passMetas_Delete old precedence = filter (\<lambda>m. isDifferentTierOrHigherPrecedence m precedence) old"

text \<open>
  \<^verbatim>\<open>Merge\<close> works in place on \<^verbatim>\<open>old\<close> with an index \<^verbatim>\<open>i\<close>.  The loop returns
  the slice, the index and the part of \<^verbatim>\<open>other\<close> that is left.
\<close>

fun Merge_loop :: "passMetas \<Rightarrow> nat \<Rightarrow> passMetas \<Rightarrow> passMetas \<times> nat \<times> passMetas" where
  "Merge_loop old i [] = (old, i, [])"
| "Merge_loop old i (o' # os) =
     (let i = i + length (takeWhile (\<lambda>m. pm_tierMinPrecedence m < pm_tierMinPrecedence o') (drop i old)) in
      if i = length old then (old, i, o' # os)
      else if pm_tierMinPrecedence (old ! i) > pm_tierMinPrecedence o' then Merge_loop (insertAt i o' old) i os
      else if pm_precedence (old ! i) < pm_precedence o' then Merge_loop (old[i := o']) i os
      else Merge_loop old i os)"

definition passMetas_Merge :: "passMetas \<Rightarrow> passMetas \<Rightarrow> passMetas" where
  "passMetas_Merge old other =
     (case Merge_loop old 0 other of
        (old', i, rest) \<Rightarrow> if i = length old' \<and> rest \<noteq> [] then old' @ rest else old')"

text \<open>
  \<^verbatim>\<open>MergeClone\<close> returns one of its arguments or a new slice.  The second component says
  whether the returned pointer differs from \<^verbatim>\<open>old\<close>, which the caller compares.
\<close>

definition passMetas_MergeClone :: "passMetas option \<Rightarrow> passMetas option \<Rightarrow> passMetas option \<times> bool" where
  "passMetas_MergeClone old other =
     (case old of
        None \<Rightarrow> (other, other \<noteq> None)
      | Some o1 \<Rightarrow>
          if o1 = [] then (other, True)
          else case other of
            None \<Rightarrow> (old, False)
          | Some o2 \<Rightarrow>
              if o2 = [] then (old, False)
              else if o1 = o2 then (old, False)
              else (Some (passMetas_Merge o1 o2), True))"

definition InheritPassPrecedence :: "Precedence \<Rightarrow> passMetas \<Rightarrow> Precedence" where
  "InheritPassPrecedence precedence passes =
     foldl (\<lambda>p pass. p - pm_tierMinPrecedence pass + pm_precedence pass) precedence passes"

section \<open>Tier order\<close>

definition tiers_sorted :: "passMetas \<Rightarrow> bool" where
  "tiers_sorted xs \<longleftrightarrow> sorted_wrt (<) (map pm_tierMinPrecedence xs)"

lemma tiers_sorted_simps [simp]:
  "tiers_sorted []"
  "tiers_sorted (x # xs) \<longleftrightarrow>
     (\<forall>y \<in> set xs. pm_tierMinPrecedence x < pm_tierMinPrecedence y) \<and> tiers_sorted xs"
  by (auto simp: tiers_sorted_def)

text \<open>The merge of two sorted lists that keeps the higher precedence of a tier.\<close>

fun tier_merge :: "passMetas \<Rightarrow> passMetas \<Rightarrow> passMetas" where
  "tier_merge [] ys = ys"
| "tier_merge xs [] = xs"
| "tier_merge (x # xs) (y # ys) =
     (if pm_tierMinPrecedence x < pm_tierMinPrecedence y then x # tier_merge xs (y # ys)
      else if pm_tierMinPrecedence y < pm_tierMinPrecedence x then y # tier_merge (x # xs) ys
      else (if pm_precedence x < pm_precedence y then y else x) # tier_merge xs ys)"

lemma tier_merge_Nil2 [simp]: "tier_merge xs [] = xs"
  by (cases xs) auto

lemma tier_merge_set: "set (tier_merge xs ys) \<subseteq> set xs \<union> set ys"
  by (induction xs ys rule: tier_merge.induct) auto

lemma tier_merge_above:
  "(\<forall>z \<in> set xs \<union> set ys. t < pm_tierMinPrecedence z) \<Longrightarrow> z \<in> set (tier_merge xs ys) \<Longrightarrow>
    t < pm_tierMinPrecedence z"
  using tier_merge_set [of xs ys] by blast

lemma tier_merge_sorted: "tiers_sorted xs \<Longrightarrow> tiers_sorted ys \<Longrightarrow> tiers_sorted (tier_merge xs ys)"
proof (induction xs ys rule: tier_merge.induct)
  case (3 x xs y ys)
  let ?t = pm_tierMinPrecedence
  consider "?t x < ?t y" | "?t y < ?t x" | "?t x = ?t y" by (rule linorder_cases)
  then show ?case
  proof cases
    case 1
    have "?t x < ?t z" if "z \<in> set (tier_merge xs (y # ys))" for z
      by (rule tier_merge_above [OF _ that]) (use 1 3 in \<open>auto intro: less_trans\<close>)
    then show ?thesis using 1 3 by simp
  next
    case 2
    have "?t y < ?t z" if "z \<in> set (tier_merge (x # xs) ys)" for z
      by (rule tier_merge_above [OF _ that]) (use 2 3 in \<open>auto intro: less_trans\<close>)
    then show ?thesis using 2 3 by simp
  next
    case eq: 3
    have "?t x < ?t z" if "z \<in> set (tier_merge xs ys)" for z
      by (rule tier_merge_above [OF _ that]) (use eq 3 in auto)
    then show ?thesis using eq 3 by simp
  qed
qed simp_all

lemma tier_merge_skip:
  "tier_merge xs (y # ys) =
     takeWhile (\<lambda>m. pm_tierMinPrecedence m < pm_tierMinPrecedence y) xs @
     tier_merge (dropWhile (\<lambda>m. pm_tierMinPrecedence m < pm_tierMinPrecedence y) xs) (y # ys)"
  by (induction xs) auto

lemma tier_merge_below:
  "\<forall>y \<in> set ys. pm_tierMinPrecedence x < pm_tierMinPrecedence y \<Longrightarrow> tier_merge (x # xs) ys = x # tier_merge xs ys"
  by (cases ys) auto

text \<open>The in-place merge is the merge of sorted lists.\<close>

lemma Merge_loop_step:
  fixes pre cur y ys
  defines "A \<equiv> pre @ takeWhile (\<lambda>m. pm_tierMinPrecedence m < pm_tierMinPrecedence y) cur"
  shows "Merge_loop (pre @ cur) (length pre) (y # ys) =
    (case dropWhile (\<lambda>m. pm_tierMinPrecedence m < pm_tierMinPrecedence y) cur of
       [] \<Rightarrow> (A, length A, y # ys)
     | c # cs \<Rightarrow>
         if pm_tierMinPrecedence c > pm_tierMinPrecedence y then Merge_loop (A @ y # c # cs) (length A) ys
         else if pm_precedence c < pm_precedence y then Merge_loop (A @ y # cs) (length A) ys
         else Merge_loop (A @ c # cs) (length A) ys)"
proof -
  define C where "C = dropWhile (\<lambda>m. pm_tierMinPrecedence m < pm_tierMinPrecedence y) cur"
  have cur: "pre @ cur = A @ C" by (simp add: A_def C_def)
  have i: "length pre + length (takeWhile (\<lambda>m. pm_tierMinPrecedence m < pm_tierMinPrecedence y)
      (drop (length pre) (pre @ cur))) = length A"
    by (simp add: A_def)
  show ?thesis
    unfolding Merge_loop.simps Let_def i unfolding cur C_def [symmetric]
    by (cases C) (simp_all add: insertAt_def nth_append)
qed

lemma Merge_loop_merge:
  assumes "tiers_sorted other"
  shows "case Merge_loop (pre @ cur) (length pre) other of
    (old, i, rest) \<Rightarrow> (if i = length old \<and> rest \<noteq> [] then old @ rest else old) = pre @ tier_merge cur other"
  using assms
proof (induction other arbitrary: pre cur)
  case (Cons y ys)
  let ?t = pm_tierMinPrecedence
  define A where "A = pre @ takeWhile (\<lambda>m. ?t m < ?t y) cur"
  define C where "C = dropWhile (\<lambda>m. ?t m < ?t y) cur"
  have target: "pre @ tier_merge cur (y # ys) = A @ tier_merge C (y # ys)"
    unfolding A_def C_def by (subst tier_merge_skip) simp
  have ys: "\<forall>z \<in> set ys. ?t y < ?t z" and IH: "\<And>pre cur. case Merge_loop (pre @ cur) (length pre) ys of
    (old, i, rest) \<Rightarrow> (if i = length old \<and> rest \<noteq> [] then old @ rest else old) = pre @ tier_merge cur ys"
    using Cons by simp_all
  show ?case
  proof (cases C)
    case Nil
    then show ?thesis
      unfolding target unfolding Merge_loop_step A_def [symmetric] C_def [symmetric] by simp
  next
    case (Cons c cs)
    have nl: "\<not> ?t c < ?t y"
      using Cons hd_dropWhile [of "\<lambda>m. ?t m < ?t y" cur] by (simp add: C_def)
    have m: "tier_merge (y # xs) ys = y # tier_merge xs ys" for xs
      using ys by (rule tier_merge_below)
    have mc: "tier_merge (c # cs) ys = c # tier_merge cs ys" if "?t c = ?t y"
      using ys that by (intro tier_merge_below) simp
    consider "?t y < ?t c" | "?t c = ?t y" "pm_precedence c < pm_precedence y"
      | "?t c = ?t y" "\<not> pm_precedence c < pm_precedence y"
      using nl by fastforce
    then show ?thesis
    proof cases
      case 1
      then show ?thesis
        unfolding target unfolding Merge_loop_step A_def [symmetric] C_def [symmetric] Cons
        using IH [of A "y # c # cs"] m nl by simp
    next
      case 2
      then show ?thesis
        unfolding target unfolding Merge_loop_step A_def [symmetric] C_def [symmetric] Cons
        using IH [of A "y # cs"] m nl by simp
    next
      case 3
      then show ?thesis
        unfolding target unfolding Merge_loop_step A_def [symmetric] C_def [symmetric] Cons
        using IH [of A "c # cs"] mc nl by simp
    qed
  qed
qed simp

lemma passMetas_Merge_eq: "tiers_sorted other \<Longrightarrow> passMetas_Merge old other = tier_merge old other"
  using Merge_loop_merge [of other "[]" old] by (auto simp: passMetas_Merge_def split: prod.splits)

text \<open>Collecting one pass is a merge with a singleton.\<close>

lemma Collect_loop_merge: "Collect_loop pass pm = tier_merge pm [pass]"
  by (induction pm) (auto simp: not_less)

lemma passMetas_Collect_sorted: "tiers_sorted pm \<Longrightarrow> tiers_sorted (passMetas_Collect pm pass)"
  by (simp add: passMetas_Collect_def Collect_loop_merge tier_merge_sorted)

lemma passMetas_Delete_sorted: "tiers_sorted pm \<Longrightarrow> tiers_sorted (passMetas_Delete pm p)"
  by (induction pm) (auto simp: passMetas_Delete_def)

section \<open>Inherited precedences\<close>

text \<open>
  The precedences of a pass have a zero byte, so the verdict byte of an entry survives the move to
  another tier.
\<close>

lemma unat_and_255: "unat (x AND 255 :: u32) = unat x mod 256"
  by (simp only: and_255 unat_take) simp

lemma and_255_add:
  assumes "c AND 255 = (0 :: u32)"
  shows "(d + c) AND 255 = d AND 255"
proof -
  have "unat c mod 256 = 0" using assms unat_and_255 [of c] by simp
  moreover have "unat (d + c) mod 256 = (unat d + unat c) mod 256"
    by (simp add: unat_word_ariths mod_mod_cancel)
  ultimately have "unat (d + c) mod 256 = unat d mod 256"
    by (simp add: mod_add_eq [symmetric] del: mod_add_eq)
  then show ?thesis by (simp only: word_unat_eq_iff unat_and_255)
qed

lemma and_255_diff_add:
  assumes "b AND 255 = 0" "c AND 255 = (0 :: u32)"
  shows "(a - b + c) AND 255 = a AND 255"
  using and_255_add [OF assms(2), of "a - b"] and_255_add [OF assms(1), of "a - b"] by simp

lemma InheritPassPrecedence_byte:
  "(\<forall>m \<in> set passes. pm_tierMinPrecedence m AND 255 = 0 \<and> pm_precedence m AND 255 = 0) \<Longrightarrow>
    InheritPassPrecedence p passes AND 255 = p AND 255"
proof (induction passes arbitrary: p)
  case (Cons m ms)
  have "InheritPassPrecedence p (m # ms) =
      InheritPassPrecedence (p - pm_tierMinPrecedence m + pm_precedence m) ms"
    by (simp add: InheritPassPrecedence_def)
  then show ?case
    using Cons and_255_diff_add [of "pm_tierMinPrecedence m" "pm_precedence m" p] by simp
qed (simp add: InheritPassPrecedence_def)

section \<open>Properties\<close>

text \<open>
  C27.  The in-place merge of pass metadata equals the merge of two sorted lists that keeps the
  higher precedence of each tier, and its result is sorted by tier again.
\<close>

theorem passMetas_Merge_reference:
  assumes "tiers_sorted old" "tiers_sorted other"
  shows "passMetas_Merge old other = tier_merge old other \<and> tiers_sorted (passMetas_Merge old other)"
  using assms by (simp add: passMetas_Merge_eq tier_merge_sorted)

theorem passMetas_Merge_reference_witness:
  "passMetas_Merge [\<lparr>pm_precedence = 5, pm_tierMaxPrecedence = 9, pm_tierMinPrecedence = 4\<rparr>]
     [\<lparr>pm_precedence = 2, pm_tierMaxPrecedence = 3, pm_tierMinPrecedence = 1\<rparr>] =
   tier_merge [\<lparr>pm_precedence = 5, pm_tierMaxPrecedence = 9, pm_tierMinPrecedence = 4\<rparr>]
     [\<lparr>pm_precedence = 2, pm_tierMaxPrecedence = 3, pm_tierMinPrecedence = 1\<rparr>]"
  using passMetas_Merge_reference [of "[\<lparr>pm_precedence = 5, pm_tierMaxPrecedence = 9, pm_tierMinPrecedence = 4\<rparr>]"
      "[\<lparr>pm_precedence = 2, pm_tierMaxPrecedence = 3, pm_tierMinPrecedence = 1\<rparr>]"] by simp

text \<open>
  C28.  Inheriting the precedence of covering passes moves an entry to another tier but keeps the
  verdict byte, so a deny stays a deny and a redirect keeps its listener priority, provided the
  precedences of the passes have a zero verdict byte (as \<^verbatim>\<open>PassEntry\<close> builds them).
\<close>

theorem InheritPassPrecedence_keeps_verdict:
  assumes "\<forall>m \<in> set passes. pm_tierMinPrecedence m AND 255 = 0 \<and> pm_precedence m AND 255 = 0"
  shows "(Precedence_IsDeny (InheritPassPrecedence p passes) \<longleftrightarrow> Precedence_IsDeny p) \<and>
    (Precedence_IsAllow (InheritPassPrecedence p passes) \<longleftrightarrow> Precedence_IsAllow p) \<and>
    Precedence_ListenerPriority (InheritPassPrecedence p passes) = Precedence_ListenerPriority p"
  using InheritPassPrecedence_byte [OF assms]
  by (simp add: Precedence_IsDeny_def Precedence_IsAllow_def Precedence_IsPass_def Precedence_ListenerPriority_def
      precedence_consts)

theorem InheritPassPrecedence_keeps_verdict_witness:
  "Precedence_IsDeny (InheritPassPrecedence 0x1FF
     [\<lparr>pm_precedence = 0x900, pm_tierMaxPrecedence = 0xAFF, pm_tierMinPrecedence = 0x800\<rparr>])"
  using InheritPassPrecedence_keeps_verdict
    [of "[\<lparr>pm_precedence = 0x900, pm_tierMaxPrecedence = 0xAFF, pm_tierMinPrecedence = 0x800\<rparr>]" "0x1FF"]
  by (simp add: Precedence_IsDeny_def precedence_consts)

end
