(* ===== verification/MapState.thy ===== *)
theory MapState
  imports PassMetas Identity RuleOrigin
begin

text \<open>
  The policy map state (\<^verbatim>\<open>pkg/policy/mapstate.go\<close>): the entries, the trie that indexes
  them by direction, protocol and port, and the index by identity.

  Go maps are association lists with distinct keys, sets are distinct lists; a map or set that can be
  nil is optional.  The value of a trie node is a set of identities that Go updates in place; the
  model writes the changed set back to its node (\<^verbatim>\<open>trie_setValue\<close>).

  The iterations over keys are lists.  A Go loop over such an iteration may delete or update the key
  it is visiting, and nothing else; it visits a key once, so looking all the values up before the
  loop gives the same values as looking each one up when its turn comes.
\<close>

section \<open>Data\<close>

record mapStateEntry =
  me_entry :: MapStateEntry
  me_passes :: "passMetas option"
  me_derivedFromRules :: ruleOrigin

type_synonym IDSet = "NumericIdentity list"
type_synonym LPMKeys = "LPMKey list"
type_synonym mapStateMap = "(Key \<times> mapStateEntry) list"

record mapState =
  ms_clusterInfo :: ClusterInfo
  ms_entries :: mapStateMap
  ms_trie :: "(LPMKey, IDSet) trie"
  ms_byId :: "(NumericIdentity \<times> LPMKeys) list option"

record ChangeState =
  cs_Adds :: Keys
  cs_Deletes :: Keys
  cs_old :: "mapStateMap option"

abbreviation me_Precedence :: "mapStateEntry \<Rightarrow> Precedence" where
  "me_Precedence e \<equiv> mse_Precedence (me_entry e)"

abbreviation me_IsValid :: "mapStateEntry \<Rightarrow> bool" where
  "me_IsValid e \<equiv> IsValid (me_entry e)"

abbreviation me_IsDeny :: "mapStateEntry \<Rightarrow> bool" where
  "me_IsDeny e \<equiv> MapStateEntry_IsDeny (me_entry e)"

abbreviation mkKey :: "LPMKey \<Rightarrow> NumericIdentity \<Rightarrow> Key" where
  "mkKey l nid \<equiv> \<lparr>key_LPMKey = l, Identity = nid\<rparr>"

type_synonym policyFeatures = u8

definition denyRules :: policyFeatures where "denyRules = 1"

definition redirectRules :: policyFeatures where "redirectRules = 2"

definition orderedRules :: policyFeatures where "orderedRules = 4"

definition passRules :: policyFeatures where "passRules = 8"

definition namedPortRules :: policyFeatures where "namedPortRules = 16"

definition precedenceFeatures :: policyFeatures where
  "precedenceFeatures = denyRules OR redirectRules OR orderedRules"

definition features_contains :: "policyFeatures \<Rightarrow> policyFeatures \<Rightarrow> bool" where
  "features_contains pf feature \<longleftrightarrow> pf AND feature \<noteq> 0"

definition setFeature :: "policyFeatures \<Rightarrow> policyFeatures \<Rightarrow> policyFeatures" where
  "setFeature pf feature = pf OR feature"

section \<open>Entries\<close>

definition PassEntry :: "Priority \<Rightarrow> Priority \<Rightarrow> Priority \<Rightarrow> ruleOrigin \<Rightarrow> mapStateEntry" where
  "PassEntry priority tierPriority nextTierPriority derivedFrom =
     \<lparr>me_entry = InvalidEntry,
      me_passes = Some [\<lparr>pm_precedence = ToPassPrecedence priority,
                         pm_tierMaxPrecedence = ToDenyPrecedence tierPriority,
                         pm_tierMinPrecedence = ToPassPrecedence nextTierPriority + 0x100\<rparr>],
      me_derivedFromRules = derivedFrom\<rparr>"

definition newMapStateEntry ::
  "Priority \<Rightarrow> Priority \<Rightarrow> Priority \<Rightarrow> ruleOrigin \<Rightarrow> u16 \<Rightarrow> ListenerPriority \<Rightarrow> Verdict \<Rightarrow> mapStateEntry"
where
  "newMapStateEntry priority tierPriority nextTierPriority derivedFrom proxyPort listenerPriority verdict =
     (if verdict = Pass then PassEntry priority tierPriority nextTierPriority derivedFrom
      else \<lparr>me_entry = NewMapStateEntry priority (verdict = Deny) proxyPort listenerPriority,
            me_passes = None, me_derivedFromRules = derivedFrom\<rparr>)"

definition makeInvalidEntry :: mapStateEntry where
  "makeInvalidEntry = \<lparr>me_entry = InvalidEntry, me_passes = None, me_derivedFromRules = None\<rparr>"

definition IsPassEntry :: "mapStateEntry \<Rightarrow> bool" where
  "IsPassEntry e \<longleftrightarrow> me_passes e \<noteq> None"

definition Passes :: "mapStateEntry \<Rightarrow> passMeta list" where
  "Passes e = (case me_passes e of None \<Rightarrow> [] | Some ps \<Rightarrow> ps)"

definition equivalent :: "mapStateEntry \<Rightarrow> mapStateEntry \<Rightarrow> bool" where
  "equivalent e o' \<longleftrightarrow>
     me_entry e = me_entry o' \<and> me_passes e = me_passes o' \<and>
     (me_derivedFromRules e = me_derivedFromRules o' \<or>
      LogString (me_derivedFromRules e) = LogString (me_derivedFromRules o'))"

definition mapStateEntry_Equal :: "mapStateEntry \<Rightarrow> mapStateEntry \<Rightarrow> bool" where
  "mapStateEntry_Equal e o' \<longleftrightarrow> equivalent e o' \<and> me_derivedFromRules e = me_derivedFromRules o'"

section \<open>The container\<close>

record MapStateSizes =
  mss_entries :: nat
  mss_byId :: "(NumericIdentity \<times> nat) list"

definition mapState_Len :: "mapState \<Rightarrow> nat" where
  "mapState_Len ms = length (ms_entries ms)"

definition Sizes :: "mapState option \<Rightarrow> MapStateSizes" where
  "Sizes mso =
     (case mso of
        None \<Rightarrow> \<lparr>mss_entries = 0, mss_byId = []\<rparr>
      | Some ms \<Rightarrow>
          \<lparr>mss_entries = mapState_Len ms,
           mss_byId = (case ms_byId ms of None \<Rightarrow> [] | Some m \<Rightarrow> map (\<lambda>(nid, keys). (nid, length keys)) m)\<rparr>)"

text \<open>
  The sizes only preallocate, except that the identity index starts with an empty set for every
  identity of the sizes.
\<close>

definition newMapState :: "MapStateSizes \<Rightarrow> policyFeatures \<Rightarrow> ClusterInfo \<Rightarrow> mapState" where
  "newMapState sizes features clusterInfo =
     \<lparr>ms_clusterInfo = clusterInfo, ms_entries = [], ms_trie = NewTrie MapStatePrefixLen,
      ms_byId = (if features AND (passRules OR namedPortRules) \<noteq> 0
                 then Some (map (\<lambda>(nid, n). (nid, [])) (mss_byId sizes)) else None)\<rparr>"

definition mapState_get :: "mapState \<Rightarrow> Key \<Rightarrow> mapStateEntry option" where
  "mapState_get ms k = map_of (ms_entries ms) k"

definition mapState_Get :: "mapState \<Rightarrow> Key \<Rightarrow> MapStateEntry option" where
  "mapState_Get ms k = (case mapState_get ms k of None \<Rightarrow> None | Some v \<Rightarrow> Some (me_entry v))"

definition mapState_Empty :: "mapState \<Rightarrow> bool" where
  "mapState_Empty ms \<longleftrightarrow> length (ms_entries ms) = 0"

text \<open>The parts of \<^verbatim>\<open>upsert\<close> and \<^verbatim>\<open>delete\<close> that keep the two indices.\<close>

definition trie_addID :: "(LPMKey, IDSet) trie \<Rightarrow> LPMKey \<Rightarrow> NumericIdentity \<Rightarrow> (LPMKey, IDSet) trie" where
  "trie_addID t l nid =
     (let p = PrefixLength l in
      case ExactLookup LPMKey_ops t p l of
        None \<Rightarrow> trie_setValue LPMKey_ops (fst (Upsert LPMKey_ops t p l [])) p l (List.insert nid [])
      | Some idSet \<Rightarrow> trie_setValue LPMKey_ops t p l (List.insert nid idSet))"

definition byId_add ::
  "(NumericIdentity \<times> LPMKeys) list \<Rightarrow> LPMKey \<Rightarrow> NumericIdentity \<Rightarrow> (NumericIdentity \<times> LPMKeys) list"
where
  "byId_add m l nid =
     (let keys = (case map_of m nid of None \<Rightarrow> [] | Some ks \<Rightarrow> ks)
      in AList.update nid (List.insert l keys) m)"

definition mapState_upsert :: "mapState \<Rightarrow> Key \<Rightarrow> mapStateEntry \<Rightarrow> mapState" where
  "mapState_upsert ms k e =
     (let exists = map_of (ms_entries ms) k \<noteq> None;
          ms1 = ms\<lparr>ms_entries := AList.update k e (ms_entries ms)\<rparr>
      in
      if exists then ms1
      else ms1\<lparr>ms_trie := trie_addID (ms_trie ms) (key_LPMKey k) (Identity k),
               ms_byId := map_option (\<lambda>m. byId_add m (key_LPMKey k) (Identity k)) (ms_byId ms)\<rparr>)"

definition trie_removeID :: "(LPMKey, IDSet) trie \<Rightarrow> LPMKey \<Rightarrow> NumericIdentity \<Rightarrow> (LPMKey, IDSet) trie" where
  "trie_removeID t l nid =
     (let p = PrefixLength l in
      case ExactLookup LPMKey_ops t p l of
        None \<Rightarrow> t
      | Some idSet \<Rightarrow>
          let idSet' = removeAll nid idSet;
              t' = trie_setValue LPMKey_ops t p l idSet'
          in if length idSet' = 0 then fst (Delete LPMKey_ops t' p l) else t')"

definition byId_remove ::
  "(NumericIdentity \<times> LPMKeys) list \<Rightarrow> LPMKey \<Rightarrow> NumericIdentity \<Rightarrow> (NumericIdentity \<times> LPMKeys) list"
where
  "byId_remove m l nid =
     (case map_of m nid of
        None \<Rightarrow> m
      | Some keys \<Rightarrow>
          let keys' = removeAll l keys
          in if length keys' = 0 then AList.delete nid m else AList.update nid keys' m)"

definition mapState_delete :: "mapState \<Rightarrow> Key \<Rightarrow> mapState" where
  "mapState_delete ms k =
     (if map_of (ms_entries ms) k = None then ms
      else ms\<lparr>ms_entries := AList.delete k (ms_entries ms),
              ms_trie := trie_removeID (ms_trie ms) (key_LPMKey k) (Identity k),
              ms_byId := map_option (\<lambda>m. byId_remove m (key_LPMKey k) (Identity k)) (ms_byId ms)\<rparr>)"

definition mapState_insert :: "mapState \<Rightarrow> Key \<Rightarrow> mapStateEntry \<Rightarrow> mapState" where
  "mapState_insert ms k v = mapState_upsert ms k v"

definition updateExisting :: "mapState \<Rightarrow> Key \<Rightarrow> mapStateEntry \<Rightarrow> mapState" where
  "updateExisting ms k v = ms\<lparr>ms_entries := AList.update k v (ms_entries ms)\<rparr>"

definition mapState_ForEach :: "mapState \<Rightarrow> (Key \<times> MapStateEntry \<Rightarrow> 's \<Rightarrow> bool \<times> 's) \<Rightarrow> 's \<Rightarrow> bool \<times> 's" where
  "mapState_ForEach ms f s = iterate (\<lambda>(k, e). f (k, me_entry e)) (ms_entries ms) s"

definition mapState_forEach :: "mapState \<Rightarrow> (Key \<times> mapStateEntry \<Rightarrow> 's \<Rightarrow> bool \<times> 's) \<Rightarrow> 's \<Rightarrow> bool \<times> 's" where
  "mapState_forEach ms f s = iterate f (ms_entries ms) s"

definition mapState_Equals :: "mapState \<Rightarrow> (Key \<times> MapStateEntry) list \<Rightarrow> bool" where
  "mapState_Equals msA msB \<longleftrightarrow>
     mapState_Len msA = length msB \<and>
     (\<forall>(kA, vA) \<in> set (ms_entries msA). map_of msB kA = Some (me_entry vA))"

definition mapState_Equal :: "mapState \<Rightarrow> mapState \<Rightarrow> bool" where
  "mapState_Equal msA msB \<longleftrightarrow>
     mapState_Len msA = mapState_Len msB \<and>
     (\<forall>(kA, vA) \<in> set (ms_entries msA).
        (case mapState_get msB kA of None \<Rightarrow> False | Some vB \<Rightarrow> mapStateEntry_Equal vB vA))"

section \<open>Iterations over keys\<close>

definition forKey :: "mapState \<Rightarrow> Key \<Rightarrow> (Key \<times> mapStateEntry) list" where
  "forKey ms k = (case map_of (ms_entries ms) k of Some e \<Rightarrow> [(k, e)] | None \<Rightarrow> [])"

definition forCoveredIDs :: "mapState \<Rightarrow> NumericIdentity \<Rightarrow> LPMKey \<Rightarrow> IDSet \<Rightarrow> (Key \<times> mapStateEntry) list" where
  "forCoveredIDs ms agg l idSet =
     concat (map (\<lambda>nid. if aggregates agg nid (ms_clusterInfo ms) then forKey ms (mkKey l nid) else []) idSet)"

definition forID :: "mapState \<Rightarrow> Key \<Rightarrow> IDSet \<Rightarrow> (Key \<times> mapStateEntry) list" where
  "forID ms k idSet = (if Identity k \<in> set idSet then forKey ms k else [])"

definition CoveringBroaderOrEqualKeys :: "mapState \<Rightarrow> Key \<Rightarrow> (Key \<times> mapStateEntry) list" where
  "CoveringBroaderOrEqualKeys ms key =
     (let agg = aggregateFor (Identity key) (ms_clusterInfo ms) in
      concat (map (\<lambda>(l, idSet).
          forID ms (mkKey l agg) idSet @
          (if Identity key \<noteq> agg then forID ms (mkKey l (Identity key)) idSet else []))
        (ancestor_seq LPMKey_ops (AncestorIterator (ms_trie ms) (PrefixLength (key_LPMKey key)) (key_LPMKey key)))))"

definition BroaderOrEqualKeys :: "mapState \<Rightarrow> Key \<Rightarrow> (Key \<times> mapStateEntry) list" where
  "BroaderOrEqualKeys ms key =
     (let agg = aggregateFor (Identity key) (ms_clusterInfo ms) in
      concat (map (\<lambda>(l, idSet).
          forID ms (mkKey l agg) idSet @
          (if Identity key \<noteq> agg then forID ms (mkKey l (Identity key)) idSet else []) @
          (if Identity key = agg then forCoveredIDs ms agg l idSet else []))
        (ancestor_seq LPMKey_ops (AncestorIterator (ms_trie ms) (PrefixLength (key_LPMKey key)) (key_LPMKey key)))))"

definition CoveredNarrowerOrEqualKeys :: "mapState \<Rightarrow> Key \<Rightarrow> (Key \<times> mapStateEntry) list" where
  "CoveredNarrowerOrEqualKeys ms key =
     (let agg = aggregateFor (Identity key) (ms_clusterInfo ms) in
      concat (map (\<lambda>(l, idSet).
          if Identity key = agg then forCoveredIDs ms agg l idSet @ forID ms (mkKey l agg) idSet
          else forID ms (mkKey l (Identity key)) idSet)
        (descendant_seq (DescendantIterator LPMKey_ops (ms_trie ms) (PrefixLength (key_LPMKey key)) (key_LPMKey key)))))"

definition NarrowerOrEqualKeys :: "mapState \<Rightarrow> Key \<Rightarrow> (Key \<times> mapStateEntry) list" where
  "NarrowerOrEqualKeys ms key =
     (let wc = aggregateFor (Identity key) (ms_clusterInfo ms) in
      concat (map (\<lambda>(l, idSet).
          (if Identity key = wc then forCoveredIDs ms wc l idSet else []) @
          forID ms (mkKey l (Identity key)) idSet @
          (if Identity key \<noteq> wc then forID ms (mkKey l wc) idSet else []))
        (descendant_seq (DescendantIterator LPMKey_ops (ms_trie ms) (PrefixLength (key_LPMKey key)) (key_LPMKey key)))))"

definition CoveringKeysWithSameID :: "mapState \<Rightarrow> Key \<Rightarrow> (Key \<times> mapStateEntry) list" where
  "CoveringKeysWithSameID ms key =
     concat (map (\<lambda>(l, idSet). forID ms (mkKey l (Identity key)) idSet)
       (ancestorLPF_seq
         (AncestorLongestPrefixFirstIterator LPMKey_ops (ms_trie ms) (PrefixLength (key_LPMKey key)) (key_LPMKey key))))"

definition LPMAncestors :: "mapState \<Rightarrow> Key \<Rightarrow> (Key \<times> mapStateEntry) list" where
  "LPMAncestors ms key =
     (let agg = aggregateFor (Identity key) (ms_clusterInfo ms) in
      concat (map (\<lambda>(l, idSet).
          forID ms (mkKey l (Identity key)) idSet @
          (if Identity key \<noteq> agg then forID ms (mkKey l agg) idSet else []))
        (ancestorLPF_seq
          (AncestorLongestPrefixFirstIterator LPMKey_ops (ms_trie ms) (PrefixLength (key_LPMKey key)) (key_LPMKey key)))))"

section \<open>Lookup\<close>

text \<open>
  The loop keeps the first valid entry with another identity than the aggregate, and the first valid
  entry with the aggregate identity, and stops when it has both.
\<close>

definition lookup_step ::
  "NumericIdentity \<Rightarrow> Key \<times> mapStateEntry \<Rightarrow>
   (Key \<times> mapStateEntry) option \<times> (Key \<times> mapStateEntry) option \<Rightarrow>
   bool \<times> (Key \<times> mapStateEntry) option \<times> (Key \<times> mapStateEntry) option"
where
  "lookup_step agg kv s =
     (case kv of (k, v) \<Rightarrow> case s of (ide, agge) \<Rightarrow>
        let ide = (if ide = None \<and> Identity k \<noteq> agg \<and> me_IsValid v then Some (k, v) else ide);
            agge = (if agge = None \<and> Identity k = agg \<and> me_IsValid v then Some (k, v) else agge)
        in (\<not> (ide \<noteq> None \<and> agge \<noteq> None), ide, agge))"

definition lookup_choose ::
  "(Key \<times> mapStateEntry) option \<Rightarrow> (Key \<times> mapStateEntry) option \<Rightarrow> mapStateEntry \<times> bool"
where
  "lookup_choose ide agge =
     (case (ide, agge) of
        (Some (_, idEntry), None) \<Rightarrow> (idEntry, True)
      | (None, Some (_, aggEntry)) \<Rightarrow> (aggEntry, True)
      | (Some (idKey, idEntry), Some (aggKey, aggEntry)) \<Rightarrow>
          if me_Precedence idEntry = MaxPrecedence then (idEntry, True)
          else if me_Precedence idEntry > me_Precedence aggEntry then (idEntry, True)
          else if me_Precedence aggEntry > me_Precedence idEntry then (aggEntry, True)
          else if PrefixLength (key_LPMKey aggKey) > PrefixLength (key_LPMKey idKey) then (aggEntry, True)
          else (idEntry, True)
      | (None, None) \<Rightarrow>
          (\<lparr>me_entry = DenyEntry, me_passes = None, me_derivedFromRules = NilRuleOrigin\<rparr>, False))"

definition mapState_lookup :: "mapState \<Rightarrow> Key \<Rightarrow> mapStateEntry \<times> bool" where
  "mapState_lookup ms key =
     (let agg = aggregateFor (Identity key) (ms_clusterInfo ms)
      in case iterate (lookup_step agg) (LPMAncestors ms key) (None, None) of
           (_, ide, agge) \<Rightarrow> lookup_choose ide agge)"

end
