(* ===== verification/MapStateUpdate.thy ===== *)
theory MapStateUpdate
  imports MapState
begin

text \<open>
  The updates of the policy map state (\<^verbatim>\<open>pkg/policy/mapstate.go\<close>): adding and deleting
  entries while recording the changes, the insertion of a rule without and with pass verdicts, and
  the undoing of changes.  The maps of a \<^verbatim>\<open>ChangeState\<close> are updated in place in the code;
  here each function returns the changed record.
\<close>

type_synonym mstate = "mapState \<times> ChangeState"

section \<open>Recorded changes\<close>

definition NoChanges :: ChangeState where
  "NoChanges = \<lparr>cs_Adds = None, cs_Deletes = None, cs_old = None\<rparr>"

definition ChangeState_Empty :: "ChangeState \<Rightarrow> bool" where
  "ChangeState_Empty c \<longleftrightarrow>
     (case cs_Adds c of None \<Rightarrow> 0 | Some a \<Rightarrow> length a) + (case cs_Deletes c of None \<Rightarrow> 0 | Some d \<Rightarrow> length d) +
     (case cs_old c of None \<Rightarrow> 0 | Some o' \<Rightarrow> length o') = 0"

definition ChangeState_Size :: "ChangeState \<Rightarrow> int" where
  "ChangeState_Size c =
     (let deleteLen = (case cs_Deletes c of None \<Rightarrow> 0
                       | Some d \<Rightarrow> length (filter (\<lambda>k. \<not> Keys_Has (cs_Adds c) k) d))
      in int (case cs_Adds c of None \<Rightarrow> 0 | Some a \<Rightarrow> length a) - int deleteLen)"

definition insertOldIfNotExists :: "ChangeState \<Rightarrow> Key \<Rightarrow> mapStateEntry \<Rightarrow> bool \<times> ChangeState" where
  "insertOldIfNotExists changes key entry =
     (case cs_old changes of
        None \<Rightarrow> (False, changes)
      | Some old \<Rightarrow>
          if map_of old key = None \<and> \<not> Keys_Has (cs_Adds changes) key
          then (True, changes\<lparr>cs_old := Some (AList.update key entry old)\<rparr>)
          else (False, changes))"

text \<open>The recording of an incremental add; a nil map is left alone.\<close>

definition recordAdd :: "ChangeState \<Rightarrow> Key \<Rightarrow> ChangeState" where
  "recordAdd changes key =
     (case cs_Adds changes of
        None \<Rightarrow> changes
      | Some adds \<Rightarrow>
          changes\<lparr>cs_Adds := Some (List.insert key adds),
                  cs_Deletes := map_option (removeAll key) (cs_Deletes changes)\<rparr>)"

definition addKeyWithChanges :: "mapState \<Rightarrow> Key \<Rightarrow> mapStateEntry \<Rightarrow> ChangeState \<Rightarrow> bool \<times> mstate" where
  "addKeyWithChanges ms key entry changes =
     (case mapState_get ms key of
        None \<Rightarrow> (True, mapState_insert ms key entry, recordAdd changes key)
      | Some oldEntry \<Rightarrow>
          if mapStateEntry_Equal entry oldEntry then (False, ms, changes)
          else
            let changes = snd (insertOldIfNotExists changes key oldEntry);
                datapathEqual = (me_entry oldEntry = me_entry entry);
                (newPasses, passUpdated) = passMetas_MergeClone (me_passes oldEntry) (me_passes entry);
                e1 = oldEntry\<lparr>me_passes := newPasses\<rparr>;
                taken = e1\<lparr>me_entry := me_entry entry, me_derivedFromRules := me_derivedFromRules entry\<rparr>;
                merged = e1\<lparr>me_entry := MapStateEntry_Merge (me_entry oldEntry) (me_entry entry),
                            me_derivedFromRules :=
                              ruleOrigin_Merge (me_derivedFromRules oldEntry) (me_derivedFromRules entry)\<rparr>;
                result =
                  (if \<not> me_IsValid oldEntry then Some taken
                   else if me_IsValid entry then
                     (if ProxyPortPrecedenceMayDiffer (me_Precedence oldEntry) (me_Precedence entry) then Some merged
                      else if me_Precedence oldEntry < me_Precedence entry then Some taken
                      else if \<not> passUpdated then None
                      else Some e1)
                   else Some e1)
            in case result of
                 None \<Rightarrow> (False, ms, changes)
               | Some e \<Rightarrow>
                   (True, updateExisting ms key e, if datapathEqual then changes else recordAdd changes key))"

definition deleteExistingWithChanges :: "Key \<Rightarrow> mapStateEntry \<Rightarrow> mstate \<Rightarrow> mstate" where
  "deleteExistingWithChanges key entry st =
     (case st of (ms, changes) \<Rightarrow>
        let (inserted, changes) = insertOldIfNotExists changes key entry;
            changes = (if inserted then changes\<lparr>cs_Deletes := map_option (List.insert key) (cs_Deletes changes)\<rparr>
                       else changes);
            changes = changes\<lparr>cs_Adds := map_option (removeAll key) (cs_Adds changes)\<rparr>
        in (mapState_delete ms key, changes))"

definition deleteKeyWithChanges :: "Key \<Rightarrow> mstate \<Rightarrow> mstate" where
  "deleteKeyWithChanges key st =
     (case mapState_get (fst st) key of
        None \<Rightarrow> st
      | Some entry \<Rightarrow> deleteExistingWithChanges key entry st)"

definition deleteIdWithChanges :: "NumericIdentity \<Rightarrow> mstate \<Rightarrow> mstate" where
  "deleteIdWithChanges nid st =
     (case Option.bind (ms_byId (fst st)) (\<lambda>m. map_of m nid) of
        None \<Rightarrow> st
      | Some lpmKeys \<Rightarrow> fold (\<lambda>l. deleteKeyWithChanges (mkKey l nid)) lpmKeys st)"

definition revertChanges :: "mapState \<Rightarrow> ChangeState \<Rightarrow> mapState" where
  "revertChanges ms changes =
     (let ms1 = (case cs_Adds changes of None \<Rightarrow> ms | Some adds \<Rightarrow> fold (\<lambda>k ms. mapState_delete ms k) adds ms)
      in case cs_old changes of
           None \<Rightarrow> ms1
         | Some old \<Rightarrow> fold (\<lambda>(k, v) ms. mapState_insert ms k v) old ms1)"

section \<open>Insertion with pass verdicts\<close>

definition pruneCoveredNarrowerKey ::
  "Key \<times> mapStateEntry \<Rightarrow> Key \<Rightarrow> mapStateEntry \<Rightarrow> Precedence \<Rightarrow> mstate \<Rightarrow> mstate"
where
  "pruneCoveredNarrowerKey kv key entry precedence st =
     (case kv of (k, v) \<Rightarrow> case st of (ms, changes) \<Rightarrow>
        let deletePassMeta = (\<not> list_ex (\<lambda>pass. isDifferentTierOrHigherPrecedence pass precedence) (Passes v));
            deletePassEntry = list_ex (\<lambda>pass. \<not> isDifferentTierOrHigherPrecedence pass precedence) (Passes v);
            deleteEntry =
              (\<not> me_IsValid v \<or> me_Precedence v < precedence \<or>
               me_IsDeny v \<and> me_Precedence v = precedence \<and> k \<noteq> key);
            deleteEntry =
              (deleteEntry \<or> key_LPMKey key = key_LPMKey k \<and>
               aggregates (Identity key) (Identity k) (ms_clusterInfo ms) \<and> equivalent v entry)
        in
        if deletePassMeta \<and> deleteEntry then deleteExistingWithChanges k v st
        else if deletePassMeta \<or> deletePassEntry \<or> deleteEntry then
          let v1 = (if deletePassMeta then v\<lparr>me_passes := None\<rparr>
                    else if deletePassEntry
                      then v\<lparr>me_passes := map_option (\<lambda>ps. passMetas_Delete ps precedence) (me_passes v)\<rparr>
                    else v);
              v2 = (if deleteEntry then v1\<lparr>me_entry := Invalidate (me_entry v1)\<rparr> else v1)
          in (updateExisting ms k v2, changes)
        else st)"

type_synonym keySlice = "Key list"

definition addNewKey :: "Key \<Rightarrow> keySlice \<times> Keys \<Rightarrow> keySlice \<times> Keys" where
  "addNewKey key s =
     (case s of (sp, doneKeys) \<Rightarrow>
        if \<not> Keys_Has doneKeys key then (sp @ [key], Keys_Insert doneKeys key) else s)"

definition addNewKeys :: "Keys \<Rightarrow> keySlice \<times> Keys \<Rightarrow> keySlice \<times> Keys" where
  "addNewKeys l34Keys s = (case l34Keys of None \<Rightarrow> s | Some ks \<Rightarrow> fold addNewKey ks s)"

definition collectNarrowerPasses ::
  "Precedence \<Rightarrow> Key \<times> mapStateEntry \<Rightarrow> Key \<Rightarrow> ClusterInfo \<Rightarrow> keySlice \<times> Keys \<Rightarrow> keySlice \<times> Keys"
where
  "collectNarrowerPasses tierMaxPrecedence kv key clusterInfo s =
     (case kv of (k, v) \<Rightarrow>
        let k = (if Identity k = aggregateFor (Identity key) clusterInfo then k\<lparr>Identity := Identity key\<rparr> else k)
        in if k \<noteq> key \<and> list_ex (\<lambda>pass. pm_precedence pass > tierMaxPrecedence) (Passes v)
           then addNewKey k s else s)"

text \<open>What a scan of the broader keys accumulates.\<close>

record scanState =
  sc_passes :: passMetas
  sc_l34Keys :: Keys
  sc_doneKeys :: Keys
  sc_bailPrecedence :: Precedence

text \<open>
  The loop over the passes of one broader key.  \<^verbatim>\<open>sub\<close> is the key to insert for a pass key
  that does not cover; \<^verbatim>\<open>main\<close> tells the scan for the inserted key from the scan for a key
  of the work list, which does not bail.  None is the return from the insertion.
\<close>

fun scanPasses :: "bool \<Rightarrow> Precedence \<Rightarrow> bool \<Rightarrow> Key \<Rightarrow> passMeta list \<Rightarrow> scanState \<Rightarrow> scanState option" where
  "scanPasses main precedence isCoveringKey sub [] s = Some s"
| "scanPasses main precedence isCoveringKey sub (pass # passes) s =
     (if pm_tierMinPrecedence pass > precedence then
        (if \<not> isCoveringKey then Some (s\<lparr>sc_l34Keys := Keys_Insert (sc_l34Keys s) sub\<rparr>)
         else scanPasses main precedence isCoveringKey sub passes
                (s\<lparr>sc_passes := passMetas_Collect (sc_passes s) pass\<rparr>))
      else if main \<and> isCoveringKey \<and> pm_precedence pass > precedence then None
      else scanPasses main precedence isCoveringKey sub passes s)"

definition bails :: "Key \<times> mapStateEntry \<Rightarrow> Key \<Rightarrow> mapStateEntry \<Rightarrow> bool" where
  "bails kv key entry =
     (case kv of (k, v) \<Rightarrow>
        me_IsValid v \<and>
        (me_Precedence v > me_Precedence entry \<or>
         me_IsDeny entry \<and> me_Precedence v = me_Precedence entry \<and> k \<noteq> key))"

fun scanKeys ::
  "bool \<Rightarrow> Precedence \<Rightarrow> NumericIdentity \<Rightarrow> Key \<Rightarrow> mapStateEntry \<Rightarrow> (Key \<times> mapStateEntry) list \<Rightarrow> scanState \<Rightarrow>
   scanState option"
where
  "scanKeys main tierMaxPrecedence aggregateID key entry [] s = Some s"
| "scanKeys main tierMaxPrecedence aggregateID key entry ((k, v) # kvs) s =
     (let isCoveringKey = (Identity key \<noteq> aggregateID \<or> Identity k = aggregateID);
          sub = Key_WithIdentity key (Identity k)
      in
      case scanPasses main (me_Precedence entry) isCoveringKey sub (Passes v) s of
        None \<Rightarrow> None
      | Some s1 \<Rightarrow>
          if bails (k, v) key entry \<and> isCoveringKey \<and> main \<and> me_Precedence v \<le> tierMaxPrecedence then None
          else
            let s2 =
              (if \<not> bails (k, v) key entry then s1
               else if isCoveringKey then
                 (if me_Precedence v > tierMaxPrecedence \<and> me_Precedence v > sc_bailPrecedence s1
                  then s1\<lparr>sc_bailPrecedence := me_Precedence v\<rparr> else s1)
               else if me_Precedence v \<le> tierMaxPrecedence
                 then s1\<lparr>sc_doneKeys := Keys_Insert (sc_doneKeys s1) sub\<rparr>
               else s1)
            in scanKeys main tierMaxPrecedence aggregateID key entry kvs s2)"

text \<open>
  Every key that a scan collects has another identity than the aggregate, and it is collected only
  for a key with the aggregate identity.
\<close>

lemma scanPasses_l34:
  assumes "scanPasses main p cov sub passes s = Some s'"
  shows "sc_l34Keys s' = sc_l34Keys s \<or> \<not> cov \<and> sc_l34Keys s' = Keys_Insert (sc_l34Keys s) sub"
  using assms
  by (induction main p cov sub passes s rule: scanPasses.induct) (auto split: if_splits)

lemma scanPasses_fields:
  assumes "scanPasses main p cov sub passes s = Some s'"
  shows "sc_doneKeys s' = sc_doneKeys s" "sc_bailPrecedence s' = sc_bailPrecedence s"
  using assms
  by (induction main p cov sub passes s rule: scanPasses.induct) (auto split: if_splits)

definition Keys_set :: "Keys \<Rightarrow> Key set" where
  "Keys_set ks = {k. Keys_Has ks k}"

lemma Keys_set_simps [simp]:
  "Keys_set None = {}" "Keys_set (Some xs) = set xs" "Keys_set (Keys_Insert ks k) = insert k (Keys_set ks)"
  by (auto simp: Keys_set_def Keys_Has_def Keys_Insert_def split: option.splits)

lemma scanKeys_l34:
  assumes "scanKeys main tm agg key entry kvs s = Some s'" "k \<in> Keys_set (sc_l34Keys s')"
  shows "k \<in> Keys_set (sc_l34Keys s) \<or> Identity key = agg \<and> Identity k \<noteq> agg \<and> key_LPMKey k = key_LPMKey key"
  using assms
proof (induction main tm agg key entry kvs s arbitrary: s' rule: scanKeys.induct)
  case (2 main tm agg key entry k1 v kvs s)
  let ?cov = "Identity key \<noteq> agg \<or> Identity k1 = agg"
  let ?sub = "Key_WithIdentity key (Identity k1)"
  obtain s1 where s1: "scanPasses main (me_Precedence entry) ?cov ?sub (Passes v) s = Some s1"
    using 2(2) by (auto simp: Let_def split: option.splits)
  obtain s2 where s2: "scanKeys main tm agg key entry kvs s2 = Some s'" "sc_l34Keys s2 = sc_l34Keys s1"
    and IH: "k \<in> Keys_set (sc_l34Keys s2) \<or> Identity key = agg \<and> Identity k \<noteq> agg \<and> key_LPMKey k = key_LPMKey key"
    using 2(2) s1 2(1) [OF refl refl s1 _ refl _ 2(3)] by (auto simp: Let_def split: if_splits)
  have "Identity ?sub = Identity k1" "key_LPMKey ?sub = key_LPMKey key" by (simp_all add: Key_WithIdentity_def)
  then show ?case using IH s2(2) scanPasses_l34 [OF s1] by auto
qed simp

lemma scanPasses_False: "scanPasses False p cov sub passes s \<noteq> None"
  by (induction "False" p cov sub passes s rule: scanPasses.induct) auto

lemma scanKeys_False: "scanKeys False tm agg key entry kvs s \<noteq> None"
  by (induction kvs arbitrary: s) (auto simp: Let_def scanPasses_False split: option.splits)

lemma addNewKey_keys:
  assumes "addNewKey k (sp, d) = (sp', d')"
  shows "sp' = sp \<or> sp' = sp @ [k]"
  using assms by (auto simp: addNewKey_def split: if_splits)

lemma addNewKeys_keys:
  assumes "addNewKeys ks (sp, d) = (sp', d')"
  shows "\<exists>new. sp' = sp @ new \<and> set new \<subseteq> Keys_set ks"
proof -
  have "\<exists>new. sp' = sp @ new \<and> set new \<subseteq> set xs" if "fold addNewKey xs (sp, d) = (sp', d')" for xs
    using that
  proof (induction xs arbitrary: sp d)
    case (Cons x xs)
    obtain sp1 d1 where 1: "addNewKey x (sp, d) = (sp1, d1)" by fastforce
    then obtain new where "sp' = sp1 @ new" "set new \<subseteq> set xs"
      using Cons by fastforce
    then show ?case using addNewKey_keys [OF 1] by auto
  qed simp
  then show ?thesis using assms by (auto simp: addNewKeys_def split: option.splits)
qed

text \<open>
  The loop over the work list.  A key with the aggregate identity may push keys with specific
  identities; those push nothing.  The scan for a key of the work list always ends with a result.
\<close>

definition subkeyScan ::
  "mapState \<Rightarrow> Precedence \<Rightarrow> NumericIdentity \<Rightarrow> Key \<Rightarrow> mapStateEntry \<Rightarrow> Keys \<Rightarrow> scanState"
where
  "subkeyScan ms tierMaxPrecedence aggregateID key entry doneKeys =
     (let s0 = \<lparr>sc_passes = [], sc_l34Keys = None, sc_doneKeys = doneKeys, sc_bailPrecedence = 0\<rparr>
      in case scanKeys False tierMaxPrecedence aggregateID key entry (BroaderOrEqualKeys ms key) s0 of
           Some s \<Rightarrow> s
         | None \<Rightarrow> s0)"

lemma subkeyScan_l34:
  "k \<in> Keys_set (sc_l34Keys (subkeyScan ms tm agg key entry d)) \<Longrightarrow>
    Identity key = agg \<and> Identity k \<noteq> agg \<and> key_LPMKey k = key_LPMKey key"
  by (auto simp: subkeyScan_def Let_def split: option.splits dest!: scanKeys_l34)

definition pruneCovered :: "Key \<Rightarrow> mapStateEntry \<Rightarrow> Precedence \<Rightarrow> mstate \<Rightarrow> mstate" where
  "pruneCovered key entry precedence st =
     fold (\<lambda>kv. pruneCoveredNarrowerKey kv key entry precedence) (CoveredNarrowerOrEqualKeys (fst st) key) st"

definition addPassed :: "Key \<Rightarrow> mapStateEntry \<Rightarrow> Precedence \<Rightarrow> mstate \<Rightarrow> mstate" where
  "addPassed key entry precedence st =
     (let passed = entry\<lparr>me_entry := (me_entry entry)\<lparr>mse_Precedence := precedence\<rparr>\<rparr>;
          (ms, changes) = pruneCovered key entry precedence st
      in snd (addKeyWithChanges ms key passed changes))"

function insertSubkeys ::
  "Precedence \<Rightarrow> NumericIdentity \<Rightarrow> mapStateEntry \<Rightarrow> keySlice \<Rightarrow> Keys \<Rightarrow> mstate \<Rightarrow> mstate"
where
  "insertSubkeys tierMaxPrecedence aggregateID entry [] doneKeys st = st"
| "insertSubkeys tierMaxPrecedence aggregateID entry (key # keys) doneKeys st =
     (let s = subkeyScan (fst st) tierMaxPrecedence aggregateID key entry doneKeys;
          (keys', doneKeys') = addNewKeys (sc_l34Keys s) (keys, sc_doneKeys s);
          precedence = InheritPassPrecedence (me_Precedence entry) (sc_passes s);
          st' = (if precedence > sc_bailPrecedence s then addPassed key entry precedence st else st)
      in insertSubkeys tierMaxPrecedence aggregateID entry keys' doneKeys' st')"
  by pat_completeness auto
termination
proof (relation "measures [\<lambda>(tm, agg, entry, keys, d, st). length (filter (\<lambda>k. Identity k = agg) keys),
                           \<lambda>(tm, agg, entry, keys, d, st). length keys]", goal_cases)
  case 1
  then show ?case by simp
next
  case (2 tm agg entry key keys d st s x keys' d' precedence st')
  obtain new where new: "keys' = keys @ new" "set new \<subseteq> Keys_set (sc_l34Keys s)"
    using addNewKeys_keys 2 by metis
  have push: "Identity key = agg \<and> Identity k \<noteq> agg" if "k \<in> set new" for k
    using subkeyScan_l34 that new(2) 2(1) by blast
  then have "filter (\<lambda>k. Identity k = agg) new = []" by (auto simp: filter_empty_conv)
  moreover have "new = []" if "Identity key \<noteq> agg"
    using push that by (cases new) auto
  ultimately show ?case using new(1) by auto
qed

definition insertPass :: "Precedence \<Rightarrow> Key \<Rightarrow> mapStateEntry \<Rightarrow> passMeta \<Rightarrow> mstate \<Rightarrow> mstate" where
  "insertPass tierMaxPrecedence key entry newPass st =
     (if list_ex (\<lambda>(k, v).
            me_IsValid v \<and> tierMaxPrecedence \<ge> me_Precedence v \<and> me_Precedence v > pm_precedence newPass \<or>
            list_ex (\<lambda>pass. pm_tierMinPrecedence pass = pm_tierMinPrecedence newPass \<and>
                            pm_precedence pass \<ge> pm_precedence newPass) (Passes v))
          (CoveringBroaderOrEqualKeys (fst st) key) then st
      else
        let (ms, changes) = pruneCovered key entry (pm_precedence newPass) st
        in snd (addKeyWithChanges ms key entry changes))"

text \<open>The loop over the narrower keys, which prunes and collects the keys for the work list.\<close>

definition narrowerStep ::
  "Precedence \<Rightarrow> NumericIdentity \<Rightarrow> Key \<Rightarrow> mapStateEntry \<Rightarrow> bool \<Rightarrow> Key \<times> mapStateEntry \<Rightarrow>
   mstate \<times> (keySlice \<times> Keys) \<Rightarrow> mstate \<times> (keySlice \<times> Keys)"
where
  "narrowerStep tierMaxPrecedence aggregateID key entry bail kv s =
     (case s of (st, ks) \<Rightarrow>
        let isCoveringKey = (Identity key = aggregateID \<or> Identity (fst kv) = Identity key);
            st' = (if \<not> bail \<and> isCoveringKey then pruneCoveredNarrowerKey kv key entry (me_Precedence entry) st
                   else st)
        in (st', collectNarrowerPasses tierMaxPrecedence kv key (ms_clusterInfo (fst st)) ks))"

definition insertVerdict :: "Precedence \<Rightarrow> Key \<Rightarrow> mapStateEntry \<Rightarrow> mstate \<Rightarrow> mstate" where
  "insertVerdict tierMaxPrecedence key entry st =
     (let aggregateID = aggregateFor (Identity key) (ms_clusterInfo (fst st));
          s0 = \<lparr>sc_passes = [], sc_l34Keys = None, sc_doneKeys = None, sc_bailPrecedence = 0\<rparr>
      in
      case scanKeys True tierMaxPrecedence aggregateID key entry (BroaderOrEqualKeys (fst st) key) s0 of
        None \<Rightarrow> st
      | Some s \<Rightarrow>
          let ks = addNewKeys (sc_l34Keys s) ([], sc_doneKeys s);
              bail = (sc_bailPrecedence s > 0);
              (st1, keys, doneKeys) =
                fold (narrowerStep tierMaxPrecedence aggregateID key entry bail)
                  (NarrowerOrEqualKeys (fst st) key) (st, ks);
              precedence = InheritPassPrecedence (me_Precedence entry) (sc_passes s);
              passed = (length (sc_passes s) > 0 \<and> precedence > sc_bailPrecedence s);
              st2 = (if passed then addPassed key entry precedence st1
                     else if \<not> bail then snd (addKeyWithChanges (fst st1) key entry (snd st1))
                     else st1)
          in insertSubkeys tierMaxPrecedence aggregateID entry keys doneKeys st2)"

definition insertWithPasses :: "Precedence \<Rightarrow> Key \<Rightarrow> mapStateEntry \<Rightarrow> mstate \<Rightarrow> mstate" where
  "insertWithPasses tierMaxPrecedence key entry st =
     (if tierMaxPrecedence AND 0xff \<noteq> 0xff \<or> me_IsValid entry \<and> me_Precedence entry > tierMaxPrecedence then st
      else case me_passes entry of
        Some ps \<Rightarrow>
          if length ps \<noteq> 1 \<or> pm_precedence (ps ! 0) > tierMaxPrecedence then st
          else insertPass tierMaxPrecedence key entry (ps ! 0) st
      | None \<Rightarrow> insertVerdict tierMaxPrecedence key entry st)"

section \<open>Insertion\<close>

definition aggregateIsEquivalent :: "mapState \<Rightarrow> Key \<Rightarrow> mapStateEntry \<Rightarrow> bool" where
  "aggregateIsEquivalent ms newKey newEntry =
     (let agg = aggregateFor (Identity newKey) (ms_clusterInfo ms) in
      if agg = Identity newKey then False
      else case map_of (ms_entries ms) (newKey\<lparr>Identity := agg\<rparr>) of
        None \<Rightarrow> False
      | Some aggEntry \<Rightarrow> equivalent aggEntry newEntry)"

text \<open>A key of the set that has no entry would give the zero entry; the index has no such key.\<close>

definition pruneAggregated :: "Key \<Rightarrow> mapStateEntry \<Rightarrow> mstate \<Rightarrow> mstate" where
  "pruneAggregated newKey newEntry st =
     (let ms = fst st in
      if \<not> isAggregate (Identity newKey) (ms_clusterInfo ms) then st
      else case ExactLookup LPMKey_ops (ms_trie ms) (PrefixLength (key_LPMKey newKey)) (key_LPMKey newKey) of
        None \<Rightarrow> st
      | Some idSet \<Rightarrow>
          fold (\<lambda>nid st.
              if \<not> aggregates (Identity newKey) nid (ms_clusterInfo ms) then st
              else
                let k = newKey\<lparr>Identity := nid\<rparr>;
                    v = (case map_of (ms_entries (fst st)) k of
                           Some v \<Rightarrow> v
                         | None \<Rightarrow> \<lparr>me_entry = \<lparr>mse_Precedence = 0, mse_ProxyPort = 0, mse_invalid = False, mse_Cookie = 0\<rparr>, me_passes = None, me_derivedFromRules = None\<rparr>)
                in if equivalent v newEntry then deleteExistingWithChanges k v st else st)
            idSet st)"

definition deleteCovered :: "(Key \<Rightarrow> mapStateEntry \<Rightarrow> bool) \<Rightarrow> Key \<Rightarrow> mstate \<Rightarrow> mstate" where
  "deleteCovered P newKey st =
     fold (\<lambda>(k, v) st. if P k v then deleteExistingWithChanges k v st else st)
       (CoveredNarrowerOrEqualKeys (fst st) newKey) st"

definition addPruned :: "Key \<Rightarrow> mapStateEntry \<Rightarrow> mstate \<Rightarrow> mstate" where
  "addPruned newKey newEntry st =
     (let (ms, changes) = pruneAggregated newKey newEntry st
      in snd (addKeyWithChanges ms newKey newEntry changes))"

definition insertWithChanges ::
  "Precedence \<Rightarrow> Key \<Rightarrow> mapStateEntry \<Rightarrow> policyFeatures \<Rightarrow> mstate \<Rightarrow> mstate"
where
  "insertWithChanges tierMaxPrecedence newKey newEntry features st =
     (let ms = fst st in
      if aggregateIsEquivalent ms newKey newEntry then st
      else if features_contains features passRules then insertWithPasses tierMaxPrecedence newKey newEntry st
      else if me_IsDeny newEntry then
        (if list_ex (\<lambda>(k, v). me_IsValid v \<and>
               (me_Precedence v > me_Precedence newEntry \<or>
                me_Precedence v = me_Precedence newEntry \<and> k \<noteq> newKey))
             (CoveringBroaderOrEqualKeys ms newKey) then st
         else addPruned newKey newEntry (deleteCovered (\<lambda>k v. me_Precedence v < me_Precedence newEntry \<or>
                     me_Precedence v = me_Precedence newEntry \<and> k \<noteq> newKey) newKey st))
      else if features_contains features precedenceFeatures then
        (if list_ex (\<lambda>(k, v). me_IsValid v \<and> me_Precedence v > me_Precedence newEntry)
             (CoveringBroaderOrEqualKeys ms newKey) then st
         else addPruned newKey newEntry (deleteCovered (\<lambda>k v. me_Precedence v < me_Precedence newEntry) newKey st))
      else addPruned newKey newEntry st)"

end
