(* ===== verification/MapStateInv.thy ===== *)
theory MapStateInv
  imports MapStateUpdate
begin

text \<open>
  The index invariant of the policy map state: the trie and the index by identity hold exactly the
  keys of the entries.  Every operation keeps it, and under it the iterations visit exactly the keys
  they are documented to visit.
\<close>

section \<open>The trie index\<close>

definition trie_ok :: "(LPMKey, IDSet) trie \<Rightarrow> bool" where
  "trie_ok t \<longleftrightarrow> wf_trie LPMKey_ops 25 t \<and>
     (\<forall>p l ids. (p, l, ids) \<in> set (trie_entry_list t) \<longrightarrow>
        p = PrefixLength l \<and> lpm_wf l \<and> distinct ids \<and> ids \<noteq> [])"

definition ids_at :: "(LPMKey, IDSet) trie \<Rightarrow> LPMKey \<Rightarrow> NumericIdentity set" where
  "ids_at t l = \<Union> {set ids |ids. (PrefixLength l, l, ids) \<in> set (trie_entry_list t)}"

lemma trie_ok_wf: "trie_ok t \<Longrightarrow> wf_trie LPMKey_ops 25 t"
  by (simp add: trie_ok_def)

lemma trie_ok_entry:
  assumes "trie_ok t" "(p, l, ids) \<in> set (trie_entry_list t)"
  shows "p = PrefixLength l" "lpm_wf l" "distinct ids" "ids \<noteq> []"
  using assms unfolding trie_ok_def by blast+

lemma trie_ok_entryI:
  "trie_ok t \<Longrightarrow> (p, l, ids) \<in> set (trie_entry_list t) \<Longrightarrow> (PrefixLength l, l, ids) \<in> set (trie_entry_list t)"
  using trie_ok_entry(1) by blast

lemma ExactLookup_entry:
  assumes t: "trie_ok t" and l: "lpm_wf l"
  shows "ExactLookup LPMKey_ops t (PrefixLength l) l = Some ids \<longleftrightarrow>
    (PrefixLength l, l, ids) \<in> set (trie_entry_list t)"
proof -
  have "l' = l" if "(PrefixLength l, l', ids) \<in> set (trie_entry_list t)" "agree LPMKey_ops (PrefixLength l) l' l" for l'
    using trie_ok_entry(1,2) [OF t that(1)] that(2) lpm_same_prefix [of l' l] l by simp
  then show ?thesis
    using lpm.ExactLookup_iff [OF trie_ok_wf [OF t] PrefixLength_le [OF l], of l ids] by auto
qed

lemma entry_unique:
  assumes "trie_ok t" "(PrefixLength l, l, ids) \<in> set (trie_entry_list t)"
    "(PrefixLength l, l, ids') \<in> set (trie_entry_list t)"
  shows "ids = ids'"
  using lpm.trie_entry_unique [OF trie_ok_wf [OF assms(1)] assms(2,3)] by simp

lemma ids_at_lookup:
  assumes "trie_ok t" "lpm_wf l"
  shows "ids_at t l = (case ExactLookup LPMKey_ops t (PrefixLength l) l of None \<Rightarrow> {} | Some ids \<Rightarrow> set ids)"
proof (cases "ExactLookup LPMKey_ops t (PrefixLength l) l")
  case None
  then show ?thesis using ExactLookup_entry [OF assms] by (auto simp: ids_at_def)
next
  case (Some ids)
  then have "(PrefixLength l, l, ids) \<in> set (trie_entry_list t)" using ExactLookup_entry [OF assms] by simp
  then have "{set ids |ids. (PrefixLength l, l, ids) \<in> set (trie_entry_list t)} = {set ids}"
    using entry_unique [OF assms(1)] by blast
  then show ?thesis using Some by (simp add: ids_at_def)
qed

lemma ids_at_wf: "trie_ok t \<Longrightarrow> nid \<in> ids_at t l \<Longrightarrow> lpm_wf l"
  unfolding ids_at_def using trie_ok_entry(2) by blast

text \<open>Replacing the entry of one key.\<close>

lemma others_entry:
  assumes t: "trie_ok t" and l: "lpm_wf l"
  shows "(p', l', ids) \<in> others LPMKey_ops (PrefixLength l) l (set (trie_entry_list t)) \<longleftrightarrow>
    (p', l', ids) \<in> set (trie_entry_list t) \<and> l' \<noteq> l"
proof -
  have "p' = PrefixLength l \<and> agree LPMKey_ops (PrefixLength l) l l' \<longleftrightarrow> l' = l"
    if "(p', l', ids) \<in> set (trie_entry_list t)"
    using trie_ok_entry(1,2) [OF t that] lpm_same_prefix [OF l, of l'] by auto
  then show ?thesis unfolding others_def by blast
qed

lemma replaced_entry:
  assumes t: "trie_ok t" and l: "lpm_wf l" and wf: "wf_trie LPMKey_ops 25 t'" and ids: "distinct ids" "ids \<noteq> []"
    and set: "set (trie_entry_list t') =
      insert (PrefixLength l, l, ids) (others LPMKey_ops (PrefixLength l) l (set (trie_entry_list t)))"
  shows "trie_ok t'" "ids_at t' l' = (if l' = l then set ids else ids_at t l')"
proof -
  have mem: "(p, l1, ids1) \<in> set (trie_entry_list t') \<longleftrightarrow>
      (p, l1, ids1) = (PrefixLength l, l, ids) \<or> (p, l1, ids1) \<in> set (trie_entry_list t) \<and> l1 \<noteq> l" for p l1 ids1
    unfolding set insert_iff others_entry [OF t l] by (rule refl)
  show "trie_ok t'"
    unfolding trie_ok_def mem using t wf l ids by (auto simp: trie_ok_def)
  show "ids_at t' l' = (if l' = l then set ids else ids_at t l')"
    unfolding ids_at_def mem by auto
qed

lemma removed_entry:
  assumes t: "trie_ok t" and l: "lpm_wf l" and wf: "wf_trie LPMKey_ops 25 t'"
    and set: "set (trie_entry_list t') = others LPMKey_ops (PrefixLength l) l (set (trie_entry_list t))"
  shows "trie_ok t'" "ids_at t' l' = (if l' = l then {} else ids_at t l')"
proof -
  have mem: "(p, l1, ids1) \<in> set (trie_entry_list t') \<longleftrightarrow> (p, l1, ids1) \<in> set (trie_entry_list t) \<and> l1 \<noteq> l" for p l1 ids1
    unfolding set others_entry [OF t l] by (rule refl)
  show "trie_ok t'" unfolding trie_ok_def mem using t wf by (auto simp: trie_ok_def)
  show "ids_at t' l' = (if l' = l then {} else ids_at t l')"
    unfolding ids_at_def mem by auto
qed

lemma setValue_set:
  fixes t :: "(LPMKey, IDSet) trie"
  assumes wf: "wf_trie LPMKey_ops 25 t" and l: "lpm_wf l" and x: "(PrefixLength l, l, x) \<in> set (trie_entry_list t)"
  shows "set (trie_entry_list (trie_setValue LPMKey_ops t (PrefixLength l) l v)) =
    insert (PrefixLength l, l, v) (others LPMKey_ops (PrefixLength l) l (set (trie_entry_list t)))"
proof -
  let ?S = "set (trie_entry_list t)" and ?p = "PrefixLength l"
  let ?f = "\<lambda>(p', k', v'). (p', k', if p' = ?p \<and> agree LPMKey_ops ?p l k' then v else v')"
  have id: "?f y = y" if "y \<in> others LPMKey_ops ?p l ?S" for y
    using that by (cases y) (auto simp: others_def)
  have S: "?S = insert (?p, l, x) (others LPMKey_ops ?p l ?S)"
  proof (rule set_eqI)
    fix y :: "nat \<times> LPMKey \<times> IDSet"
    obtain p' k' v' where y: "y = (p', k', v')" by (cases y)
    have "y = (?p, l, x)" if "y \<in> ?S" "p' = ?p" "agree LPMKey_ops ?p l k'"
      using lpm.trie_entry_unique [OF wf x, of k' v'] that y by simp
    then show "y \<in> ?S \<longleftrightarrow> y \<in> insert (?p, l, x) (others LPMKey_ops ?p l ?S)"
      using x y unfolding others_def by blast
  qed
  have "?f ` ?S = insert (?f (?p, l, x)) (?f ` others LPMKey_ops ?p l ?S)"
    by (subst S) (rule image_insert)
  also have "?f ` others LPMKey_ops ?p l ?S = (\<lambda>y. y) ` others LPMKey_ops ?p l ?S"
    by (rule image_cong [OF refl id])
  finally show ?thesis
    using lpm.trie_setValue_entries [OF wf PrefixLength_le [OF l], of l v] by simp
qed

lemma others_insert_same:
  "others ops p l (insert (p, l, v) (others ops p l S)) = others ops p l S"
  by (auto simp: others_def agree_def)

lemma others_idem: "others ops p l (others ops p l S) = others ops p l S"
  by (auto simp: others_def)

lemma trie_addID_ok:
  assumes t: "trie_ok t" and l: "lpm_wf l"
  shows "trie_ok (trie_addID t l nid)"
    "ids_at (trie_addID t l nid) l' = (if l' = l then insert nid (ids_at t l) else ids_at t l')"
proof -
  let ?p = "PrefixLength l" and ?S = "set (trie_entry_list t)"
  note wf = trie_ok_wf [OF t] and p = PrefixLength_le [OF l]
  have "trie_ok (trie_addID t l nid) \<and>
    ids_at (trie_addID t l nid) l' = (if l' = l then insert nid (ids_at t l) else ids_at t l')" for l'
  proof (cases "ExactLookup LPMKey_ops t ?p l")
    case None
    let ?t1 = "fst (Upsert LPMKey_ops t ?p l [])"
    have wf1: "wf_trie LPMKey_ops 25 ?t1" by (rule lpm.Upsert_wf [OF wf p])
    have set1: "set (trie_entry_list ?t1) = insert (?p, l, []) (others LPMKey_ops ?p l ?S)"
      by (rule lpm.Upsert_entries [OF wf p])
    have "set (trie_entry_list (trie_addID t l nid)) = insert (?p, l, [nid]) (others LPMKey_ops ?p l ?S)"
      using setValue_set [OF wf1 l, of "[]" "[nid]"]
      by (simp add: trie_addID_def Let_def None set1 others_insert_same)
    moreover have "wf_trie LPMKey_ops 25 (trie_addID t l nid)"
      by (simp add: trie_addID_def Let_def None lpm.trie_setValue_wf [OF wf1])
    ultimately show ?thesis
      using replaced_entry [OF t l, of "trie_addID t l nid" "[nid]"] ids_at_lookup [OF t l] None by simp
  next
    case (Some ids)
    then have entry: "(?p, l, ids) \<in> ?S" using ExactLookup_entry [OF t l] by simp
    have "set (trie_entry_list (trie_addID t l nid)) =
        insert (?p, l, List.insert nid ids) (others LPMKey_ops ?p l ?S)"
      using setValue_set [OF wf l entry, of "List.insert nid ids"] by (simp add: trie_addID_def Let_def Some)
    moreover have "wf_trie LPMKey_ops 25 (trie_addID t l nid)"
      by (simp add: trie_addID_def Let_def Some lpm.trie_setValue_wf [OF wf])
    moreover have "List.insert nid ids \<noteq> []" by (metis list.set_intros(1) not_Cons_self2 set_insert set_empty insert_not_empty)
    ultimately show ?thesis
      using replaced_entry [OF t l, of "trie_addID t l nid" "List.insert nid ids"] ids_at_lookup [OF t l] Some
        trie_ok_entry(3) [OF t entry] by simp
  qed
  then show "trie_ok (trie_addID t l nid)"
    "ids_at (trie_addID t l nid) l' = (if l' = l then insert nid (ids_at t l) else ids_at t l')" by blast+
qed

lemma trie_removeID_ok:
  assumes t: "trie_ok t" and l: "lpm_wf l"
  shows "trie_ok (trie_removeID t l nid)"
    "ids_at (trie_removeID t l nid) l' = (if l' = l then ids_at t l - {nid} else ids_at t l')"
proof -
  let ?p = "PrefixLength l" and ?S = "set (trie_entry_list t)" and ?t' = "trie_removeID t l nid"
  note wf = trie_ok_wf [OF t] and p = PrefixLength_le [OF l]
  have "trie_ok ?t' \<and> ids_at ?t' l' = (if l' = l then ids_at t l - {nid} else ids_at t l')" for l'
  proof (cases "ExactLookup LPMKey_ops t ?p l")
    case None
    then show ?thesis using t ids_at_lookup [OF t l] by (simp add: trie_removeID_def Let_def)
  next
    case (Some ids)
    then have entry: "(?p, l, ids) \<in> ?S" using ExactLookup_entry [OF t l] by simp
    let ?t1 = "trie_setValue LPMKey_ops t ?p l (removeAll nid ids)"
    have wf1: "wf_trie LPMKey_ops 25 ?t1" by (rule lpm.trie_setValue_wf [OF wf])
    have set1: "set (trie_entry_list ?t1) = insert (?p, l, removeAll nid ids) (others LPMKey_ops ?p l ?S)"
      by (rule setValue_set [OF wf l entry])
    show ?thesis
    proof (cases "removeAll nid ids = []")
      case True
      have t': "?t' = fst (Delete LPMKey_ops ?t1 ?p l)" by (simp add: trie_removeID_def Let_def Some True)
      note spec = lpm.Delete_spec [OF wf1 p, of l]
      have "set (trie_entry_list ?t') = others LPMKey_ops ?p l ?S"
        unfolding t' conjunct1 [OF conjunct2 [OF spec]] set1 by (rule others_insert_same)
      moreover have "set ids - {nid} = {}" using True by (metis set_removeAll set_empty)
      ultimately show ?thesis
        using removed_entry [OF t l, of ?t'] conjunct1 [OF spec] ids_at_lookup [OF t l] Some
        by (simp add: t')
    next
      case False
      have t': "?t' = ?t1" by (simp add: trie_removeID_def Let_def Some False)
      then show ?thesis
        using replaced_entry [OF t l wf1 _ False set1] ids_at_lookup [OF t l] Some trie_ok_entry(3) [OF t entry]
        by (simp add: distinct_removeAll)
    qed
  qed
  then show "trie_ok ?t'" "ids_at ?t' l' = (if l' = l then ids_at t l - {nid} else ids_at t l')" by blast+
qed

section \<open>The index by identity\<close>

definition byId_at :: "(NumericIdentity \<times> LPMKeys) list \<Rightarrow> NumericIdentity \<Rightarrow> LPMKey set" where
  "byId_at m nid = (case map_of m nid of None \<Rightarrow> {} | Some ks \<Rightarrow> set ks)"

lemma byId_add_at: "byId_at (byId_add m l nid) nid' = (if nid' = nid then insert l (byId_at m nid) else byId_at m nid')"
  by (simp add: byId_at_def byId_add_def Let_def update_conv' split: option.split)

lemma byId_remove_at:
  "byId_at (byId_remove m l nid) nid' = (if nid' = nid then byId_at m nid - {l} else byId_at m nid')"
proof (cases "map_of m nid")
  case (Some ks)
  have "set ks - {l} = {}" if "removeAll l ks = []" using that by (metis set_removeAll set_empty)
  then show ?thesis
    by (simp add: byId_at_def byId_remove_def Let_def update_conv' delete_conv' Some)
qed (simp add: byId_at_def byId_remove_def)

section \<open>The invariant\<close>

abbreviation ents :: "mapState \<Rightarrow> Key \<Rightarrow> mapStateEntry option" where
  "ents ms \<equiv> map_of (ms_entries ms)"

definition index_ok ::
  "(LPMKey, IDSet) trie \<Rightarrow> (NumericIdentity \<times> LPMKeys) list option \<Rightarrow> (Key \<Rightarrow> mapStateEntry option) \<Rightarrow> bool"
where
  "index_ok t b E \<longleftrightarrow>
     trie_ok t \<and> (\<forall>k. E k \<noteq> None \<longrightarrow> lpm_wf (key_LPMKey k)) \<and>
     (\<forall>l nid. nid \<in> ids_at t l \<longleftrightarrow> E (mkKey l nid) \<noteq> None) \<and>
     (\<forall>m. b = Some m \<longrightarrow> (\<forall>l nid. l \<in> byId_at m nid \<longleftrightarrow> E (mkKey l nid) \<noteq> None))"

definition ms_inv :: "mapState \<Rightarrow> bool" where
  "ms_inv ms \<longleftrightarrow> distinct (map fst (ms_entries ms)) \<and> index_ok (ms_trie ms) (ms_byId ms) (ents ms)"

lemma mkKey_eq: "mkKey l nid = k \<longleftrightarrow> l = key_LPMKey k \<and> nid = Identity k"
  by (cases k) auto

lemma mkKey_fields [simp]: "mkKey (key_LPMKey k) (Identity k) = k"
  by (cases k) simp

lemma index_ok_add:
  assumes ok: "index_ok t b E" and wf: "lpm_wf (key_LPMKey k)"
  shows "index_ok (trie_addID t (key_LPMKey k) (Identity k))
    (map_option (\<lambda>m. byId_add m (key_LPMKey k) (Identity k)) b) (E(k \<mapsto> e))"
proof -
  have t: "trie_ok t" using ok by (simp add: index_ok_def)
  show ?thesis
    using ok wf unfolding index_ok_def
    by (auto simp: trie_addID_ok [OF t wf] byId_add_at mkKey_eq split: if_splits)
qed

lemma index_ok_remove:
  assumes ok: "index_ok t b E" and wf: "lpm_wf (key_LPMKey k)"
  shows "index_ok (trie_removeID t (key_LPMKey k) (Identity k))
    (map_option (\<lambda>m. byId_remove m (key_LPMKey k) (Identity k)) b) (E(k := None))"
proof -
  have t: "trie_ok t" using ok by (simp add: index_ok_def)
  show ?thesis
    using ok wf unfolding index_ok_def
    by (auto simp: trie_removeID_ok [OF t wf] byId_remove_at mkKey_eq split: if_splits)
qed

lemma index_ok_update: "index_ok t b E \<Longrightarrow> E k \<noteq> None \<Longrightarrow> index_ok t b (E(k \<mapsto> e))"
  unfolding index_ok_def by (auto split: if_splits)

lemma ms_inv_trie: "ms_inv ms \<Longrightarrow> trie_ok (ms_trie ms)"
  by (simp add: ms_inv_def index_ok_def)

lemma ms_inv_wf: "ms_inv ms \<Longrightarrow> ents ms k = Some e \<Longrightarrow> lpm_wf (key_LPMKey k)"
  unfolding ms_inv_def index_ok_def by blast

lemma ms_inv_ids: "ms_inv ms \<Longrightarrow> nid \<in> ids_at (ms_trie ms) l \<longleftrightarrow> ents ms (mkKey l nid) \<noteq> None"
  unfolding ms_inv_def index_ok_def by blast

lemma ents_upsert: "ents (mapState_upsert ms k e) = (ents ms)(k \<mapsto> e)"
  by (simp add: mapState_upsert_def Let_def update_conv')

lemma ents_delete: "ents (mapState_delete ms k) = (ents ms)(k := None)"
  by (auto simp: mapState_delete_def delete_conv')

lemma ents_updateExisting: "ents (updateExisting ms k e) = (ents ms)(k \<mapsto> e)"
  by (simp add: updateExisting_def update_conv')

lemmas ents_simps = ents_upsert ents_delete ents_updateExisting mapState_insert_def mapState_get_def

lemma clusterInfo_simps [simp]:
  "ms_clusterInfo (mapState_upsert ms k e) = ms_clusterInfo ms"
  "ms_clusterInfo (mapState_delete ms k) = ms_clusterInfo ms"
  "ms_clusterInfo (updateExisting ms k e) = ms_clusterInfo ms"
  "ms_clusterInfo (mapState_insert ms k e) = ms_clusterInfo ms"
  by (simp_all add: mapState_upsert_def mapState_delete_def updateExisting_def mapState_insert_def Let_def)

lemma newMapState_inv [inv_intros]: "ms_inv (newMapState sizes features c)"
proof -
  have "byId_at (map (\<lambda>(nid, n). (nid, [])) xs) nid = {}" for xs :: "(NumericIdentity \<times> nat) list" and nid
    by (induction xs) (auto simp: byId_at_def)
  moreover have "trie_ok (NewTrie MapStatePrefixLen)"
    using lpm.wf_NewTrie [of MapStatePrefixLen] by (simp add: trie_ok_def MapStatePrefixLen_def)
  ultimately show ?thesis
    by (auto simp: ms_inv_def index_ok_def newMapState_def ids_at_def)
qed

lemma upsert_inv [inv_intros]:
  assumes inv: "ms_inv ms" and wf: "lpm_wf (key_LPMKey k)"
  shows "ms_inv (mapState_upsert ms k e)"
proof (cases "ents ms k = None")
  case True
  then show ?thesis
    using inv index_ok_add [OF _ wf, of "ms_trie ms" "ms_byId ms" "ents ms" e]
    by (simp add: ms_inv_def mapState_upsert_def Let_def update_conv' distinct_update del: map_of_eq_None_iff)
next
  case False
  then show ?thesis
    using inv index_ok_update [of "ms_trie ms" "ms_byId ms" "ents ms" k e]
    by (simp add: ms_inv_def mapState_upsert_def Let_def update_conv' distinct_update)
qed

lemma delete_inv [inv_intros]:
  assumes inv: "ms_inv ms"
  shows "ms_inv (mapState_delete ms k)"
proof (cases "ents ms k")
  case (Some e)
  then have wf: "lpm_wf (key_LPMKey k)" using ms_inv_wf [OF inv] by simp
  show ?thesis
    using inv Some index_ok_remove [OF _ wf, of "ms_trie ms" "ms_byId ms" "ents ms"]
    by (simp add: ms_inv_def mapState_delete_def delete_conv' distinct_delete)
qed (simp add: mapState_delete_def inv del: map_of_eq_None_iff)

lemma updateExisting_inv [inv_intros]:
  "ms_inv ms \<Longrightarrow> ents ms k \<noteq> None \<Longrightarrow> ms_inv (updateExisting ms k e)"
  using index_ok_update [of "ms_trie ms" "ms_byId ms" "ents ms" k e]
  by (simp add: ms_inv_def updateExisting_def update_conv' distinct_update)

end
