(* ===== verification/MapStateIter.thy ===== *)
theory MapStateIter
  imports MapStateInv
begin

text \<open>
  What the iterations of the policy map state visit, as sets over the entries: under the index
  invariant they are the keys that cover, or are covered by, the given key.
\<close>

section \<open>Covering keys\<close>

text \<open>One key covers another: same or aggregate identity, and a covering protocol and port.\<close>

definition id_covers :: "ClusterInfo \<Rightarrow> NumericIdentity \<Rightarrow> NumericIdentity \<Rightarrow> bool" where
  "id_covers c a b \<longleftrightarrow> a = b \<or> a = aggregateFor b c"

definition key_covers :: "ClusterInfo \<Rightarrow> Key \<Rightarrow> Key \<Rightarrow> bool" where
  "key_covers c a b \<longleftrightarrow> id_covers c (Identity a) (Identity b) \<and> lpm_covers (key_LPMKey a) (key_LPMKey b)"

lemma id_covers_refl [simp]: "id_covers c a a"
  by (simp add: id_covers_def)

lemma id_covers_trans: "id_covers c a b \<Longrightarrow> id_covers c b d \<Longrightarrow> id_covers c a d"
  by (auto simp: id_covers_def)

lemma id_covers_antisym: "id_covers c a b \<Longrightarrow> id_covers c b a \<Longrightarrow> a = b"
  by (auto simp: id_covers_def)

lemma key_covers_refl [simp]: "key_covers c k k"
  by (simp add: key_covers_def)

lemma key_covers_trans: "key_covers c a b \<Longrightarrow> key_covers c b d \<Longrightarrow> key_covers c a d"
  unfolding key_covers_def using id_covers_trans lpm_covers_trans by blast

lemma key_covers_antisym:
  assumes "lpm_wf (key_LPMKey a)" "lpm_wf (key_LPMKey b)" "key_covers c a b" "key_covers c b a"
  shows "a = b"
  using assms id_covers_antisym lpm_covers_antisym unfolding key_covers_def by (metis mkKey_fields)

section \<open>Lists of keys\<close>

lemma set_forKey: "set (forKey ms k) = {(k', e). k' = k \<and> ents ms k' = Some e}"
  by (auto simp: forKey_def split: option.splits)

lemma entry_ids:
  assumes inv: "ms_inv ms" and entry: "(p, l, ids) \<in> set (trie_entry_list (ms_trie ms))"
  shows "nid \<in> set ids \<longleftrightarrow> ents ms (mkKey l nid) \<noteq> None"
proof -
  note t = ms_inv_trie [OF inv]
  note wf = trie_ok_entry(2) [OF t entry]
  have "ExactLookup LPMKey_ops (ms_trie ms) (PrefixLength l) l = Some ids"
    using ExactLookup_entry [OF t wf] trie_ok_entryI [OF t entry] by simp
  then show ?thesis
    using ids_at_lookup [OF t wf] ms_inv_ids [OF inv, of nid l] by simp
qed

lemma set_forID:
  assumes "ms_inv ms" "(p, l, ids) \<in> set (trie_entry_list (ms_trie ms))"
  shows "set (forID ms (mkKey l nid) ids) = {(k, e). k = mkKey l nid \<and> ents ms k = Some e}"
  using entry_ids [OF assms, of nid] by (auto simp: forID_def set_forKey simp del: map_of_eq_None_iff)

lemma set_forCoveredIDs:
  assumes inv: "ms_inv ms" and entry: "(p, l, ids) \<in> set (trie_entry_list (ms_trie ms))"
  shows "set (forCoveredIDs ms agg l ids) =
    {(k, e). key_LPMKey k = l \<and> aggregates agg (Identity k) (ms_clusterInfo ms) \<and> ents ms k = Some e}"
proof (rule set_eqI)
  fix x :: "Key \<times> mapStateEntry"
  obtain k e where x: "x = (k, e)" by (cases x)
  have "x \<in> set (forCoveredIDs ms agg l ids) \<longleftrightarrow>
      (\<exists>nid \<in> set ids. aggregates agg nid (ms_clusterInfo ms) \<and> k = mkKey l nid \<and> ents ms k = Some e)"
    by (auto simp: forCoveredIDs_def set_forKey x)
  also have "\<dots> \<longleftrightarrow> key_LPMKey k = l \<and> aggregates agg (Identity k) (ms_clusterInfo ms) \<and> ents ms k = Some e"
    using entry_ids [OF inv entry, of "Identity k"] by (metis Key.select_convs mkKey_fields option.distinct(1))
  finally show "x \<in> set (forCoveredIDs ms agg l ids) \<longleftrightarrow> x \<in>
    {(k, e). key_LPMKey k = l \<and> aggregates agg (Identity k) (ms_clusterInfo ms) \<and> ents ms k = Some e}"
    by (simp add: x)
qed

text \<open>The trie entries that an iteration runs over, given by the keys they stand for.\<close>

lemma ents_entry:
  assumes inv: "ms_inv ms" and e: "ents ms k = Some e"
  shows "\<exists>ids. (PrefixLength (key_LPMKey k), key_LPMKey k, ids) \<in> set (trie_entry_list (ms_trie ms))"
proof -
  have "Identity k \<in> ids_at (ms_trie ms) (key_LPMKey k)"
    using ms_inv_ids [OF inv] e by simp
  then show ?thesis unfolding ids_at_def by blast
qed

lemma ancestor_entries:
  assumes t: "trie_ok t" and l: "lpm_wf l"
  shows "(l', ids) \<in> set (ancestor_seq LPMKey_ops (AncestorIterator t (PrefixLength l) l)) \<longleftrightarrow>
      (PrefixLength l', l', ids) \<in> set (trie_entry_list t) \<and> lpm_covers l' l"
    "(l', ids) \<in> set (ancestorLPF_seq (AncestorLongestPrefixFirstIterator LPMKey_ops t (PrefixLength l) l)) \<longleftrightarrow>
      (PrefixLength l', l', ids) \<in> set (trie_entry_list t) \<and> lpm_covers l' l"
proof -
  note wf = trie_ok_wf [OF t]
  have "(l', ids) \<in> snd ` covering LPMKey_ops (PrefixLength l) l (set (trie_entry_list t)) \<longleftrightarrow>
      (PrefixLength l', l', ids) \<in> set (trie_entry_list t) \<and> lpm_covers l' l"
    using trie_ok_entry(1) [OF t] by (force simp: covering_def)
  then show "(l', ids) \<in> set (ancestor_seq LPMKey_ops (AncestorIterator t (PrefixLength l) l)) \<longleftrightarrow>
      (PrefixLength l', l', ids) \<in> set (trie_entry_list t) \<and> lpm_covers l' l"
    "(l', ids) \<in> set (ancestorLPF_seq (AncestorLongestPrefixFirstIterator LPMKey_ops t (PrefixLength l) l)) \<longleftrightarrow>
      (PrefixLength l', l', ids) \<in> set (trie_entry_list t) \<and> lpm_covers l' l"
    by (simp_all add: lpm.AncestorIterator_seq [OF wf PrefixLength_le [OF l]] lpm.AncestorLPF_seq [OF wf]
        lpm.path_root_set [OF wf])
qed

lemma descendant_entries:
  assumes t: "trie_ok t" and l: "lpm_wf l"
  shows "(l', ids) \<in> set (descendant_seq (DescendantIterator LPMKey_ops t (PrefixLength l) l)) \<longleftrightarrow>
      (PrefixLength l', l', ids) \<in> set (trie_entry_list t) \<and> lpm_covers l l'"
  unfolding lpm.DescendantIterator_seq [OF trie_ok_wf [OF t] PrefixLength_le [OF l]]
  using trie_ok_entry(1) [OF t] by (force simp: covered_def)

section \<open>The iterations as sets\<close>

text \<open>The entries of the keys with a protocol and port in \<^verbatim>\<open>R\<close> and an identity in \<^verbatim>\<open>P\<close>.\<close>

definition visited ::
  "mapState \<Rightarrow> (LPMKey \<Rightarrow> bool) \<Rightarrow> (NumericIdentity \<Rightarrow> bool) \<Rightarrow> (Key \<times> mapStateEntry) set"
where
  "visited ms R P = {(k, e). R (key_LPMKey k) \<and> P (Identity k) \<and> ents ms k = Some e}"

lemma visited_Un: "visited ms R P \<union> visited ms R Q = visited ms R (\<lambda>nid. P nid \<or> Q nid)"
  by (auto simp: visited_def)

lemma visited_none: "visited ms R (\<lambda>nid. False) = {}"
  by (simp add: visited_def)

lemma forID_visited:
  assumes "ms_inv ms" "(p, l, ids) \<in> set (trie_entry_list (ms_trie ms))"
  shows "set (forID ms (mkKey l nid) ids) = visited ms (\<lambda>l'. l' = l) (\<lambda>nid'. nid' = nid)"
  unfolding set_forID [OF assms] visited_def by (auto simp: mkKey_eq [symmetric] eq_commute)

lemma forCoveredIDs_visited:
  assumes "ms_inv ms" "(p, l, ids) \<in> set (trie_entry_list (ms_trie ms))"
  shows "set (forCoveredIDs ms agg l ids) =
    visited ms (\<lambda>l'. l' = l) (\<lambda>nid. aggregates agg nid (ms_clusterInfo ms))"
  unfolding set_forCoveredIDs [OF assms] visited_def ..

lemma concat_visited:
  assumes inv: "ms_inv ms"
    and xs: "\<And>l ids. (l, ids) \<in> set xs \<longleftrightarrow> (PrefixLength l, l, ids) \<in> set (trie_entry_list (ms_trie ms)) \<and> R l"
    and f: "\<And>p l ids. (p, l, ids) \<in> set (trie_entry_list (ms_trie ms)) \<Longrightarrow> set (f l ids) = visited ms (\<lambda>l'. l' = l) P"
  shows "set (concat (map (\<lambda>(l, ids). f l ids) xs)) = visited ms R P"
proof -
  have f': "set (f l ids) = visited ms (\<lambda>l'. l' = l) P" if "(l, ids) \<in> set xs" for l ids
    using f xs that by blast
  show ?thesis
  proof (intro equalityI subsetI)
    fix x assume "x \<in> set (concat (map (\<lambda>(l, ids). f l ids) xs))"
    then obtain l ids where "(l, ids) \<in> set xs" "x \<in> set (f l ids)" by auto
    then show "x \<in> visited ms R P" using f' xs by (auto simp: visited_def)
  next
    fix x assume "x \<in> visited ms R P"
    then obtain k e where x: "x = (k, e)" "R (key_LPMKey k)" "P (Identity k)" "ents ms k = Some e"
      by (auto simp: visited_def)
    obtain ids where ids: "(key_LPMKey k, ids) \<in> set xs"
      using ents_entry [OF inv x(4)] xs x(2) by blast
    then have "x \<in> set (f (key_LPMKey k) ids)" using f' [OF ids] x by (simp add: visited_def)
    then show "x \<in> set (concat (map (\<lambda>(l, ids). f l ids) xs))" using ids by force
  qed
qed

lemma visited_cong: "(\<And>nid. P nid \<longleftrightarrow> Q nid) \<Longrightarrow> visited ms R P = visited ms R Q"
  by (simp add: visited_def)

lemmas visit_simps = forID_visited forCoveredIDs_visited

lemma CoveringBroaderOrEqualKeys_visited:
  assumes inv: "ms_inv ms" and wf: "lpm_wf (key_LPMKey key)"
  shows "set (CoveringBroaderOrEqualKeys ms key) =
    visited ms (\<lambda>l. lpm_covers l (key_LPMKey key)) (\<lambda>nid. id_covers (ms_clusterInfo ms) nid (Identity key))"
  unfolding CoveringBroaderOrEqualKeys_def Let_def
  by (rule concat_visited [OF inv ancestor_entries(1) [OF ms_inv_trie [OF inv] wf]],
      cases "Identity key = aggregateFor (Identity key) (ms_clusterInfo ms)")
    (simp_all add: visit_simps [OF inv] visited_Un id_covers_def disj_commute)

lemma LPMAncestors_visited:
  assumes inv: "ms_inv ms" and wf: "lpm_wf (key_LPMKey key)"
  shows "set (LPMAncestors ms key) =
    visited ms (\<lambda>l. lpm_covers l (key_LPMKey key)) (\<lambda>nid. id_covers (ms_clusterInfo ms) nid (Identity key))"
  unfolding LPMAncestors_def Let_def
  by (rule concat_visited [OF inv ancestor_entries(2) [OF ms_inv_trie [OF inv] wf]],
      cases "Identity key = aggregateFor (Identity key) (ms_clusterInfo ms)")
    (simp_all add: visit_simps [OF inv] visited_Un id_covers_def)

lemma CoveringKeysWithSameID_visited:
  assumes inv: "ms_inv ms" and wf: "lpm_wf (key_LPMKey key)"
  shows "set (CoveringKeysWithSameID ms key) =
    visited ms (\<lambda>l. lpm_covers l (key_LPMKey key)) (\<lambda>nid. nid = Identity key)"
  unfolding CoveringKeysWithSameID_def
  by (rule concat_visited [OF inv ancestor_entries(2) [OF ms_inv_trie [OF inv] wf]])
    (simp add: visit_simps [OF inv])

lemma BroaderOrEqualKeys_visited:
  assumes inv: "ms_inv ms" and wf: "lpm_wf (key_LPMKey key)"
  shows "set (BroaderOrEqualKeys ms key) =
    visited ms (\<lambda>l. lpm_covers l (key_LPMKey key))
      (\<lambda>nid. id_covers (ms_clusterInfo ms) nid (Identity key) \<or> id_covers (ms_clusterInfo ms) (Identity key) nid)"
  unfolding BroaderOrEqualKeys_def Let_def
  by (rule concat_visited [OF inv ancestor_entries(1) [OF ms_inv_trie [OF inv] wf]],
      cases "Identity key = aggregateFor (Identity key) (ms_clusterInfo ms)")
    (simp_all add: visit_simps [OF inv] visited_Un, auto intro!: visited_cong simp: id_covers_def aggregates_def)

lemma CoveredNarrowerOrEqualKeys_visited:
  assumes inv: "ms_inv ms" and wf: "lpm_wf (key_LPMKey key)"
  shows "set (CoveredNarrowerOrEqualKeys ms key) =
    visited ms (\<lambda>l. lpm_covers (key_LPMKey key) l) (\<lambda>nid. id_covers (ms_clusterInfo ms) (Identity key) nid)"
  unfolding CoveredNarrowerOrEqualKeys_def Let_def
  by (rule concat_visited [OF inv descendant_entries [OF ms_inv_trie [OF inv] wf]],
      cases "Identity key = aggregateFor (Identity key) (ms_clusterInfo ms)")
    (simp_all add: visit_simps [OF inv] visited_Un, auto intro!: visited_cong simp: id_covers_def aggregates_def)

lemma NarrowerOrEqualKeys_visited:
  assumes inv: "ms_inv ms" and wf: "lpm_wf (key_LPMKey key)"
  shows "set (NarrowerOrEqualKeys ms key) =
    visited ms (\<lambda>l. lpm_covers (key_LPMKey key) l)
      (\<lambda>nid. id_covers (ms_clusterInfo ms) nid (Identity key) \<or> id_covers (ms_clusterInfo ms) (Identity key) nid)"
  unfolding NarrowerOrEqualKeys_def Let_def
  by (rule concat_visited [OF inv descendant_entries [OF ms_inv_trie [OF inv] wf]],
      cases "Identity key = aggregateFor (Identity key) (ms_clusterInfo ms)")
    (simp_all add: visit_simps [OF inv] visited_Un, auto intro!: visited_cong simp: id_covers_def aggregates_def)

section \<open>Every key is visited once\<close>

lemma forKey_distinct: "distinct (map fst (forKey ms k))"
  by (simp add: forKey_def split: option.split)

lemma forID_distinct: "distinct (map fst (forID ms k ids))"
  by (simp add: forID_def forKey_distinct)

lemma forCoveredIDs_distinct:
  assumes "distinct ids"
  shows "distinct (map fst (forCoveredIDs ms agg l ids))"
  using assms
proof (induction ids)
  case (Cons nid ids)
  have "mkKey l nid \<notin> fst ` set (forCoveredIDs ms agg l ids)"
    using Cons.prems by (auto simp: forCoveredIDs_def set_forKey split: if_splits)
  then show ?case
    using Cons by (auto simp: forCoveredIDs_def forKey_distinct set_forKey)
qed (simp add: forCoveredIDs_def)

lemma descendant_keys_distinct:
  assumes t: "trie_ok t" and l: "lpm_wf l"
  shows "distinct (map fst (descendant_seq (DescendantIterator LPMKey_ops t (PrefixLength l) l)))"
proof -
  obtain es where es: "descendant_seq (DescendantIterator LPMKey_ops t (PrefixLength l) l) = map snd es"
    "distinct es" "set es = covered LPMKey_ops (PrefixLength l) l (set (trie_entry_list t))"
    using lpm.DescendantIterator_distinct [OF trie_ok_wf [OF t] PrefixLength_le [OF l]] by blast
  have "inj_on (\<lambda>x. fst (snd x)) (set es)"
  proof (rule inj_onI)
    fix x y assume "x \<in> set es" "y \<in> set es" and eq: "fst (snd x) = fst (snd y)"
    then have "x \<in> set (trie_entry_list t)" "y \<in> set (trie_entry_list t)"
      by (auto simp: es(3) covered_def)
    then show "x = y"
      using eq trie_ok_entry(1) [OF t] entry_unique [OF t] by (metis prod.collapse)
  qed
  then show ?thesis by (simp add: es(1,2) distinct_map comp_def)
qed

lemma concat_distinct:
  assumes xs: "distinct (map fst xs)"
    and f: "\<And>l ids. (l, ids) \<in> set xs \<Longrightarrow> distinct (map fst (f l ids))"
    and l: "\<And>l ids k e. (l, ids) \<in> set xs \<Longrightarrow> (k, e) \<in> set (f l ids) \<Longrightarrow> key_LPMKey k = l"
  shows "distinct (map fst (concat (map (\<lambda>(l, ids). f l ids) xs)))"
  using assms
proof (induction xs)
  case (Cons x xs)
  obtain l ids where x: "x = (l, ids)" by (cases x)
  have IH: "distinct (map fst (concat (map (\<lambda>(l, ids). f l ids) xs)))"
  proof (rule Cons.IH)
    fix l ids k e assume "(l, ids) \<in> set xs" "(k, e) \<in> set (f l ids)"
    then show "key_LPMKey k = l" using Cons.prems(3) [of l ids k e] by simp
  qed (use Cons.prems in simp_all)
  have rest: "key_LPMKey k \<noteq> l" if mem: "(k, e) \<in> set (concat (map (\<lambda>(l, ids). f l ids) xs))" for k e
  proof -
    obtain l' ids' where "(l', ids') \<in> set xs" "(k, e) \<in> set (f l' ids')" using mem by auto
    then show ?thesis using Cons.prems(1) Cons.prems(3) [of l' ids' k e] x by force
  qed
  have head: "key_LPMKey k = l" if "(k, e) \<in> set (f l ids)" for k e
    using Cons.prems(3) [of l ids k e] that x by simp
  have "fst ` set (f l ids) \<inter> fst ` set (concat (map (\<lambda>(l, ids). f l ids) xs)) = {}"
    using rest head by fastforce
  then show ?case
    using IH Cons.prems(2) [of l ids] by (simp add: x)
qed simp

lemma visited_disjoint:
  assumes "\<And>nid. P nid \<Longrightarrow> \<not> Q nid"
  shows "fst ` visited ms R P \<inter> fst ` visited ms R' Q = {}"
proof -
  have "P (Identity k)" if "k \<in> fst ` visited ms R P" for k using that by (auto simp: visited_def)
  moreover have "Q (Identity k)" if "k \<in> fst ` visited ms R' Q" for k using that by (auto simp: visited_def)
  ultimately show ?thesis using assms by blast
qed

lemma visited_key: "(k, e) \<in> visited ms R P \<Longrightarrow> R (key_LPMKey k)"
  by (simp add: visited_def)

lemma CoveredNarrowerOrEqualKeys_distinct:
  assumes inv: "ms_inv ms" and wf: "lpm_wf (key_LPMKey key)"
  shows "distinct (map fst (CoveredNarrowerOrEqualKeys ms key))"
proof -
  note t = ms_inv_trie [OF inv]
  let ?agg = "aggregateFor (Identity key) (ms_clusterInfo ms)"
  show ?thesis
    unfolding CoveredNarrowerOrEqualKeys_def Let_def
  proof (rule concat_distinct [OF descendant_keys_distinct [OF t wf]], unfold descendant_entries [OF t wf], goal_cases)
    case (1 l ids)
    then have entry: "(PrefixLength l, l, ids) \<in> set (trie_entry_list (ms_trie ms))" by simp
    have "fst ` set (forCoveredIDs ms ?agg l ids) \<inter> fst ` set (forID ms (mkKey l ?agg) ids) = {}"
      unfolding visit_simps [OF inv entry] by (rule visited_disjoint) (auto simp: aggregates_def)
    then show ?case
      using forCoveredIDs_distinct [OF trie_ok_entry(3) [OF t entry], of ms ?agg l]
      by (cases "Identity key = ?agg") (simp_all add: forID_distinct)
  next
    case (2 l ids k e)
    then have entry: "(PrefixLength l, l, ids) \<in> set (trie_entry_list (ms_trie ms))" by simp
    show ?case
      using 2(2) unfolding set_append if_distrib [of set] visit_simps [OF inv entry]
      by (auto dest: visited_key split: if_splits)
  qed
qed

lemma NarrowerOrEqualKeys_distinct:
  assumes inv: "ms_inv ms" and wf: "lpm_wf (key_LPMKey key)"
  shows "distinct (map fst (NarrowerOrEqualKeys ms key))"
proof -
  note t = ms_inv_trie [OF inv]
  let ?agg = "aggregateFor (Identity key) (ms_clusterInfo ms)"
  show ?thesis
    unfolding NarrowerOrEqualKeys_def Let_def
  proof (rule concat_distinct [OF descendant_keys_distinct [OF t wf]], unfold descendant_entries [OF t wf], goal_cases)
    case (1 l ids)
    then have entry: "(PrefixLength l, l, ids) \<in> set (trie_entry_list (ms_trie ms))" by simp
    have "fst ` set (forCoveredIDs ms ?agg l ids) \<inter> fst ` set (forID ms (mkKey l ?agg) ids) = {}"
      unfolding visit_simps [OF inv entry] by (rule visited_disjoint) (auto simp: aggregates_def)
    moreover have "fst ` set (forID ms (mkKey l (Identity key)) ids) \<inter> fst ` set (forID ms (mkKey l ?agg) ids) = {}"
      if "Identity key \<noteq> ?agg"
      unfolding visit_simps [OF inv entry] by (rule visited_disjoint) (use that in auto)
    ultimately show ?case
      using forCoveredIDs_distinct [OF trie_ok_entry(3) [OF t entry], of ms ?agg l]
      by (cases "Identity key = ?agg") (simp_all add: forID_distinct)
  next
    case (2 l ids k e)
    then have entry: "(PrefixLength l, l, ids) \<in> set (trie_entry_list (ms_trie ms))" by simp
    show ?case
      using 2(2) unfolding set_append if_distrib [of set] visit_simps [OF inv entry]
      by (auto dest: visited_key split: if_splits)
  qed
qed

end
