(* ===== verification/MapStateInsert.thy ===== *)
theory MapStateInsert
  imports MapStateIter
begin

text \<open>
  What the update operations do to the entries, and that each of them keeps the index invariant.
\<close>

section \<open>Adding and deleting\<close>

lemma deleteExisting_ents:
  "ents (fst (deleteExistingWithChanges k v st)) = (ents (fst st))(k := None)"
  by (cases st) (simp add: deleteExistingWithChanges_def Let_def split_beta ents_simps)

lemma deleteExisting_inv [inv_intros]: "ms_inv (fst st) \<Longrightarrow> ms_inv (fst (deleteExistingWithChanges k v st))"
  by (cases st) (simp add: deleteExistingWithChanges_def Let_def split_beta delete_inv)

lemma deleteExisting_clusterInfo [simp]:
  "ms_clusterInfo (fst (deleteExistingWithChanges k v st)) = ms_clusterInfo (fst st)"
  by (cases st) (simp add: deleteExistingWithChanges_def Let_def split_beta)

lemma deleteKey_ents: "ents (fst (deleteKeyWithChanges k st)) = (ents (fst st))(k := None)"
  by (auto simp: deleteKeyWithChanges_def deleteExisting_ents mapState_get_def split: option.split)

lemma deleteKey_inv [inv_intros]: "ms_inv (fst st) \<Longrightarrow> ms_inv (fst (deleteKeyWithChanges k st))"
  by (simp add: deleteKeyWithChanges_def deleteExisting_inv split: option.split)

text \<open>The entry that an add leaves for a key that has an entry already.\<close>

definition merge_entries :: "mapStateEntry \<Rightarrow> mapStateEntry \<Rightarrow> mapStateEntry" where
  "merge_entries old new =
     (let e1 = old\<lparr>me_passes := fst (passMetas_MergeClone (me_passes old) (me_passes new))\<rparr>;
          taken = e1\<lparr>me_entry := me_entry new, me_derivedFromRules := me_derivedFromRules new\<rparr>
      in
      if mapStateEntry_Equal new old then old
      else if \<not> me_IsValid old then taken
      else if \<not> me_IsValid new then e1
      else if ProxyPortPrecedenceMayDiffer (me_Precedence old) (me_Precedence new) then
        e1\<lparr>me_entry := MapStateEntry_Merge (me_entry old) (me_entry new),
           me_derivedFromRules := ruleOrigin_Merge (me_derivedFromRules old) (me_derivedFromRules new)\<rparr>
      else if me_Precedence old < me_Precedence new then taken
      else e1)"

definition added_entry :: "mapStateEntry option \<Rightarrow> mapStateEntry \<Rightarrow> mapStateEntry" where
  "added_entry old new = (case old of None \<Rightarrow> new | Some o' \<Rightarrow> merge_entries o' new)"

lemma MergeClone_same: "\<not> snd (passMetas_MergeClone old other) \<Longrightarrow> fst (passMetas_MergeClone old other) = old"
  by (auto simp: passMetas_MergeClone_def split: option.splits if_splits)

lemma addKey_ents:
  "ents (fst (snd (addKeyWithChanges ms key entry changes))) =
    (ents ms)(key \<mapsto> added_entry (ents ms key) entry)"
proof (cases "ents ms key")
  case None
  then show ?thesis by (simp add: addKeyWithChanges_def ents_simps added_entry_def)
next
  case (Some old)
  have id: "(ents ms)(key \<mapsto> old) = ents ms" using Some by (rule map_upd_triv)
  have same: "old\<lparr>me_passes := fst (passMetas_MergeClone (me_passes old) (me_passes entry))\<rparr> = old"
    if "\<not> snd (passMetas_MergeClone (me_passes old) (me_passes entry))"
    using MergeClone_same [OF that] by simp
  show ?thesis
    using Some id same
    by (simp add: addKeyWithChanges_def Let_def split_beta ents_simps added_entry_def merge_entries_def)
qed

lemma addKey_inv [inv_intros]:
  assumes "ms_inv ms" "lpm_wf (key_LPMKey key)"
  shows "ms_inv (fst (snd (addKeyWithChanges ms key entry changes)))"
proof (cases "ents ms key")
  case None
  then show ?thesis using assms by (simp add: addKeyWithChanges_def ents_simps upsert_inv)
next
  case (Some old)
  then show ?thesis
    using assms(1) updateExisting_inv [OF assms(1), of key]
    by (auto simp: addKeyWithChanges_def ents_simps Let_def split_beta split: option.split)
qed

lemma addKey_clusterInfo [simp]:
  "ms_clusterInfo (fst (snd (addKeyWithChanges ms key entry changes))) = ms_clusterInfo ms"
  by (auto simp: addKeyWithChanges_def Let_def split_beta split: option.split)

section \<open>Loops over visited keys\<close>

text \<open>
  A loop body that changes only the entry it visits.  The result of the loop is computed entry by
  entry from the entries before the loop.
\<close>

definition visits ::
  "(Key \<times> mapStateEntry \<Rightarrow> mstate \<Rightarrow> mstate) \<Rightarrow> (Key \<Rightarrow> mapStateEntry \<Rightarrow> mapStateEntry option) \<Rightarrow> ClusterInfo \<Rightarrow> bool"
where
  "visits f g c \<longleftrightarrow>
     (\<forall>k v st. ms_inv (fst st) \<and> ents (fst st) k = Some v \<and> ms_clusterInfo (fst st) = c \<longrightarrow>
        ms_inv (fst (f (k, v) st)) \<and> ents (fst (f (k, v) st)) = (ents (fst st))(k := g k v) \<and>
        ms_clusterInfo (fst (f (k, v) st)) = c)"

lemma visitsD:
  assumes "visits f g c" "ms_inv (fst st)" "ents (fst st) k = Some v" "ms_clusterInfo (fst st) = c"
  shows "ms_inv (fst (f (k, v) st))" "ents (fst (f (k, v) st)) = (ents (fst st))(k := g k v)"
    "ms_clusterInfo (fst (f (k, v) st)) = c"
  using assms unfolding visits_def by blast+

lemma visit_fold:
  assumes "visits f g c" "distinct (map fst xs)" "\<And>k v. (k, v) \<in> set xs \<Longrightarrow> ents (fst st) k = Some v"
    and "ms_inv (fst st)" "ms_clusterInfo (fst st) = c"
  shows "ms_inv (fst (fold f xs st)) \<and> ms_clusterInfo (fst (fold f xs st)) = c \<and>
    ents (fst (fold f xs st)) = (\<lambda>k. case map_of xs k of None \<Rightarrow> ents (fst st) k | Some v \<Rightarrow> g k v)"
  using assms(2-)
proof (induction xs arbitrary: st)
  case (Cons x xs)
  obtain k v where x: "x = (k, v)" by (cases x)
  have step: "ms_inv (fst (f x st))" "ents (fst (f x st)) = (ents (fst st))(k := g k v)"
    "ms_clusterInfo (fst (f x st)) = c"
    unfolding x using visitsD [OF assms(1) Cons.prems(3) _ Cons.prems(4)] Cons.prems(2) x by simp_all
  have "ents (fst (f x st)) k' = Some v'" if "(k', v') \<in> set xs" for k' v'
    using Cons.prems(1) Cons.prems(2) [of k' v'] that step(2) x by force
  then have IH: "ms_inv (fst (fold f xs (f x st))) \<and> ms_clusterInfo (fst (fold f xs (f x st))) = c \<and>
      ents (fst (fold f xs (f x st))) =
        (\<lambda>k. case map_of xs k of None \<Rightarrow> ents (fst (f x st)) k | Some v \<Rightarrow> g k v)"
    using Cons.IH [of "f x st"] Cons.prems(1) step by simp
  have "map_of xs k = None" using Cons.prems(1) x by (simp add: map_of_eq_None_iff)
  then show ?case using IH step(2) by (auto simp: x fun_eq_iff split: option.split)
qed simp

lemma option_ext: "(\<And>v. a = Some v \<longleftrightarrow> b = Some v) \<Longrightarrow> a = b"
  by (cases a; cases b) auto

lemma CoveredNarrower_map_of:
  assumes inv: "ms_inv ms" and wf: "lpm_wf (key_LPMKey key)"
  shows "map_of (CoveredNarrowerOrEqualKeys ms key) k =
    (if key_covers (ms_clusterInfo ms) key k then ents ms k else None)"
proof (rule option_ext)
  fix v
  have "map_of (CoveredNarrowerOrEqualKeys ms key) k = Some v \<longleftrightarrow> (k, v) \<in> set (CoveredNarrowerOrEqualKeys ms key)"
    by (rule map_of_eq_Some_iff [OF CoveredNarrowerOrEqualKeys_distinct [OF assms]])
  also have "\<dots> \<longleftrightarrow> key_covers (ms_clusterInfo ms) key k \<and> ents ms k = Some v"
    unfolding CoveredNarrowerOrEqualKeys_visited [OF assms] visited_def key_covers_def by blast
  finally show "map_of (CoveredNarrowerOrEqualKeys ms key) k = Some v \<longleftrightarrow>
      (if key_covers (ms_clusterInfo ms) key k then ents ms k else None) = Some v"
    by (simp split: if_split)
qed

lemma visit_covered:
  assumes f: "visits f g (ms_clusterInfo (fst st))" and inv: "ms_inv (fst st)" and wf: "lpm_wf (key_LPMKey key)"
  shows "ms_inv (fst (fold f (CoveredNarrowerOrEqualKeys (fst st) key) st))"
    "ms_clusterInfo (fst (fold f (CoveredNarrowerOrEqualKeys (fst st) key) st)) = ms_clusterInfo (fst st)"
    "ents (fst (fold f (CoveredNarrowerOrEqualKeys (fst st) key) st)) k =
      (if key_covers (ms_clusterInfo (fst st)) key k then Option.bind (ents (fst st) k) (g k) else ents (fst st) k)"
proof -
  have "ents (fst st) k = Some v" if "(k, v) \<in> set (CoveredNarrowerOrEqualKeys (fst st) key)" for k v
    using that CoveredNarrowerOrEqualKeys_visited [OF inv wf] by (simp add: visited_def)
  note fold = visit_fold [OF f CoveredNarrowerOrEqualKeys_distinct [OF inv wf] this inv refl]
  show "ms_inv (fst (fold f (CoveredNarrowerOrEqualKeys (fst st) key) st))"
    "ms_clusterInfo (fst (fold f (CoveredNarrowerOrEqualKeys (fst st) key) st)) = ms_clusterInfo (fst st)"
    using fold by simp_all
  show "ents (fst (fold f (CoveredNarrowerOrEqualKeys (fst st) key) st)) k =
      (if key_covers (ms_clusterInfo (fst st)) key k then Option.bind (ents (fst st) k) (g k) else ents (fst st) k)"
    using fold by (simp add: CoveredNarrower_map_of [OF inv wf] split: option.split)
qed

lemma deleteCovered_visits:
  "visits (\<lambda>(k, v) st. if P k v then deleteExistingWithChanges k v st else st)
     (\<lambda>k v. if P k v then None else Some v) c"
  unfolding visits_def by (auto simp: deleteExisting_ents deleteExisting_inv)

lemma deleteCovered_effect:
  assumes "ms_inv (fst st)" "lpm_wf (key_LPMKey key)"
  shows "ms_inv (fst (deleteCovered P key st))"
    "ms_clusterInfo (fst (deleteCovered P key st)) = ms_clusterInfo (fst st)"
    "ents (fst (deleteCovered P key st)) k =
      (case ents (fst st) k of
         None \<Rightarrow> None
       | Some v \<Rightarrow> if key_covers (ms_clusterInfo (fst st)) key k \<and> P k v then None else Some v)"
  unfolding deleteCovered_def using visit_covered [OF deleteCovered_visits assms]
  by (auto split: option.split)

section \<open>Pruning\<close>

definition prune_result ::
  "ClusterInfo \<Rightarrow> Key \<Rightarrow> mapStateEntry \<Rightarrow> Precedence \<Rightarrow> Key \<Rightarrow> mapStateEntry \<Rightarrow> mapStateEntry option"
where
  "prune_result c key entry precedence k v =
     (let deletePassMeta = (\<not> list_ex (\<lambda>pass. isDifferentTierOrHigherPrecedence pass precedence) (Passes v));
          deletePassEntry = list_ex (\<lambda>pass. \<not> isDifferentTierOrHigherPrecedence pass precedence) (Passes v);
          deleteEntry =
            (\<not> me_IsValid v \<or> me_Precedence v < precedence \<or> me_IsDeny v \<and> me_Precedence v = precedence \<and> k \<noteq> key \<or>
             key_LPMKey key = key_LPMKey k \<and> aggregates (Identity key) (Identity k) c \<and> equivalent v entry)
      in
      if deletePassMeta \<and> deleteEntry then None
      else
        let v1 = (if deletePassMeta then v\<lparr>me_passes := None\<rparr>
                  else if deletePassEntry
                    then v\<lparr>me_passes := map_option (\<lambda>ps. passMetas_Delete ps precedence) (me_passes v)\<rparr>
                  else v)
        in Some (if deleteEntry then v1\<lparr>me_entry := Invalidate (me_entry v1)\<rparr> else v1))"

lemma prune_visits:
  "visits (\<lambda>kv. pruneCoveredNarrowerKey kv key entry precedence) (prune_result c key entry precedence) c"
  unfolding visits_def
proof (intro allI impI)
  fix k v and st :: mstate
  assume a: "ms_inv (fst st) \<and> ents (fst st) k = Some v \<and> ms_clusterInfo (fst st) = c"
  obtain ms ch where st: "st = (ms, ch)" by (cases st)
  have inv: "ms_inv ms" and k: "ents ms k = Some v" and c: "ms_clusterInfo ms = c" using a st by simp_all
  have upd: "ms_inv (updateExisting ms k e)" for e using updateExisting_inv [OF inv] k by simp
  show "ms_inv (fst (pruneCoveredNarrowerKey (k, v) key entry precedence st)) \<and>
      ents (fst (pruneCoveredNarrowerKey (k, v) key entry precedence st)) =
        (ents (fst st))(k := prune_result c key entry precedence k v) \<and>
      ms_clusterInfo (fst (pruneCoveredNarrowerKey (k, v) key entry precedence st)) = c"
    using inv k c upd
    by (auto simp: st pruneCoveredNarrowerKey_def prune_result_def Let_def deleteExisting_ents deleteExisting_inv
        ents_simps map_upd_triv)
qed

lemma pruneCovered_inv:
  assumes "ms_inv (fst st)" "lpm_wf (key_LPMKey key)"
  shows "ms_inv (fst (pruneCovered key entry precedence st))"
    "ms_clusterInfo (fst (pruneCovered key entry precedence st)) = ms_clusterInfo (fst st)"
  unfolding pruneCovered_def using visit_covered [OF prune_visits assms] by blast+

lemma addPassed_inv:
  assumes "ms_inv (fst st)" "lpm_wf (key_LPMKey key)"
  shows "ms_inv (fst (addPassed key entry precedence st))"
    "ms_clusterInfo (fst (addPassed key entry precedence st)) = ms_clusterInfo (fst st)"
  using pruneCovered_inv [OF assms, of entry precedence]
  by (simp_all add: addPassed_def Let_def split_beta addKey_inv assms)

lemma insertSubkeys_inv:
  assumes "ms_inv (fst st)" "\<And>k. k \<in> set keys \<Longrightarrow> lpm_wf (key_LPMKey k)"
  shows "ms_inv (fst (insertSubkeys tm agg entry keys d st))"
  using assms
proof (induction tm agg entry keys d st rule: insertSubkeys.induct)
  case (2 tm agg entry key keys d st)
  define s where "s = subkeyScan (fst st) tm agg key entry d"
  obtain keys' d' where new: "addNewKeys (sc_l34Keys s) (keys, sc_doneKeys s) = (keys', d')" by fastforce
  define precedence where "precedence = InheritPassPrecedence (me_Precedence entry) (sc_passes s)"
  define st' where "st' = (if precedence > sc_bailPrecedence s then addPassed key entry precedence st else st)"
  have inv: "ms_inv (fst st')" using 2(2,3) by (simp add: st'_def addPassed_inv)
  have wf: "lpm_wf (key_LPMKey k)" if "k \<in> set keys'" for k
  proof -
    have "k \<in> set keys \<or> k \<in> Keys_set (sc_l34Keys s)" using addNewKeys_keys [OF new] that by auto
    then show ?thesis using subkeyScan_l34 [of k] 2(3) unfolding s_def by fastforce
  qed
  show ?case
    using 2(1) [OF s_def new [symmetric] refl precedence_def st'_def inv wf] new
    by (simp add: Let_def s_def [symmetric] precedence_def [symmetric] st'_def split: if_splits)
qed simp

lemma narrowerStep_fold:
  "fst (fold (narrowerStep tm agg key entry bail) kvs (st, ks)) =
    fold (\<lambda>kv st. if \<not> bail \<and> (Identity key = agg \<or> Identity (fst kv) = Identity key)
                  then pruneCoveredNarrowerKey kv key entry (me_Precedence entry) st else st) kvs st"
  by (induction kvs arbitrary: st ks) (simp_all add: narrowerStep_def Let_def)

lemma narrowerStep_keys:
  assumes "\<And>kv. kv \<in> set kvs \<Longrightarrow> lpm_wf (key_LPMKey (fst kv))" "k \<in> set (fst (snd (fold (narrowerStep tm agg key entry bail) kvs (st, ks))))"
  shows "k \<in> set (fst ks) \<or> lpm_wf (key_LPMKey k)"
  using assms
proof (induction kvs arbitrary: st ks)
  case (Cons kv kvs)
  obtain st' ks' where step: "narrowerStep tm agg key entry bail kv (st, ks) = (st', ks')" by (rule prod.exhaust)
  have "k \<in> set (fst ks') \<or> lpm_wf (key_LPMKey k)" using Cons step by auto
  moreover have "set (fst ks') \<subseteq> set (fst ks) \<union> {k. lpm_wf (key_LPMKey k)}"
    using step Cons.prems(1) [of kv]
    by (cases ks; cases kv)
      (auto simp: narrowerStep_def Let_def collectNarrowerPasses_def addNewKey_def split: if_splits)
  ultimately show ?case by auto
qed simp

lemma visits_if: "visits f g c \<Longrightarrow> visits (\<lambda>kv st. if P kv then f kv st else st) (\<lambda>k v. if P (k, v) then g k v else Some v) c"
  unfolding visits_def by (auto simp: map_upd_triv)

lemma Narrower_ents:
  assumes "ms_inv ms" "lpm_wf (key_LPMKey key)" "(k, v) \<in> set (NarrowerOrEqualKeys ms key)"
  shows "ents ms k = Some v"
  using assms(3) unfolding NarrowerOrEqualKeys_visited [OF assms(1,2)] visited_def by blast

lemma insertVerdict_inv:
  assumes inv: "ms_inv (fst st)" and wf: "lpm_wf (key_LPMKey key)"
  shows "ms_inv (fst (insertVerdict tm key entry st))"
proof (cases "scanKeys True tm (aggregateFor (Identity key) (ms_clusterInfo (fst st))) key entry
    (BroaderOrEqualKeys (fst st) key)
    \<lparr>sc_passes = [], sc_l34Keys = None, sc_doneKeys = None, sc_bailPrecedence = 0\<rparr>")
  case None
  then show ?thesis by (simp add: insertVerdict_def inv)
next
  case (Some s)
  define agg where "agg = aggregateFor (Identity key) (ms_clusterInfo (fst st))"
  define bail where "bail \<longleftrightarrow> sc_bailPrecedence s > 0"
  define ks where "ks = addNewKeys (sc_l34Keys s) ([], sc_doneKeys s)"
  define r where "r = fold (narrowerStep tm agg key entry bail) (NarrowerOrEqualKeys (fst st) key) (st, ks)"
  define prec where "prec = InheritPassPrecedence (me_Precedence entry) (sc_passes s)"
  define st2 where "st2 = (if length (sc_passes s) > 0 \<and> prec > sc_bailPrecedence s then addPassed key entry prec (fst r)
      else if \<not> bail then snd (addKeyWithChanges (fst (fst r)) key entry (snd (fst r))) else fst r)"
  have result: "insertVerdict tm key entry st = insertSubkeys tm agg entry (fst (snd r)) (snd (snd r)) st2"
    using Some unfolding insertVerdict_def Let_def agg_def [symmetric] st2_def prec_def r_def ks_def bail_def
    by (simp add: split_beta)
  have "visits (\<lambda>kv st. if \<not> bail \<and> (Identity key = agg \<or> Identity (fst kv) = Identity key)
      then pruneCoveredNarrowerKey kv key entry (me_Precedence entry) st else st)
      (\<lambda>k v. if \<not> bail \<and> (Identity key = agg \<or> Identity (fst (k, v)) = Identity key)
         then prune_result (ms_clusterInfo (fst st)) key entry (me_Precedence entry) k v else Some v)
      (ms_clusterInfo (fst st))"
    by (rule visits_if [OF prune_visits])
  from visit_fold [OF this NarrowerOrEqualKeys_distinct [OF inv wf] Narrower_ents [OF inv wf] inv refl]
  have r: "ms_inv (fst (fst r))" unfolding r_def narrowerStep_fold by blast
  then have st2: "ms_inv (fst st2)" by (simp add: st2_def addPassed_inv wf addKey_inv)
  have keys: "lpm_wf (key_LPMKey k)" if k: "k \<in> set (fst (snd r))" for k
  proof -
    have "lpm_wf (key_LPMKey (fst kv))" if "kv \<in> set (NarrowerOrEqualKeys (fst st) key)" for kv
      using that Narrower_ents [OF inv wf] ms_inv_wf [OF inv] by (metis prod.collapse)
    then have "k \<in> set (fst ks) \<or> lpm_wf (key_LPMKey k)"
      using narrowerStep_keys k unfolding r_def by blast
    moreover have "lpm_wf (key_LPMKey k)" if "k \<in> set (fst ks)"
    proof -
      have "k \<in> Keys_set (sc_l34Keys s)"
        using addNewKeys_keys [of "sc_l34Keys s" "[]" "sc_doneKeys s" "fst ks" "snd ks"] that ks_def by auto
      then show ?thesis using scanKeys_l34 [OF Some] wf by fastforce
    qed
    ultimately show ?thesis by blast
  qed
  show ?thesis unfolding result by (rule insertSubkeys_inv [OF st2 keys])
qed

lemma insertWithPasses_inv:
  assumes "ms_inv (fst st)" "lpm_wf (key_LPMKey key)"
  shows "ms_inv (fst (insertWithPasses tm key entry st))"
  using assms pruneCovered_inv [OF assms]
  by (auto simp: insertWithPasses_def insertPass_def Let_def split_beta addKey_inv insertVerdict_inv split: option.split)

section \<open>Aggregated keys\<close>

lemma Key_update_Identity: "(k :: Key)\<lparr>Identity := nid\<rparr> = mkKey (key_LPMKey k) nid"
  by (cases k) simp

lemma pruneAggregated_fold:
  fixes newKey :: Key and newEntry :: mapStateEntry and c :: ClusterInfo
  defines "f \<equiv> \<lambda>nid st.
      if \<not> aggregates (Identity newKey) nid c then st
      else
        let k = newKey\<lparr>Identity := nid\<rparr>;
            v = (case ents (fst st) k of
                   Some v \<Rightarrow> v
                 | None \<Rightarrow> \<lparr>me_entry = \<lparr>mse_Precedence = 0, mse_ProxyPort = 0, mse_invalid = False, mse_Cookie = 0\<rparr>,
                            me_passes = None, me_derivedFromRules = None\<rparr>)
        in if equivalent v newEntry then deleteExistingWithChanges k v st else st"
  assumes "ms_inv (fst st)" "distinct ids" "\<And>nid. nid \<in> set ids \<Longrightarrow> ents (fst st) (mkKey (key_LPMKey newKey) nid) \<noteq> None"
  shows "ms_inv (fst (fold f ids st)) \<and> ms_clusterInfo (fst (fold f ids st)) = ms_clusterInfo (fst st) \<and>
    ents (fst (fold f ids st)) k =
      (case ents (fst st) k of
         None \<Rightarrow> None
       | Some v \<Rightarrow>
           if key_LPMKey k = key_LPMKey newKey \<and> Identity k \<in> set ids \<and> aggregates (Identity newKey) (Identity k) c \<and>
              equivalent v newEntry then None else Some v)"
  using assms(2-)
proof (induction ids arbitrary: st)
  case (Cons nid ids)
  let ?k = "mkKey (key_LPMKey newKey) nid"
  obtain v where v: "ents (fst st) ?k = Some v" using Cons.prems(3) [of nid] by auto
  have step: "f nid st = (if aggregates (Identity newKey) nid c \<and> equivalent v newEntry
      then deleteExistingWithChanges ?k v st else st)"
    by (simp add: f_def Let_def Key_update_Identity v)
  have inv: "ms_inv (fst (f nid st))" "ms_clusterInfo (fst (f nid st)) = ms_clusterInfo (fst st)"
    using Cons.prems(1) by (simp_all add: step deleteExisting_inv)
  have ents: "ents (fst (f nid st)) = (if aggregates (Identity newKey) nid c \<and> equivalent v newEntry
      then (ents (fst st))(?k := None) else ents (fst st))"
    by (simp add: step deleteExisting_ents)
  have "ents (fst (f nid st)) (mkKey (key_LPMKey newKey) nid') \<noteq> None" if "nid' \<in> set ids" for nid'
    using that Cons.prems(2) Cons.prems(3) [of nid'] by (auto simp: ents)
  note IH = Cons.IH [OF inv(1) _ this]
  show ?case
  proof (cases "k = ?k")
    case True
    then show ?thesis using IH inv ents v Cons.prems(2) by (auto split: option.split)
  next
    case False
    then have "\<not> (key_LPMKey k = key_LPMKey newKey \<and> Identity k = nid)" by (auto simp: mkKey_eq [symmetric])
    then show ?thesis using False IH inv ents Cons.prems(2) by (auto split: option.split)
  qed
qed (simp split: option.split)

lemma pruneAggregated_effect:
  assumes inv: "ms_inv (fst st)" and wf: "lpm_wf (key_LPMKey newKey)"
  shows "ms_inv (fst (pruneAggregated newKey newEntry st))"
    "ms_clusterInfo (fst (pruneAggregated newKey newEntry st)) = ms_clusterInfo (fst st)"
    "ents (fst (pruneAggregated newKey newEntry st)) k =
      (case ents (fst st) k of
         None \<Rightarrow> None
       | Some v \<Rightarrow>
           if key_LPMKey k = key_LPMKey newKey \<and> aggregates (Identity newKey) (Identity k) (ms_clusterInfo (fst st)) \<and>
              equivalent v newEntry then None else Some v)"
proof -
  let ?c = "ms_clusterInfo (fst st)" and ?l = "key_LPMKey newKey" and ?t = "ms_trie (fst st)"
  note t = ms_inv_trie [OF inv]
  have "ms_inv (fst (pruneAggregated newKey newEntry st)) \<and>
    ms_clusterInfo (fst (pruneAggregated newKey newEntry st)) = ?c \<and>
    ents (fst (pruneAggregated newKey newEntry st)) k =
      (case ents (fst st) k of
         None \<Rightarrow> None
       | Some v \<Rightarrow> if key_LPMKey k = ?l \<and> aggregates (Identity newKey) (Identity k) ?c \<and> equivalent v newEntry
                  then None else Some v)"
  proof (cases "isAggregate (Identity newKey) ?c")
    case False
    then have "\<not> aggregates (Identity newKey) nid ?c" for nid
      unfolding aggregates_def isAggregate_def using aggregateFor_idem by metis
    then show ?thesis using False inv by (auto simp: pruneAggregated_def Let_def split: option.split)
  next
    case agg: True
    show ?thesis
    proof (cases "ExactLookup LPMKey_ops ?t (PrefixLength ?l) ?l")
      case None
      then have "ids_at ?t ?l = {}" using ids_at_lookup [OF t wf] by simp
      then have "ents (fst st) k = None" if "key_LPMKey k = ?l" for k
        using ms_inv_ids [OF inv, of "Identity k" ?l] that by (metis empty_iff mkKey_fields)
      then show ?thesis using agg None inv by (auto simp: pruneAggregated_def Let_def split: option.split)
    next
      case (Some ids)
      then have entry: "(PrefixLength ?l, ?l, ids) \<in> set (trie_entry_list ?t)"
        using ExactLookup_entry [OF t wf] by simp
      have dom: "nid \<in> set ids \<longleftrightarrow> ents (fst st) (mkKey ?l nid) \<noteq> None" for nid by (rule entry_ids [OF inv entry])
      have "Identity k \<in> set ids" if "key_LPMKey k = ?l" "ents (fst st) k = Some v" for k v
        using dom [of "Identity k"] that by (metis mkKey_fields option.distinct(1))
      then show ?thesis
        using pruneAggregated_fold [OF inv trie_ok_entry(3) [OF t entry], of newKey ?c newEntry k] dom agg Some
        by (auto simp: pruneAggregated_def Let_def split: option.split)
    qed
  qed
  then show "ms_inv (fst (pruneAggregated newKey newEntry st))"
    "ms_clusterInfo (fst (pruneAggregated newKey newEntry st)) = ?c"
    "ents (fst (pruneAggregated newKey newEntry st)) k =
      (case ents (fst st) k of
         None \<Rightarrow> None
       | Some v \<Rightarrow> if key_LPMKey k = ?l \<and> aggregates (Identity newKey) (Identity k) ?c \<and> equivalent v newEntry
                  then None else Some v)" by blast+
qed

end
