(* ===== verification/MapStateVerdict.thy ===== *)
theory MapStateVerdict
  imports MapStateInsert
begin

text \<open>
  The verdict of a lookup after a sequence of insertions.  Insertion drops and deletes entries, so
  the map holds less than the rules say; a lookup still finds an entry with the highest precedence
  among all the rules that match.
\<close>

section \<open>The map as a summary of rules\<close>

type_synonym rule = "Key \<times> mapStateEntry"

text \<open>
  The entries summarise the rules: every entry has the precedence of a rule for its key, every rule
  is dominated by an entry that covers it, and a narrower entry has at least the precedence of a
  broader one.
\<close>

definition policy_ok :: "ClusterInfo \<Rightarrow> (Key \<Rightarrow> mapStateEntry option) \<Rightarrow> rule set \<Rightarrow> bool" where
  "policy_ok c E R \<longleftrightarrow>
     (\<forall>k v. E k = Some v \<longrightarrow>
        me_IsValid v \<and> me_passes v = None \<and> (\<exists>r. (k, r) \<in> R \<and> me_Precedence r = me_Precedence v)) \<and>
     (\<forall>k r. (k, r) \<in> R \<longrightarrow> (\<exists>k' v. E k' = Some v \<and> key_covers c k' k \<and> me_Precedence r \<le> me_Precedence v)) \<and>
     (\<forall>k v k' v'. E k = Some v \<and> E k' = Some v' \<and> key_covers c k k' \<longrightarrow> me_Precedence v \<le> me_Precedence v')"

lemma policy_ok_entry:
  assumes "policy_ok c E R" "E k = Some v"
  shows "me_IsValid v" "me_passes v = None" "\<exists>r. (k, r) \<in> R \<and> me_Precedence r = me_Precedence v"
  using assms unfolding policy_ok_def by blast+

lemma policy_ok_rule:
  assumes "policy_ok c E R" "(k, r) \<in> R"
  shows "\<exists>k' v. E k' = Some v \<and> key_covers c k' k \<and> me_Precedence r \<le> me_Precedence v"
  using assms unfolding policy_ok_def by blast

lemma policy_ok_mono:
  assumes "policy_ok c E R" "E k = Some v" "E k' = Some v'" "key_covers c k k'"
  shows "me_Precedence v \<le> me_Precedence v'"
  using assms unfolding policy_ok_def by blast

lemma policy_ok_empty: "policy_ok c (\<lambda>k. None) {}"
  by (simp add: policy_ok_def)

text \<open>A rule that a covering entry dominates may be skipped.\<close>

lemma policy_ok_skip:
  assumes "policy_ok c E R" "E k' = Some v" "key_covers c k' k" "me_Precedence r \<le> me_Precedence v"
  shows "policy_ok c E (insert (k, r) R)"
  using assms unfolding policy_ok_def by blast

text \<open>
  An insertion that deletes only covered entries of at most its precedence, leaves no entry of lower
  precedence below it and is not below an entry of higher precedence.
\<close>

lemma policy_ok_insert:
  assumes ok: "policy_ok c E R"
    and new: "E' key = Some e" "me_Precedence e = me_Precedence r" "me_IsValid e" "me_passes e = None"
    and other: "\<And>k. k \<noteq> key \<Longrightarrow> E' k = E k \<or>
      E' k = None \<and> (\<exists>v. E k = Some v \<and> key_covers c key k \<and> me_Precedence v \<le> me_Precedence r)"
    and old: "\<And>v. E key = Some v \<Longrightarrow> me_Precedence v \<le> me_Precedence r"
    and up: "\<And>k v. E' k = Some v \<Longrightarrow> key_covers c k key \<Longrightarrow> me_Precedence v \<le> me_Precedence r"
    and down: "\<And>k v. E' k = Some v \<Longrightarrow> key_covers c key k \<Longrightarrow> me_Precedence r \<le> me_Precedence v"
  shows "policy_ok c E' (insert (key, r) R)"
proof -
  have kept: "E k = Some v" if "E' k = Some v" "k \<noteq> key" for k v
    using other [OF that(2)] that(1) by auto
  have dominated: "\<exists>k'' v''. E' k'' = Some v'' \<and> key_covers c k'' k \<and> p \<le> me_Precedence v''"
    if "E k' = Some v'" "key_covers c k' k" "p \<le> me_Precedence v'" for k' v' k p
  proof (cases "E' k' = E k' \<and> k' \<noteq> key")
    case True
    then show ?thesis using that by auto
  next
    case False
    then have "key_covers c key k' \<and> me_Precedence v' \<le> me_Precedence r"
      using other [of k'] that(1) old by (cases "k' = key") auto
    then have "key_covers c key k" and "p \<le> me_Precedence e"
      using that(2) key_covers_trans order_trans [OF that(3)] new(2) by (blast, simp)
    then show ?thesis using new(1) by blast
  qed
  show ?thesis
    unfolding policy_ok_def
  proof (intro conjI allI impI, goal_cases)
    case (1 k v)
    then show ?case using new kept policy_ok_entry(1) [OF ok] by (cases "k = key") auto
  next
    case (2 k v)
    then show ?case using new kept policy_ok_entry(2) [OF ok] by (cases "k = key") auto
  next
    case (3 k v)
    then show ?case using new kept policy_ok_entry(3) [OF ok] by (cases "k = key") auto
  next
    case (4 k r')
    then consider "k = key" "r' = r" | "(k, r') \<in> R" by auto
    then show ?case
    proof cases
      case 1
      then show ?thesis using new(1,2) by (intro exI [of _ key] exI [of _ e]) simp
    next
      case 2
      then show ?thesis using policy_ok_rule [OF ok] dominated by blast
    qed
  next
    case (5 k v k' v')
    then have a: "E' k = Some v" "E' k' = Some v'" "key_covers c k k'" by simp_all
    consider "k = key" | "k' = key" | "k \<noteq> key" "k' \<noteq> key" by blast
    then show ?case
    proof cases
      case 1
      then show ?thesis using a down new by simp
    next
      case 2
      then show ?thesis using a up new by simp
    next
      case 3
      then show ?thesis using a kept policy_ok_mono [OF ok] by blast
    qed
  qed
qed

section \<open>One insertion\<close>

lemma equivalent_precedence: "equivalent v w \<Longrightarrow> me_Precedence v = me_Precedence w"
  by (simp add: equivalent_def)

lemma merged_same_precedence:
  assumes "me_Precedence old = me_Precedence new" "me_IsValid old" "me_IsValid new"
    "me_passes old = None" "me_passes new = None"
  shows "me_Precedence (merge_entries old new) = me_Precedence new" "me_IsValid (merge_entries old new)"
    "me_passes (merge_entries old new) = None"
  using assms
  by (auto simp: merge_entries_def Let_def passMetas_MergeClone_def MapStateEntry_Merge_def IsValid_def
      ProxyPortPrecedenceMayDiffer_def)

lemma insert_add:
  assumes ok: "policy_ok c (ents (fst st)) R"
    and st': "ms_inv (fst st')" "ms_clusterInfo (fst st') = c"
    and wf: "lpm_wf (key_LPMKey newKey)" and valid: "me_IsValid newEntry" "me_passes newEntry = None"
    and sub: "\<And>k. ents (fst st') k = ents (fst st) k \<or>
      ents (fst st') k = None \<and> (\<exists>v. ents (fst st) k = Some v \<and> key_covers c newKey k \<and>
        me_Precedence v \<le> me_Precedence newEntry)"
    and up: "\<And>k v. ents (fst st) k = Some v \<Longrightarrow> key_covers c k newKey \<Longrightarrow> me_Precedence v \<le> me_Precedence newEntry"
    and down: "\<And>k v. ents (fst st') k = Some v \<Longrightarrow> key_covers c newKey k \<Longrightarrow> me_Precedence newEntry \<le> me_Precedence v"
  shows "policy_ok c (ents (fst (addPruned newKey newEntry st'))) (insert (newKey, newEntry) R)"
    "ms_inv (fst (addPruned newKey newEntry st'))" "ms_clusterInfo (fst (addPruned newKey newEntry st')) = c"
proof -
  let ?p = "pruneAggregated newKey newEntry st'"
  note prune = pruneAggregated_effect [OF st'(1) wf]
  have add: "addPruned newKey newEntry st' = snd (addKeyWithChanges (fst ?p) newKey newEntry (snd ?p))"
    by (simp add: addPruned_def Let_def split_beta)
  show "ms_inv (fst (addPruned newKey newEntry st'))" "ms_clusterInfo (fst (addPruned newKey newEntry st')) = c"
    unfolding add using prune(1,2) wf st'(2) by (simp_all add: addKey_inv)
  have pruned: "ents (fst ?p) k = ents (fst st') k \<or> ents (fst ?p) k = None \<and>
      (\<exists>v. ents (fst st') k = Some v \<and> key_covers c newKey k \<and> me_Precedence v = me_Precedence newEntry)" for k
    using prune(3) [of newEntry k] equivalent_precedence st'(2)
    by (auto simp: key_covers_def id_covers_def aggregates_def split: option.splits if_splits)
  have own: "ents (fst ?p) newKey = ents (fst st') newKey"
    using prune(3) [of newEntry newKey] by (simp add: aggregates_def split: option.split)
  define e where "e = added_entry (ents (fst st') newKey) newEntry"
  have E': "ents (fst (addPruned newKey newEntry st')) = (ents (fst ?p))(newKey \<mapsto> e)"
    unfolding add addKey_ents own e_def ..
  have old: "me_Precedence v = me_Precedence newEntry" "me_IsValid v" "me_passes v = None"
    if "ents (fst st') newKey = Some v" for v
  proof -
    have "ents (fst st) newKey = Some v" using sub [of newKey] that by auto
    then show "me_IsValid v" "me_passes v = None" using policy_ok_entry [OF ok] by blast+
    show "me_Precedence v = me_Precedence newEntry"
      using up [OF \<open>ents (fst st) newKey = Some v\<close>] down [OF that] by simp
  qed
  have e: "me_Precedence e = me_Precedence newEntry \<and> me_IsValid e \<and> me_passes e = None"
  proof (cases "ents (fst st') newKey")
    case None
    then show ?thesis using valid by (simp add: e_def added_entry_def)
  next
    case (Some v)
    then show ?thesis
      using merged_same_precedence [OF old(1,2) [OF Some] valid(1) old(3) [OF Some] valid(2)]
      by (simp add: e_def added_entry_def)
  qed
  show "policy_ok c (ents (fst (addPruned newKey newEntry st'))) (insert (newKey, newEntry) R)"
    unfolding E'
  proof (rule policy_ok_insert [OF ok, of _ newKey e], goal_cases)
    case (5 k)
    then show ?case using pruned [of k] sub [of k] by fastforce
  next
    case (7 k v)
    then show ?case using pruned [of k] sub [of k] up e by (cases "k = newKey") auto
  next
    case (8 k v)
    then show ?case using pruned [of k] down e by (cases "k = newKey") auto
  qed (use e up in auto)
qed

lemma covering_visited:
  assumes "ms_inv ms" "lpm_wf (key_LPMKey key)"
  shows "list_ex (\<lambda>(k, v). Q k v) (CoveringBroaderOrEqualKeys ms key) \<longleftrightarrow>
    (\<exists>k v. ents ms k = Some v \<and> key_covers (ms_clusterInfo ms) k key \<and> Q k v)"
  unfolding list_ex_iff CoveringBroaderOrEqualKeys_visited [OF assms]
  by (auto simp: visited_def key_covers_def)

lemma insert_pruning:
  assumes inv: "ms_inv (fst st)" and ok: "policy_ok c (ents (fst st)) R" and c: "ms_clusterInfo (fst st) = c"
    and wf: "lpm_wf (key_LPMKey newKey)" and valid: "me_IsValid newEntry" "me_passes newEntry = None"
    and P: "\<And>k v. me_Precedence v < me_Precedence newEntry \<Longrightarrow> P k v" "\<And>k v. P k v \<Longrightarrow> me_Precedence v \<le> me_Precedence newEntry"
    and up: "\<And>k v. ents (fst st) k = Some v \<Longrightarrow> key_covers c k newKey \<Longrightarrow> me_Precedence v \<le> me_Precedence newEntry"
  defines "st' \<equiv> deleteCovered P newKey st"
  shows "policy_ok c (ents (fst (addPruned newKey newEntry st'))) (insert (newKey, newEntry) R)"
    "ms_inv (fst (addPruned newKey newEntry st'))" "ms_clusterInfo (fst (addPruned newKey newEntry st')) = c"
proof -
  note eff = deleteCovered_effect [OF inv wf, of P, folded st'_def]
  have sub: "ents (fst st') k = ents (fst st) k \<or> ents (fst st') k = None \<and>
      (\<exists>v. ents (fst st) k = Some v \<and> key_covers c newKey k \<and> me_Precedence v \<le> me_Precedence newEntry)" for k
    using eff(3) [of k] P(2) c by (cases "ents (fst st) k") auto
  have down: "me_Precedence newEntry \<le> me_Precedence v"
    if "ents (fst st') k = Some v" "key_covers c newKey k" for k v
    using eff(3) [of k] that c P(1) [of v k] by (auto simp: not_less [symmetric] split: option.splits if_splits)
  have ci: "ms_clusterInfo (fst st') = c" using eff(2) c by simp
  show "policy_ok c (ents (fst (addPruned newKey newEntry st'))) (insert (newKey, newEntry) R)"
    "ms_inv (fst (addPruned newKey newEntry st'))" "ms_clusterInfo (fst (addPruned newKey newEntry st')) = c"
    by (rule insert_add [OF ok eff(1) ci wf valid sub up down]; assumption)+
qed

lemma insertWithChanges_policy:
  fixes tm :: Precedence
  assumes inv: "ms_inv (fst st)" and ok: "policy_ok c (ents (fst st)) R" and c: "ms_clusterInfo (fst st) = c"
    and wf: "lpm_wf (key_LPMKey newKey)" and valid: "me_IsValid newEntry" "me_passes newEntry = None"
    and np: "\<not> features_contains features passRules"
    and level: "features_contains features precedenceFeatures \<or> (\<forall>(k, r) \<in> R. me_Precedence r = me_Precedence newEntry)"
  defines "st' \<equiv> insertWithChanges tm newKey newEntry features st"
  shows "policy_ok c (ents (fst st')) (insert (newKey, newEntry) R) \<and> ms_inv (fst st') \<and> ms_clusterInfo (fst st') = c"
proof -
  let ?p = "me_Precedence newEntry" and ?E = "ents (fst st)"
  have skip: "policy_ok c ?E (insert (newKey, newEntry) R)"
    if "?E k = Some v" "key_covers c k newKey" "?p \<le> me_Precedence v" for k v
    by (rule policy_ok_skip [OF ok that])
  have cov: "list_ex (\<lambda>(k, v). Q k v) (CoveringBroaderOrEqualKeys (fst st) newKey) \<longleftrightarrow>
      (\<exists>k v. ?E k = Some v \<and> key_covers c k newKey \<and> Q k v)" for Q
    using covering_visited [OF inv wf] c by simp
  have val: "me_IsValid v" if "?E k = Some v" for k v by (rule policy_ok_entry(1) [OF ok that])
  consider (agg) "aggregateIsEquivalent (fst st) newKey newEntry"
    | (deny) "\<not> aggregateIsEquivalent (fst st) newKey newEntry" "me_IsDeny newEntry"
    | (allow) "\<not> aggregateIsEquivalent (fst st) newKey newEntry" "\<not> me_IsDeny newEntry"
        "features_contains features precedenceFeatures"
    | (plain) "\<not> aggregateIsEquivalent (fst st) newKey newEntry" "\<not> me_IsDeny newEntry"
        "\<not> features_contains features precedenceFeatures"
    by blast
  then show ?thesis
  proof cases
    case agg
    let ?a = "mkKey (key_LPMKey newKey) (aggregateFor (Identity newKey) c)"
    obtain v where v: "?E ?a = Some v" "equivalent v newEntry"
      using agg c by (auto simp: aggregateIsEquivalent_def Let_def Key_update_Identity split: if_splits option.splits)
    moreover have "key_covers c ?a newKey" by (simp add: key_covers_def id_covers_def)
    ultimately show ?thesis
      using skip equivalent_precedence [OF v(2)] inv c agg by (simp add: st'_def insertWithChanges_def Let_def)
  next
    case deny
    let ?Q = "\<lambda>k v. me_IsValid v \<and> (me_Precedence v > ?p \<or> me_Precedence v = ?p \<and> k \<noteq> newKey)"
    show ?thesis
    proof (cases "\<exists>k v. ?E k = Some v \<and> key_covers c k newKey \<and> ?Q k v")
      case True
      then show ?thesis
        using skip inv c deny np unfolding st'_def insertWithChanges_def Let_def cov
        by (auto simp only: if_True if_False intro: less_imp_le eq_refl)
    next
      case False
      then have up: "me_Precedence v \<le> ?p" if "?E k = Some v" "key_covers c k newKey" for k v
        using that val [OF that(1)] by (meson not_le_imp_less)
      let ?P = "\<lambda>k v. me_Precedence v < ?p \<or> me_Precedence v = ?p \<and> k \<noteq> newKey"
      have P: "\<And>k v. me_Precedence v < ?p \<Longrightarrow> ?P k v" "\<And>k v. ?P k v \<Longrightarrow> me_Precedence v \<le> ?p" by auto
      have "st' = addPruned newKey newEntry (deleteCovered ?P newKey st)"
        unfolding st'_def insertWithChanges_def Let_def cov using False deny np by (simp only: if_False if_True)
      then show ?thesis using insert_pruning [where P = ?P, OF inv ok c wf valid P up] by simp
    qed
  next
    case allow
    show ?thesis
    proof (cases "\<exists>k v. ?E k = Some v \<and> key_covers c k newKey \<and> me_IsValid v \<and> me_Precedence v > ?p")
      case True
      then show ?thesis
        using skip inv c allow np unfolding st'_def insertWithChanges_def Let_def cov
        by (auto simp only: if_True if_False intro: less_imp_le)
    next
      case False
      then have up: "me_Precedence v \<le> ?p" if "?E k = Some v" "key_covers c k newKey" for k v
        using that val [OF that(1)] by (meson not_le_imp_less)
      let ?P = "\<lambda>(k :: Key) v. me_Precedence v < ?p"
      have P: "\<And>k v. me_Precedence v < ?p \<Longrightarrow> ?P k v" "\<And>k v. ?P k v \<Longrightarrow> me_Precedence v \<le> ?p" by auto
      have "st' = addPruned newKey newEntry (deleteCovered ?P newKey st)"
        unfolding st'_def insertWithChanges_def Let_def cov using False allow np by (simp only: if_False if_True)
      then show ?thesis using insert_pruning [where P = ?P, OF inv ok c wf valid P up] by simp
    qed
  next
    case plain
    have eq: "me_Precedence v = ?p" if "?E k = Some v" for k v
      using policy_ok_entry(3) [OF ok that] level plain(3) by fastforce
    have "st' = addPruned newKey newEntry st"
      unfolding st'_def insertWithChanges_def Let_def using plain np by (simp only: if_False)
    moreover have "me_Precedence v \<le> ?p" "?p \<le> me_Precedence v" if "?E k = Some v" for k v
      using eq [OF that] by simp_all
    ultimately show ?thesis using insert_add [OF ok inv c wf valid disjI1 [OF refl]] by blast
  qed
qed

end
