(* ===== verification/MapStateLookup.thy ===== *)
theory MapStateLookup
  imports MapStateVerdict
begin

text \<open>
  The lookup: two longest-prefix matches, one for the identity of the packet and one for its
  aggregate, and the choice between them.
\<close>

section \<open>The two matches\<close>

definition id_match :: "NumericIdentity \<Rightarrow> Key \<times> mapStateEntry \<Rightarrow> bool" where
  "id_match agg kv \<longleftrightarrow> Identity (fst kv) \<noteq> agg \<and> me_IsValid (snd kv)"

definition agg_match :: "NumericIdentity \<Rightarrow> Key \<times> mapStateEntry \<Rightarrow> bool" where
  "agg_match agg kv \<longleftrightarrow> Identity (fst kv) = agg \<and> me_IsValid (snd kv)"

lemma iterate_lookup:
  "snd (iterate (lookup_step agg) xs (a, b)) =
    (if a = None then List.find (id_match agg) xs else a, if b = None then List.find (agg_match agg) xs else b)"
proof (induction xs arbitrary: a b)
  case (Cons x xs)
  define a' where "a' = (if a = None \<and> id_match agg x then Some x else a)"
  define b' where "b' = (if b = None \<and> agg_match agg x then Some x else b)"
  have step: "lookup_step agg x (a, b) = (\<not> (a' \<noteq> None \<and> b' \<noteq> None), a', b')"
    by (cases x) (simp add: lookup_step_def Let_def a'_def b'_def id_match_def agg_match_def)
  show ?case
  proof (cases "a' \<noteq> None \<and> b' \<noteq> None")
    case True
    then show ?thesis using step by (auto simp: a'_def b'_def split: if_splits)
  next
    case False
    then have "snd (iterate (lookup_step agg) (x # xs) (a, b)) = snd (iterate (lookup_step agg) xs (a', b'))"
      using step by simp
    then show ?thesis unfolding Cons by (auto simp: a'_def b'_def)
  qed
qed simp

lemma mapState_lookup_find:
  "mapState_lookup ms key =
    (let agg = aggregateFor (Identity key) (ms_clusterInfo ms)
     in lookup_choose (List.find (id_match agg) (LPMAncestors ms key)) (List.find (agg_match agg) (LPMAncestors ms key)))"
  using iterate_lookup [of _ "LPMAncestors ms key" None None]
  by (simp add: mapState_lookup_def Let_def split_beta)

lemma find_sorted:
  assumes "sorted_wrt R xs" "List.find P xs = Some x"
  shows "x \<in> set xs" "P x" "\<And>y. y \<in> set xs \<Longrightarrow> P y \<Longrightarrow> y = x \<or> R x y"
proof -
  show "x \<in> set xs" "P x" using assms(2) by (auto simp: find_Some_iff)
  fix y assume "y \<in> set xs" "P y"
  then show "y = x \<or> R x y" using assms
    by (induction xs) (auto split: if_splits)
qed

lemma sorted_const: "(\<And>a. a \<in> set ys \<Longrightarrow> m a = (c :: nat)) \<Longrightarrow> sorted_wrt (\<lambda>a b. m b \<le> m a) ys"
  by (induction ys) simp_all

lemma sorted_concat:
  fixes m :: "'a \<Rightarrow> nat"
  assumes "sorted_wrt (\<lambda>x y. n y \<le> n x) xs" "\<And>x a. x \<in> set xs \<Longrightarrow> a \<in> set (f x) \<Longrightarrow> m a = n x"
  shows "sorted_wrt (\<lambda>a b. m b \<le> m a) (concat (map f xs))"
  using assms
proof (induction xs)
  case (Cons x xs)
  have head: "sorted_wrt (\<lambda>a b. m b \<le> m a) (f x)" by (rule sorted_const [of _ _ "n x"]) (simp add: Cons.prems(2))
  have "m b \<le> m a" if "a \<in> set (f x)" "y \<in> set xs" "b \<in> set (f y)" for a b y
    using Cons.prems(1) Cons.prems(2) [of x a] Cons.prems(2) [of y b] that by simp
  then show ?case using head Cons by (auto simp: sorted_wrt_append)
qed simp

lemma LPMAncestors_sorted:
  assumes inv: "ms_inv ms" and wf: "lpm_wf (key_LPMKey key)"
  shows "sorted_wrt (\<lambda>x y. PrefixLength (key_LPMKey (fst y)) \<le> PrefixLength (key_LPMKey (fst x))) (LPMAncestors ms key)"
proof -
  note t = ms_inv_trie [OF inv]
  let ?agg = "aggregateFor (Identity key) (ms_clusterInfo ms)"
  let ?f = "\<lambda>(l, ids). forID ms (mkKey l (Identity key)) ids @
      (if Identity key \<noteq> ?agg then forID ms (mkKey l ?agg) ids else [])"
  define xs where "xs = ancestorLPF_seq
      (AncestorLongestPrefixFirstIterator LPMKey_ops (ms_trie ms) (PrefixLength (key_LPMKey key)) (key_LPMKey key))"
  let ?path = "path LPMKey_ops (PrefixLength (key_LPMKey key)) (key_LPMKey key) (trie_root (ms_trie ms))"
  have xs: "xs = rev (map snd ?path)"
    unfolding xs_def by (rule lpm.AncestorLPF_seq [OF trie_ok_wf [OF t]])
  have path: "sorted_wrt (<) (map fst ?path)"
    by (rule lpm.path_sorted) (use lpm.wf_trie_root [OF trie_ok_wf [OF t]] in blast)
  have len: "fst x = PrefixLength (fst (snd x))" if "x \<in> set ?path" for x
  proof -
    have "x \<in> set (trie_entry_list (ms_trie ms))"
      using that lpm.path_root_set [OF trie_ok_wf [OF t]] by (auto simp: covering_def)
    then show ?thesis using trie_ok_entry(1) [OF t] by (metis prod.collapse)
  qed
  have sorted: "sorted_wrt (\<lambda>x y. PrefixLength (fst y) \<le> PrefixLength (fst x)) xs"
    unfolding xs sorted_wrt_rev sorted_wrt_map
    by (rule sorted_wrt_mono_rel [OF _ path [unfolded sorted_wrt_map]]) (simp add: len [symmetric])
  have keys: "key_LPMKey (fst kv) = fst x" if "x \<in> set xs" "kv \<in> set (?f x)" for x kv
    using that(2) by (auto simp: forID_def forKey_def split: if_splits option.splits)
  have "sorted_wrt (\<lambda>x y. PrefixLength (key_LPMKey (fst y)) \<le> PrefixLength (key_LPMKey (fst x))) (concat (map ?f xs))"
    by (rule sorted_concat [OF sorted]) (simp add: keys)
  then show ?thesis unfolding LPMAncestors_def Let_def xs_def .
qed

section \<open>Best matches\<close>

text \<open>The entries with a given identity that match, and the one with the longest prefix.\<close>

definition matching :: "mapState \<Rightarrow> NumericIdentity \<Rightarrow> Key \<Rightarrow> Key \<Rightarrow> mapStateEntry \<Rightarrow> bool" where
  "matching ms nid key k v \<longleftrightarrow>
     ents ms k = Some v \<and> me_IsValid v \<and> Identity k = nid \<and> lpm_covers (key_LPMKey k) (key_LPMKey key)"

definition best_match :: "mapState \<Rightarrow> NumericIdentity \<Rightarrow> Key \<Rightarrow> Key \<Rightarrow> mapStateEntry \<Rightarrow> bool" where
  "best_match ms nid key k v \<longleftrightarrow> matching ms nid key k v \<and>
     (\<forall>k' v'. matching ms nid key k' v' \<longrightarrow> lpm_covers (key_LPMKey k') (key_LPMKey k))"

lemma covers_chain:
  assumes "lpm_covers a key" "lpm_covers b key" "PrefixLength a \<le> PrefixLength b"
  shows "lpm_covers a b"
proof -
  have "agree LPMKey_ops (PrefixLength a) b key"
    using assms(2,3) lpm.agree_mono unfolding covers_def by blast
  then have "agree LPMKey_ops (PrefixLength a) a b"
    using assms(1) lpm.agree_trans lpm.agree_sym unfolding covers_def by blast
  then show ?thesis using assms(3) by (simp add: covers_def)
qed

lemma find_match:
  assumes inv: "ms_inv ms" and wf: "lpm_wf (key_LPMKey key)"
    and P: "\<And>k v. (k, v) \<in> set (LPMAncestors ms key) \<Longrightarrow> P (k, v) \<longleftrightarrow> matching ms nid key k v"
    and nid: "id_covers (ms_clusterInfo ms) nid (Identity key)"
  shows "List.find P (LPMAncestors ms key) = Some (k, v) \<Longrightarrow> best_match ms nid key k v"
    "List.find P (LPMAncestors ms key) = None \<Longrightarrow> \<not> matching ms nid key k v"
proof -
  have L: "(k, v) \<in> set (LPMAncestors ms key)" if "matching ms nid key k v" for k v
    using that nid unfolding LPMAncestors_visited [OF inv wf] by (auto simp: visited_def matching_def)
  show "\<not> matching ms nid key k v" if "List.find P (LPMAncestors ms key) = None"
    using that L P by (auto simp: find_None_iff)
  assume found: "List.find P (LPMAncestors ms key) = Some (k, v)"
  note fs = find_sorted [OF LPMAncestors_sorted [OF inv wf] found]
  have m: "matching ms nid key k v" using P fs(1,2) by blast
  have "lpm_covers (key_LPMKey k') (key_LPMKey k)" if m': "matching ms nid key k' v'" for k' v'
  proof -
    have "PrefixLength (key_LPMKey k') \<le> PrefixLength (key_LPMKey k)"
      using fs(3) [OF L [OF m']] P [OF L [OF m']] m' by auto
    then show ?thesis using covers_chain m m' by (auto simp: matching_def)
  qed
  then show "best_match ms nid key k v" using m by (auto simp: best_match_def)
qed

lemma LPMAncestors_ents:
  assumes "ms_inv ms" "lpm_wf (key_LPMKey key)" "(k, v) \<in> set (LPMAncestors ms key)"
  shows "ents ms k = Some v" "lpm_covers (key_LPMKey k) (key_LPMKey key)"
    "Identity k = Identity key \<or> Identity k = aggregateFor (Identity key) (ms_clusterInfo ms)"
  using assms(3) unfolding LPMAncestors_visited [OF assms(1,2)] by (simp_all add: visited_def id_covers_def)

text \<open>
  The identity match and the aggregate match of the lookup.  For an aggregate identity there is only
  the latter.
\<close>

lemma lookup_matches:
  fixes ms key
  defines "agg \<equiv> aggregateFor (Identity key) (ms_clusterInfo ms)"
  assumes inv: "ms_inv ms" and wf: "lpm_wf (key_LPMKey key)"
  shows "List.find (agg_match agg) (LPMAncestors ms key) = Some (k, v) \<Longrightarrow> best_match ms agg key k v"
    "List.find (agg_match agg) (LPMAncestors ms key) = None \<Longrightarrow> \<not> matching ms agg key k v"
    "List.find (id_match agg) (LPMAncestors ms key) = Some (k, v) \<Longrightarrow> Identity key \<noteq> agg \<and> best_match ms (Identity key) key k v"
    "List.find (id_match agg) (LPMAncestors ms key) = None \<Longrightarrow> Identity key \<noteq> agg \<Longrightarrow> \<not> matching ms (Identity key) key k v"
proof -
  note L = LPMAncestors_ents [OF inv wf, folded agg_def]
  have "agg_match agg (k, v) \<longleftrightarrow> matching ms agg key k v" if "(k, v) \<in> set (LPMAncestors ms key)" for k v
    using L [OF that] by (auto simp: agg_match_def matching_def)
  note agg = find_match [OF inv wf this]
  have "id_covers (ms_clusterInfo ms) agg (Identity key)" by (simp add: id_covers_def agg_def)
  then show "List.find (agg_match agg) (LPMAncestors ms key) = Some (k, v) \<Longrightarrow> best_match ms agg key k v"
    "List.find (agg_match agg) (LPMAncestors ms key) = None \<Longrightarrow> \<not> matching ms agg key k v"
    using agg by blast+
  have "id_match agg (k, v) \<longleftrightarrow> matching ms (Identity key) key k v"
    if "(k, v) \<in> set (LPMAncestors ms key)" "Identity key \<noteq> agg" for k v
    using L [OF that(1)] that(2) by (auto simp: id_match_def matching_def)
  note ids = find_match [OF inv wf this]
  have ne: "Identity key \<noteq> agg" if "List.find (id_match agg) (LPMAncestors ms key) = Some (k, v)"
  proof -
    have "(k, v) \<in> set (LPMAncestors ms key)" "id_match agg (k, v)"
      using that by (auto simp: find_Some_iff)
    then show ?thesis using L(3) by (auto simp: id_match_def)
  qed
  show "List.find (id_match agg) (LPMAncestors ms key) = Some (k, v) \<Longrightarrow> Identity key \<noteq> agg \<and> best_match ms (Identity key) key k v"
    using ne ids(1) by simp
  show "List.find (id_match agg) (LPMAncestors ms key) = None \<Longrightarrow> Identity key \<noteq> agg \<Longrightarrow> \<not> matching ms (Identity key) key k v"
    using ids(2) by simp
qed

lemma best_match_unique:
  assumes inv: "ms_inv ms" and "best_match ms nid key k v" "best_match ms nid key k' v'"
  shows "k' = k" "v' = v"
proof -
  have m: "matching ms nid key k v" "matching ms nid key k' v'"
    and cov: "lpm_covers (key_LPMKey k') (key_LPMKey k)" "lpm_covers (key_LPMKey k) (key_LPMKey k')"
    using assms(2,3) unfolding best_match_def by blast+
  have wf: "lpm_wf (key_LPMKey k)" "lpm_wf (key_LPMKey k')"
    using m ms_inv_wf [OF inv] by (simp_all add: matching_def)
  have "key_LPMKey k' = key_LPMKey k" by (rule lpm_covers_antisym [OF wf(2,1) cov])
  then show "k' = k" using m by (metis matching_def mkKey_fields)
  then show "v' = v" using m by (simp add: matching_def)
qed

lemma best_match_exists:
  assumes inv: "ms_inv ms" and wf: "lpm_wf (key_LPMKey key)"
    and nid: "id_covers (ms_clusterInfo ms) nid (Identity key)" and m: "matching ms nid key k v"
  shows "\<exists>k v. best_match ms nid key k v"
proof -
  have P: "matching ms nid key (fst (k, v)) (snd (k, v)) \<longleftrightarrow> matching ms nid key k v" for k v by simp
  note fm = find_match [OF inv wf P nid]
  show ?thesis
    using fm(2) [of k v] m fm(1)
    by (cases "List.find (\<lambda>x. matching ms nid key (fst x) (snd x)) (LPMAncestors ms key)") auto
qed

definition either_match :: "(mapState \<Rightarrow> NumericIdentity \<Rightarrow> Key \<Rightarrow> Key \<Rightarrow> mapStateEntry \<Rightarrow> bool) \<Rightarrow>
    mapState \<Rightarrow> Key \<Rightarrow> Key \<Rightarrow> mapStateEntry \<Rightarrow> bool" where
  "either_match M ms key k v \<longleftrightarrow>
     M ms (Identity key) key k v \<or> M ms (aggregateFor (Identity key) (ms_clusterInfo ms)) key k v"

text \<open>What the choice between the two matches returns.\<close>

definition choice_ok :: "mapState \<Rightarrow> Key \<Rightarrow> mapStateEntry \<times> bool \<Rightarrow> bool" where
  "choice_ok ms key r \<longleftrightarrow>
     (if \<exists>k v. either_match matching ms key k v
      then snd r \<and> (\<exists>k. either_match best_match ms key k (fst r) \<and>
        (\<forall>k' v'. either_match best_match ms key k' v' \<longrightarrow>
           me_Precedence v' \<le> me_Precedence (fst r) \<and>
           (me_Precedence v' = me_Precedence (fst r) \<and> me_Precedence v' \<noteq> MaxPrecedence \<longrightarrow>
              PrefixLength (key_LPMKey k') \<le> PrefixLength (key_LPMKey k))))
      else r = (\<lparr>me_entry = DenyEntry, me_passes = None, me_derivedFromRules = NilRuleOrigin\<rparr>, False))"

lemma MaxPrecedence_top: "(p :: Precedence) \<le> MaxPrecedence"
  by (simp add: MaxPrecedence_def word_order.extremum)

lemma choice_okI:
  assumes "either_match best_match ms key k v"
    and "\<And>k' v'. either_match best_match ms key k' v' \<Longrightarrow> me_Precedence v' \<le> me_Precedence v"
    and "\<And>k' v'. either_match best_match ms key k' v' \<Longrightarrow> me_Precedence v' = me_Precedence v \<Longrightarrow>
      me_Precedence v' \<noteq> MaxPrecedence \<Longrightarrow> PrefixLength (key_LPMKey k') \<le> PrefixLength (key_LPMKey k)"
  shows "choice_ok ms key (v, True)"
proof -
  have "either_match matching ms key k v" using assms(1) by (auto simp: either_match_def best_match_def)
  then show ?thesis using assms unfolding choice_ok_def by fastforce
qed

lemma lookup_choice:
  assumes inv: "ms_inv ms" and wf: "lpm_wf (key_LPMKey key)"
  shows "choice_ok ms key (mapState_lookup ms key)"
proof -
  define agg where "agg = aggregateFor (Identity key) (ms_clusterInfo ms)"
  define ide where "ide = List.find (id_match agg) (LPMAncestors ms key)"
  define agge where "agge = List.find (agg_match agg) (LPMAncestors ms key)"
  note lm = lookup_matches [OF inv wf, folded agg_def ide_def agge_def]
  have either: "either_match M ms key k v \<longleftrightarrow> M ms (Identity key) key k v \<or> M ms agg key k v" for M k v
    by (simp add: either_match_def agg_def)
  have res: "mapState_lookup ms key = lookup_choose ide agge"
    by (simp add: mapState_lookup_find Let_def agg_def ide_def agge_def)
  note uniq = best_match_unique [OF inv]
  show ?thesis
  proof (cases ide)
    case None
    then have noid: "\<not> matching ms (Identity key) key k v \<or> Identity key = agg" for k v using lm(4) by blast
    show ?thesis
    proof (cases agge)
      case None
      then have "\<not> either_match matching ms key k v" for k v
        using noid [of k v] lm(2) [of k v] by (auto simp: either)
      then show ?thesis using None \<open>ide = None\<close> by (simp add: choice_ok_def res lookup_choose_def)
    next
      case (Some kv)
      obtain k v where kv: "kv = (k, v)" by (cases kv)
      have best: "best_match ms agg key k v" using lm(1) Some kv by simp
      have only: "k' = k \<and> v' = v" if "either_match best_match ms key k' v'" for k' v'
        using that noid [of k' v'] uniq [OF best] by (auto simp: either best_match_def)
      have "mapState_lookup ms key = (v, True)"
        using Some kv \<open>ide = None\<close> by (simp add: res lookup_choose_def)
      then show ?thesis using choice_okI [of ms key k v] best only by (auto simp: either)
    qed
  next
    case (Some kv)
    obtain ik iv where kv: "kv = (ik, iv)" by (cases kv)
    have ibest: "best_match ms (Identity key) key ik iv" using lm(3) Some kv by simp
    show ?thesis
    proof (cases agge)
      case None
      then have only: "k' = ik \<and> v' = iv" if "either_match best_match ms key k' v'" for k' v'
        using that lm(2) [of k' v'] uniq [OF ibest] by (auto simp: either best_match_def)
      have "mapState_lookup ms key = (iv, True)"
        using Some kv None by (simp add: res lookup_choose_def)
      then show ?thesis using choice_okI [of ms key ik iv] ibest only by (auto simp: either)
    next
      case (Some akv)
      obtain ak av where akv: "akv = (ak, av)" by (cases akv)
      have abest: "best_match ms agg key ak av" using lm(1) Some akv by simp
      have only: "(k', v') = (ik, iv) \<or> (k', v') = (ak, av)" if "either_match best_match ms key k' v'" for k' v'
        using that uniq [OF ibest] uniq [OF abest] by (auto simp: either)
      have l: "mapState_lookup ms key =
          (if me_Precedence iv = MaxPrecedence then (iv, True)
           else if me_Precedence iv > me_Precedence av then (iv, True)
           else if me_Precedence av > me_Precedence iv then (av, True)
           else if PrefixLength (key_LPMKey ak) > PrefixLength (key_LPMKey ik) then (av, True)
           else (iv, True))"
        using Some akv \<open>ide = Some kv\<close> kv by (simp add: res lookup_choose_def)
      have i: "choice_ok ms key (iv, True)"
        if "me_Precedence av \<le> me_Precedence iv"
          "me_Precedence av = me_Precedence iv \<Longrightarrow> me_Precedence av \<noteq> MaxPrecedence \<Longrightarrow>
            PrefixLength (key_LPMKey ak) \<le> PrefixLength (key_LPMKey ik)"
        by (rule choice_okI [of ms key ik]) (use ibest only that in \<open>auto simp: either\<close>)
      have a: "choice_ok ms key (av, True)"
        if "me_Precedence iv \<le> me_Precedence av"
          "me_Precedence iv = me_Precedence av \<Longrightarrow> PrefixLength (key_LPMKey ik) \<le> PrefixLength (key_LPMKey ak)"
        by (rule choice_okI [of ms key ak]) (use abest only that in \<open>auto simp: either\<close>)
      show ?thesis
        unfolding l using i a MaxPrecedence_top [of "me_Precedence av"] by (auto simp: not_less)
    qed
  qed
qed

section \<open>The precedence of the result\<close>

lemma lookup_policy:
  assumes inv: "ms_inv ms" and wf: "lpm_wf (key_LPMKey key)" and ok: "policy_ok c (ents ms) R"
    and c: "ms_clusterInfo ms = c"
  shows "case mapState_lookup ms key of (e, found) \<Rightarrow>
    (if \<exists>k r. (k, r) \<in> R \<and> key_covers c k key
     then found \<and> (\<exists>k r. (k, r) \<in> R \<and> key_covers c k key \<and> me_Precedence r = me_Precedence e) \<and>
       (\<forall>k r. (k, r) \<in> R \<and> key_covers c k key \<longrightarrow> me_Precedence r \<le> me_Precedence e)
     else \<not> found \<and> me_entry e = DenyEntry)"
proof -
  obtain e found where res: "mapState_lookup ms key = (e, found)" by fastforce
  note choice = lookup_choice [OF inv wf, unfolded res]
  have match: "either_match matching ms key k v \<longleftrightarrow> ents ms k = Some v \<and> key_covers c k key" for k v
    using policy_ok_entry(1) [OF ok, of k v] c
    by (auto simp: either_match_def matching_def key_covers_def id_covers_def)
  have rule: "\<exists>k' v. either_match matching ms key k' v \<and> me_Precedence r \<le> me_Precedence v"
    if "(k, r) \<in> R" "key_covers c k key" for k r
    using policy_ok_rule [OF ok that(1)] key_covers_trans [OF _ that(2)] match by blast
  show ?thesis
  proof (cases "\<exists>k v. either_match matching ms key k v")
    case True
    then obtain k where found: found and best: "either_match best_match ms key k e"
      and max: "\<And>k' v'. either_match best_match ms key k' v' \<Longrightarrow> me_Precedence v' \<le> me_Precedence e"
      using choice by (auto simp: choice_ok_def)
    have k: "ents ms k = Some e" "key_covers c k key"
      using best match [of k e] by (auto simp: either_match_def best_match_def)
    have top: "me_Precedence v' \<le> me_Precedence e" if m': "either_match matching ms key k' v'" for k' v'
    proof -
      obtain nid where nid: "matching ms nid key k' v'" "id_covers (ms_clusterInfo ms) nid (Identity key)"
        "nid = Identity key \<or> nid = aggregateFor (Identity key) (ms_clusterInfo ms)"
        using m' by (auto simp: either_match_def id_covers_def)
      obtain b bv where b: "best_match ms nid key b bv" using best_match_exists [OF inv wf nid(2,1)] by blast
      have "key_covers c k' b"
        using b nid(1) by (auto simp: best_match_def matching_def key_covers_def id_covers_def)
      moreover have "ents ms b = Some bv" "ents ms k' = Some v'"
        using b nid(1) by (auto simp: best_match_def matching_def)
      ultimately have "me_Precedence v' \<le> me_Precedence bv" using policy_ok_mono [OF ok] by blast
      also have "\<dots> \<le> me_Precedence e" using max b nid(3) by (auto simp: either_match_def)
      finally show ?thesis .
    qed
    obtain r where "(k, r) \<in> R" "me_Precedence r = me_Precedence e" using policy_ok_entry(3) [OF ok k(1)] by blast
    moreover have "me_Precedence r' \<le> me_Precedence e" if "(k', r') \<in> R" "key_covers c k' key" for k' r'
      using rule [OF that] top order_trans by blast
    ultimately show ?thesis using res found k(2) by auto
  next
    case False
    then have "\<not> (\<exists>k r. (k, r) \<in> R \<and> key_covers c k key)" using rule by blast
    then show ?thesis using choice False res by (simp add: choice_ok_def)
  qed
qed

section \<open>Rules in, verdicts out\<close>

definition insertRules :: "policyFeatures \<Rightarrow> (Precedence \<times> rule) list \<Rightarrow> mstate \<Rightarrow> mstate" where
  "insertRules features rules st = fold (\<lambda>(tm, k, e). insertWithChanges tm k e features) rules st"

lemma insertRules_policy:
  assumes "ms_inv (fst st)" "policy_ok c (ents (fst st)) R" "ms_clusterInfo (fst st) = c"
    and "\<And>tm k e. (tm, k, e) \<in> set rules \<Longrightarrow> lpm_wf (key_LPMKey k) \<and> me_IsValid e \<and> me_passes e = None"
    and np: "\<not> features_contains features passRules"
    and "features_contains features precedenceFeatures \<or>
      (\<forall>r \<in> R. me_Precedence (snd r) = p) \<and> (\<forall>r \<in> set rules. me_Precedence (snd (snd r)) = p)"
  shows "ms_inv (fst (insertRules features rules st)) \<and> ms_clusterInfo (fst (insertRules features rules st)) = c \<and>
    policy_ok c (ents (fst (insertRules features rules st))) (R \<union> snd ` set rules)"
  using assms(1-4,6)
proof (induction rules arbitrary: st R)
  case (Cons x rules)
  obtain tm k e where x: "x = (tm, k, e)" by (cases x)
  let ?st = "insertWithChanges tm k e features st"
  have "features_contains features precedenceFeatures \<or> (\<forall>(k, r) \<in> R. me_Precedence r = me_Precedence e)"
    using Cons.prems(5) x by auto
  then have step: "policy_ok c (ents (fst ?st)) (insert (k, e) R) \<and> ms_inv (fst ?st) \<and> ms_clusterInfo (fst ?st) = c"
    using insertWithChanges_policy [OF Cons.prems(1-3) _ _ _ np, of k e tm] Cons.prems(4) [of tm k e] x by simp
  have "ms_inv (fst (insertRules features rules ?st)) \<and> ms_clusterInfo (fst (insertRules features rules ?st)) = c \<and>
      policy_ok c (ents (fst (insertRules features rules ?st))) (insert (k, e) R \<union> snd ` set rules)"
    by (rule Cons.IH) (use step Cons.prems(4,5) x in auto)
  then show ?case by (simp add: insertRules_def x)
qed (simp add: insertRules_def)

text \<open>
  C1.  The map state refines the set of rules: after inserting any list of allow, redirect and deny
  rules into an empty map (which drops covered rules and deletes covered entries), a lookup finds an
  entry exactly if some rule covers the looked up key, and the precedence of the entry it returns is
  the highest precedence of the rules that cover the key; without such a rule it denies.  The rules
  have well-formed keys and valid entries, the policy has no pass rules (a lone pass rule covers keys
  that a lookup denies), and either the precedence features are on or all rules have the same precedence.
\<close>

theorem insert_lookup_highest_precedence:
  assumes rules: "\<forall>(tm, k, e) \<in> set rules. lpm_wf (key_LPMKey k) \<and> me_IsValid e \<and> me_passes e = None"
    and np: "\<not> features_contains features passRules"
    and level: "features_contains features precedenceFeatures \<or> (\<exists>p. \<forall>(tm, k, e) \<in> set rules. me_Precedence e = p)"
    and key: "lpm_wf (key_LPMKey key)"
  shows "case mapState_lookup (fst (insertRules features rules (newMapState sizes features c, changes))) key of (e, found) \<Rightarrow>
    (if \<exists>(tm, k, r) \<in> set rules. key_covers c k key
     then found \<and> (\<exists>(tm, k, r) \<in> set rules. key_covers c k key \<and> me_Precedence r = me_Precedence e) \<and>
       (\<forall>(tm, k, r) \<in> set rules. key_covers c k key \<longrightarrow> me_Precedence r \<le> me_Precedence e)
     else \<not> found \<and> me_entry e = DenyEntry)"
proof -
  let ?st = "(newMapState sizes features c, changes)"
  have start: "ms_inv (fst ?st)" "policy_ok c (ents (fst ?st)) {}" "ms_clusterInfo (fst ?st) = c"
    using newMapState_inv by (simp_all add: policy_ok_def) (simp_all add: newMapState_def)
  obtain p where level': "features_contains features precedenceFeatures \<or>
      (\<forall>r \<in> {}. me_Precedence (snd (r :: rule)) = p) \<and> (\<forall>r \<in> set rules. me_Precedence (snd (snd r)) = p)"
    using level by fastforce
  have wf: "lpm_wf (key_LPMKey k) \<and> me_IsValid e \<and> me_passes e = None" if "(tm, k, e) \<in> set rules" for tm k e
    using rules that by blast
  have ins: "ms_inv (fst (insertRules features rules ?st))" "ms_clusterInfo (fst (insertRules features rules ?st)) = c"
    "policy_ok c (ents (fst (insertRules features rules ?st))) (snd ` set rules)"
    using insertRules_policy [OF start wf np level'] by simp_all
  have "(\<exists>k r. (k, r) \<in> snd ` set rules \<and> Q k r) \<longleftrightarrow> (\<exists>(tm, k, r) \<in> set rules. Q k r)" for Q by force
  moreover have "(\<forall>k r. (k, r) \<in> snd ` set rules \<and> Q k r \<longrightarrow> S k r) \<longleftrightarrow> (\<forall>(tm, k, r) \<in> set rules. Q k r \<longrightarrow> S k r)" for Q S
    by force
  ultimately show ?thesis
    using lookup_policy [OF ins(1) key ins(3,2)] by (simp only:)
qed

definition example_rules :: "(Precedence \<times> rule) list" where
  "example_rules =
     [(MaxPrecedence, IngressKey,
       newMapStateEntry 10 0 LowestPriority NilRuleOrigin 0 0 Allow),
      (MaxPrecedence, Key_WithIdentity (Key_WithTCPPort IngressKey 80) 1000,
       newMapStateEntry 10 0 LowestPriority NilRuleOrigin 0 0 Deny)]"

theorem insert_lookup_highest_precedence_witness:
  "case mapState_lookup (fst (insertRules precedenceFeatures example_rules
      (newMapState \<lparr>mss_entries = 0, mss_byId = []\<rparr> precedenceFeatures \<lparr>ci_ID = 0, ci_MaxConnectedClusters = 255\<rparr>, NoChanges)))
      (Key_WithIdentity (Key_WithTCPPort IngressKey 80) 1000) of (e, found) \<Rightarrow>
    found \<and> me_Precedence e \<ge> me_Precedence (newMapStateEntry 10 0 LowestPriority NilRuleOrigin 0 0 Deny)"
proof -
  let ?c = "\<lparr>ci_ID = 0, ci_MaxConnectedClusters = 255\<rparr>"
  let ?k = "Key_WithIdentity (Key_WithTCPPort IngressKey 80) 1000"
  let ?r = "newMapStateEntry 10 0 LowestPriority NilRuleOrigin 0 0 Deny"
  have "\<forall>(tm, k, e) \<in> set example_rules. lpm_wf (key_LPMKey k) \<and> me_IsValid e \<and> me_passes e = None"
    "\<not> features_contains precedenceFeatures passRules" "features_contains precedenceFeatures precedenceFeatures"
    "lpm_wf (key_LPMKey ?k)"
    by code_simp+
  note res = insert_lookup_highest_precedence [where sizes = "\<lparr>mss_entries = 0, mss_byId = []\<rparr>" and c = ?c and
      changes = NoChanges, OF this(1,2) disjI1 [OF this(3)] this(4)]
  have mem: "(MaxPrecedence, ?k, ?r) \<in> set example_rules" by (simp add: example_rules_def)
  have cov: "key_covers ?c ?k ?k" by simp
  show ?thesis
    using res mem cov by (auto split: prod.splits if_splits)
qed

end
