(* ===== verification/MapStateChanges.thy ===== *)
theory MapStateChanges
  imports MapStateLookup
begin

text \<open>
  The recorded changes: what \<^verbatim>\<open>Adds\<close>, \<^verbatim>\<open>Deletes\<close> and \<^verbatim>\<open>old\<close> say about
  the entries before and after, that reverting them restores the entries, and where the record falls
  short.  A sequence of operations is a path of the step relation at the end.
\<close>

section \<open>A container with a revert\<close>

text \<open>
  What the revert relies on: a container with entries, a deletion and an insertion that act on the
  entries as the updates of a map and keep its invariant.
\<close>

locale keyed_container =
  fixes inv :: "'c \<Rightarrow> bool" and get :: "'c \<Rightarrow> 'k \<Rightarrow> 'v option"
    and del :: "'c \<Rightarrow> 'k \<Rightarrow> 'c" and ins :: "'c \<Rightarrow> 'k \<Rightarrow> 'v \<Rightarrow> 'c" and key_ok :: "'k \<Rightarrow> bool"
  assumes get_del: "get (del m k) = (get m)(k := None)"
    and get_ins: "get (ins m k v) = (get m)(k \<mapsto> v)"
    and inv_del: "inv m \<Longrightarrow> inv (del m k)"
    and inv_ins: "inv m \<Longrightarrow> key_ok k \<Longrightarrow> inv (ins m k v)"
begin

lemma get_del_all: "get (fold (\<lambda>k m. del m k) ks m) k = (if k \<in> set ks then None else get m k)"
  by (induction ks arbitrary: m) (auto simp: get_del)

lemma inv_del_all: "inv m \<Longrightarrow> inv (fold (\<lambda>k m. del m k) ks m)"
  by (induction ks arbitrary: m) (simp_all add: inv_del)

lemma get_ins_all:
  "distinct (map fst kvs) \<Longrightarrow>
    get (fold (\<lambda>(k, v) m. ins m k v) kvs m) k = (case map_of kvs k of None \<Rightarrow> get m k | Some v \<Rightarrow> Some v)"
proof (induction kvs arbitrary: m)
  case (Cons x kvs)
  obtain k' v' where x: "x = (k', v')" by (cases x)
  have "map_of kvs k' = None" using Cons.prems x by (simp add: map_of_eq_None_iff)
  then show ?case using Cons x by (auto simp: get_ins split: option.split)
qed simp

lemma inv_ins_all:
  "inv m \<Longrightarrow> \<forall>k \<in> fst ` set kvs. key_ok k \<Longrightarrow> inv (fold (\<lambda>(k, v) m. ins m k v) kvs m)"
  by (induction kvs arbitrary: m) (auto simp: inv_ins)

end

interpretation mapst: keyed_container ms_inv ents mapState_delete mapState_insert "\<lambda>k. lpm_wf (key_LPMKey k)"
  by unfold_locales (simp_all add: ents_simps delete_inv upsert_inv)

section \<open>What the record says\<close>

text \<open>
  For one key: the entry before (\<^verbatim>\<open>m0\<close>) and after (\<^verbatim>\<open>m\<close>), the old entry of the
  record, and whether the key is recorded as added and as deleted.
\<close>

definition track1 :: "mapStateEntry option \<Rightarrow> mapStateEntry option \<Rightarrow> mapStateEntry option \<Rightarrow> bool \<Rightarrow> bool \<Rightarrow> bool" where
  "track1 m0 m old isAdd isDel \<longleftrightarrow>
     (case old of Some v \<Rightarrow> m0 = Some v | None \<Rightarrow> if isAdd then m0 = None else m = m0) \<and>
     (isAdd \<longrightarrow> m \<noteq> None) \<and> (isDel \<longrightarrow> m = None \<and> old \<noteq> None)"

definition tracks :: "(Key \<Rightarrow> mapStateEntry option) \<Rightarrow> mstate \<Rightarrow> bool" where
  "tracks M0 st \<longleftrightarrow>
     (\<exists>adds dels old. cs_Adds (snd st) = Some adds \<and> cs_Deletes (snd st) = Some dels \<and> cs_old (snd st) = Some old \<and>
        distinct (map fst old) \<and>
        (\<forall>k. track1 (M0 k) (ents (fst st) k) (map_of old k) (k \<in> set adds) (k \<in> set dels)))"

definition freshChanges :: ChangeState where
  "freshChanges = \<lparr>cs_Adds = Some [], cs_Deletes = Some [], cs_old = Some []\<rparr>"

lemma tracks_start: "tracks (ents ms) (ms, freshChanges)"
  by (simp add: tracks_def freshChanges_def track1_def)

lemma tracks_delete:
  assumes st: "tracks M0 st" and v: "ents (fst st) k = Some v"
  shows "tracks M0 (deleteExistingWithChanges k v st)"
proof -
  obtain ms ch where s: "st = (ms, ch)" by (cases st)
  obtain adds dels old where ch: "cs_Adds ch = Some adds" "cs_Deletes ch = Some dels" "cs_old ch = Some old"
    "distinct (map fst old)" and t: "\<And>k. track1 (M0 k) (ents ms k) (map_of old k) (k \<in> set adds) (k \<in> set dels)"
    using st by (auto simp: tracks_def s)
  define new where "new \<longleftrightarrow> map_of old k = None \<and> k \<notin> set adds"
  define old' where "old' = (if new then AList.update k v old else old)"
  define dels' where "dels' = (if new then List.insert k dels else dels)"
  have res: "deleteExistingWithChanges k v st =
      (mapState_delete ms k, ch\<lparr>cs_Adds := Some (removeAll k adds), cs_Deletes := Some dels', cs_old := Some old'\<rparr>)"
    by (cases ch) (use ch(1,2,3) in \<open>simp add: s deleteExistingWithChanges_def insertOldIfNotExists_def Keys_Has_def Let_def
        new_def old'_def dels'_def del: map_of_eq_None_iff\<close>)
  have "track1 (M0 k') (((ents ms)(k := None)) k') (map_of old' k') (k' \<in> set (removeAll k adds)) (k' \<in> set dels')" for k'
    using t [of k'] v s by (auto simp: track1_def new_def old'_def dels'_def update_conv' split: option.splits if_splits simp del: map_of_eq_None_iff)
  moreover have "distinct (map fst old')" using ch(4) by (simp add: old'_def distinct_update)
  ultimately show ?thesis by (simp add: res tracks_def ents_simps)
qed

lemma tracks_add:
  assumes "tracks M0 (ms, ch)"
  shows "tracks M0 (snd (addKeyWithChanges ms key entry ch))"
proof -
  obtain adds dels old where ch: "cs_Adds ch = Some adds" "cs_Deletes ch = Some dels" "cs_old ch = Some old"
    "distinct (map fst old)" and t: "\<And>k. track1 (M0 k) (ents ms k) (map_of old k) (k \<in> set adds) (k \<in> set dels)"
    using assms by (auto simp: tracks_def)
  have E: "ents (fst (snd (addKeyWithChanges ms key entry ch))) = (ents ms)(key \<mapsto> added_entry (ents ms key) entry)"
    by (rule addKey_ents)
  show ?thesis
  proof (cases "ents ms key")
    case None
    have "track1 (M0 k) (((ents ms)(key \<mapsto> entry)) k) (map_of old k) (k \<in> set (List.insert key adds))
        (k \<in> set (removeAll key dels))" for k
      using t [of k] None by (auto simp: track1_def split: option.splits)
    then show ?thesis
      using ch None E by (simp add: tracks_def addKeyWithChanges_def mapState_get_def recordAdd_def added_entry_def
          ents_simps)
  next
    case (Some e)
    define new where "new \<longleftrightarrow> map_of old key = None \<and> key \<notin> set adds"
    define old' where "old' = (if new then AList.update key e old else old)"
    have io: "snd (insertOldIfNotExists ch key e) = ch\<lparr>cs_old := Some old'\<rparr>"
      by (cases ch) (use ch(1,2,3) in \<open>simp add: insertOldIfNotExists_def Keys_Has_def new_def old'_def del: map_of_eq_None_iff\<close>)
    have dist: "distinct (map fst old')" using ch(4) by (simp add: old'_def distinct_update)
    have t1: "track1 (M0 k) (((ents ms)(key \<mapsto> x)) k) (map_of old' k) (k \<in> set adds) (k \<in> set dels)" for k x
      using t [of k] Some by (auto simp: track1_def new_def old'_def update_conv' split: option.splits if_splits)
    have t2: "track1 (M0 k) (((ents ms)(key \<mapsto> x)) k) (map_of old' k) (k \<in> set (List.insert key adds))
        (k \<in> set (removeAll key dels))" for k x
      using t [of k] Some by (auto simp: track1_def new_def old'_def update_conv' split: option.splits if_splits)
    obtain b ms' ch' where r: "addKeyWithChanges ms key entry ch = (b, ms', ch')" by (metis prod.exhaust)
    have "ch' = ch \<and> ents ms' = ents ms \<or> ch' = ch\<lparr>cs_old := Some old'\<rparr> \<or>
        ch' = recordAdd (ch\<lparr>cs_old := Some old'\<rparr>) key"
      using r Some io by (auto simp: addKeyWithChanges_def mapState_get_def Let_def split_beta split: if_splits option.splits)
    moreover have "ents ms' = (ents ms)(key \<mapsto> added_entry (ents ms key) entry)" using E r by simp
    ultimately consider "ch' = ch" "ents ms' = ents ms"
      | "ch' = ch\<lparr>cs_old := Some old'\<rparr>" "ents ms' = (ents ms)(key \<mapsto> added_entry (ents ms key) entry)"
      | "ch' = recordAdd (ch\<lparr>cs_old := Some old'\<rparr>) key"
        "ents ms' = (ents ms)(key \<mapsto> added_entry (ents ms key) entry)"
      by blast
    then show ?thesis
    proof cases
      case 1
      then show ?thesis using assms by (simp add: r tracks_def)
    next
      case 2
      then show ?thesis unfolding r tracks_def using ch dist t1 by (simp del: fun_upd_apply)
    next
      case 3
      then show ?thesis unfolding r tracks_def using ch dist t2 by (simp add: recordAdd_def del: fun_upd_apply set_removeAll List.set_insert)
    qed
  qed
qed

section \<open>Loops and insertions\<close>

text \<open>A loop that deletes some of the entries it visits keeps every property that a deletion keeps.\<close>

lemma delete_loop:
  assumes J: "\<And>k v st. J st \<Longrightarrow> ents (fst st) k = Some v \<Longrightarrow> J (deleteExistingWithChanges k v st)"
    and "distinct (map fst xs)" "\<And>k v. (k, v) \<in> set xs \<Longrightarrow> ents (fst st) k = Some v" "J st"
  shows "J (fold (\<lambda>(k, v) st. if P k v then deleteExistingWithChanges k v st else st) xs st)"
  using assms(2-)
proof (induction xs arbitrary: st)
  case (Cons x xs)
  obtain k v where x: "x = (k, v)" by (cases x)
  let ?st = "if P k v then deleteExistingWithChanges k v st else st"
  have "J ?st" using Cons.prems J x by simp
  moreover have "ents (fst ?st) k' = Some v'" if "(k', v') \<in> set xs" for k' v'
    using Cons.prems(1,2) that x by (force simp: deleteExisting_ents)
  ultimately show ?case using Cons.IH [of ?st] Cons.prems(1) x by simp
qed simp

lemma deleteCovered_keeps:
  assumes J: "\<And>k v st. J st \<Longrightarrow> ents (fst st) k = Some v \<Longrightarrow> J (deleteExistingWithChanges k v st)"
    and "J st" and inv: "ms_inv (fst st)" and wf: "lpm_wf (key_LPMKey key)"
  shows "J (deleteCovered P key st)"
proof -
  have "ents (fst st) k = Some v" if "(k, v) \<in> set (CoveredNarrowerOrEqualKeys (fst st) key)" for k v
    using that CoveredNarrowerOrEqualKeys_visited [OF inv wf] by (simp add: visited_def)
  from delete_loop [where J = J, OF J CoveredNarrowerOrEqualKeys_distinct [OF inv wf] this \<open>J st\<close>]
  show ?thesis by (simp add: deleteCovered_def)
qed

lemma aggregated_loop:
  fixes newKey :: Key and newEntry :: mapStateEntry and c :: ClusterInfo
  defines "f \<equiv> \<lambda>nid st.
      if \<not> aggregates (Identity newKey) nid c then st
      else
        let k = newKey\<lparr>Identity := nid\<rparr>;
            v = (case ents (fst st) k of
                   Some v \<Rightarrow> v
                 | None \<Rightarrow> \<lparr>me_entry = \<lparr>mse_Precedence = 0, mse_ProxyPort = 0, mse_invalid = False, mse_Cookie = 0\<rparr>,
                            me_passes = None, me_derivedFromRules = None\<rparr>)
        in if equivalent v newEntry then deleteExistingWithChanges k v st else st"
  assumes J: "\<And>k v st. J st \<Longrightarrow> ents (fst st) k = Some v \<Longrightarrow> J (deleteExistingWithChanges k v st)"
    and "distinct ids" "\<And>nid. nid \<in> set ids \<Longrightarrow> ents (fst st) (mkKey (key_LPMKey newKey) nid) \<noteq> None" "J st"
  shows "J (fold f ids st)"
  using assms(3-)
proof (induction ids arbitrary: st)
  case (Cons nid ids)
  let ?k = "mkKey (key_LPMKey newKey) nid"
  obtain v where v: "ents (fst st) ?k = Some v" using Cons.prems(2) [of nid] by auto
  have step: "f nid st = (if aggregates (Identity newKey) nid c \<and> equivalent v newEntry
      then deleteExistingWithChanges ?k v st else st)"
    by (simp add: f_def Let_def Key_update_Identity v)
  have "J (f nid st)" using J [OF Cons.prems(3) v] Cons.prems(3) by (simp add: step)
  moreover have "ents (fst (f nid st)) (mkKey (key_LPMKey newKey) nid') \<noteq> None" if "nid' \<in> set ids" for nid'
    using that Cons.prems(1) Cons.prems(2) [of nid'] by (auto simp: step deleteExisting_ents)
  ultimately show ?case using Cons.IH [of "f nid st"] Cons.prems(1) by simp
qed simp

lemma pruneAggregated_keeps:
  assumes J: "\<And>k v st. J st \<Longrightarrow> ents (fst st) k = Some v \<Longrightarrow> J (deleteExistingWithChanges k v st)"
    and "J st" and inv: "ms_inv (fst st)" and wf: "lpm_wf (key_LPMKey newKey)"
  shows "J (pruneAggregated newKey newEntry st)"
proof (cases "ExactLookup LPMKey_ops (ms_trie (fst st)) (PrefixLength (key_LPMKey newKey)) (key_LPMKey newKey)")
  case None
  then show ?thesis using \<open>J st\<close> by (simp add: pruneAggregated_def Let_def)
next
  case (Some ids)
  note t = ms_inv_trie [OF inv]
  have entry: "(PrefixLength (key_LPMKey newKey), key_LPMKey newKey, ids) \<in> set (trie_entry_list (ms_trie (fst st)))"
    using ExactLookup_entry [OF t wf] Some by blast
  have "ents (fst st) (mkKey (key_LPMKey newKey) nid) \<noteq> None" if "nid \<in> set ids" for nid
    using entry_ids [OF inv entry] that by blast
  from aggregated_loop [where J = J, OF J trie_ok_entry(3) [OF t entry] this \<open>J st\<close>]
  show ?thesis using Some \<open>J st\<close> by (simp add: pruneAggregated_def Let_def)
qed

lemma addPruned_keeps:
  assumes J: "\<And>k v st. J st \<Longrightarrow> ents (fst st) k = Some v \<Longrightarrow> J (deleteExistingWithChanges k v st)"
    and add: "\<And>ms ch. J (ms, ch) \<Longrightarrow> J (snd (addKeyWithChanges ms newKey newEntry ch))"
    and "J st" "ms_inv (fst st)" "lpm_wf (key_LPMKey newKey)"
  shows "J (addPruned newKey newEntry st)"
  using pruneAggregated_keeps [where J = J, OF J assms(3-)] add
  by (simp add: addPruned_def Let_def split_beta)

text \<open>Every insertion without pass rules keeps a property that deletions and adds keep.\<close>

lemma insert_keeps:
  fixes tm :: Precedence
  assumes J: "\<And>k v st. J st \<Longrightarrow> ents (fst st) k = Some v \<Longrightarrow> J (deleteExistingWithChanges k v st)"
    and add: "\<And>ms ch. J (ms, ch) \<Longrightarrow> J (snd (addKeyWithChanges ms newKey newEntry ch))"
    and st: "J st" "ms_inv (fst st)" and wf: "lpm_wf (key_LPMKey newKey)"
    and np: "\<not> features_contains features passRules"
  shows "J (insertWithChanges tm newKey newEntry features st)"
proof -
  have "J (addPruned newKey newEntry (deleteCovered P newKey st))" for P
    using addPruned_keeps [where J = J, OF J add deleteCovered_keeps [where J = J, OF J st wf] deleteCovered_effect(1) [OF st(2) wf] wf]
    by blast
  moreover have "J (addPruned newKey newEntry st)"
    using addPruned_keeps [where J = J, OF J add st wf] by blast
  ultimately show ?thesis using st(1) np by (simp add: insertWithChanges_def Let_def)
qed

lemma insertWithChanges_inv [inv_intros]:
  assumes "ms_inv (fst st)" "lpm_wf (key_LPMKey newKey)"
  shows "ms_inv (fst (insertWithChanges tm newKey newEntry features st))"
proof (cases "features_contains features passRules")
  case True
  then show ?thesis using assms insertWithPasses_inv by (simp add: insertWithChanges_def Let_def)
next
  case False
  then show ?thesis
    using insert_keeps [where J = "\<lambda>st. ms_inv (fst st)", OF _ _ assms(1,1,2) False]
    by (simp add: deleteExisting_inv addKey_inv assms)
qed

lemma tracks_insert:
  assumes "tracks M0 st" "ms_inv (fst st)" "lpm_wf (key_LPMKey newKey)" "\<not> features_contains features passRules"
  shows "tracks M0 (insertWithChanges tm newKey newEntry features st)"
  using insert_keeps [where J = "tracks M0", OF tracks_delete tracks_add assms] by blast

lemma tracks_deleteKey: "tracks M0 st \<Longrightarrow> tracks M0 (deleteKeyWithChanges k st)"
  by (simp add: deleteKeyWithChanges_def mapState_get_def tracks_delete split: option.split)

lemma deleteId_keeps: "(\<And>k st. J st \<Longrightarrow> J (deleteKeyWithChanges k st)) \<Longrightarrow> J st \<Longrightarrow> J (deleteIdWithChanges nid st)"
proof -
  assume J: "\<And>k st. J st \<Longrightarrow> J (deleteKeyWithChanges k st)"
  have "J (fold (\<lambda>l. deleteKeyWithChanges (mkKey l nid)) ls st)" if "J st" for ls st
    using that by (induction ls arbitrary: st) (simp_all add: J)
  then show "J st \<Longrightarrow> J (deleteIdWithChanges nid st)" by (simp add: deleteIdWithChanges_def split: option.split)
qed

section \<open>Sequences of operations\<close>

text \<open>One operation on a map state and its record, for a fixed set of features.\<close>

inductive map_step :: "policyFeatures \<Rightarrow> mstate \<Rightarrow> mstate \<Rightarrow> bool" for features where
  step_insert: "lpm_wf (key_LPMKey key) \<Longrightarrow> map_step features st (insertWithChanges tm key entry features st)"
| step_delete: "map_step features st (deleteKeyWithChanges key st)"
| step_deleteId: "map_step features st (deleteIdWithChanges nid st)"

inductive map_run :: "policyFeatures \<Rightarrow> mstate \<Rightarrow> mstate \<Rightarrow> bool" for features where
  run_start: "map_run features st st"
| run_step: "map_run features st st' \<Longrightarrow> map_step features st' st'' \<Longrightarrow> map_run features st st''"

inductive_cases map_stepE: "map_step features st st'"

lemma map_step_inv: "map_step features st st' \<Longrightarrow> ms_inv (fst st) \<Longrightarrow> ms_inv (fst st')"
  by (erule map_stepE)
    (simp_all add: insertWithChanges_inv deleteKey_inv deleteId_keeps [where J = "\<lambda>st. ms_inv (fst st)"])

lemma map_run_inv: "map_run features st st' \<Longrightarrow> ms_inv (fst st) \<Longrightarrow> ms_inv (fst st')"
  by (induction rule: map_run.induct) (blast intro: map_step_inv)+

lemma map_step_tracks:
  assumes "map_step features st st'" "\<not> features_contains features passRules" "ms_inv (fst st)" "tracks M0 st"
  shows "tracks M0 st'"
  using assms(1)
  by (rule map_stepE)
    (simp_all add: assms tracks_insert tracks_deleteKey deleteId_keeps [where J = "tracks M0"])

lemma map_run_tracks:
  assumes "map_run features st st'" "\<not> features_contains features passRules" "ms_inv (fst st)" "tracks M0 st"
  shows "tracks M0 st'"
  using assms(1,3,4)
proof (induction rule: map_run.induct)
  case (run_step st st' st'')
  then show ?case using map_step_tracks [OF _ assms(2)] map_run_inv by blast
qed

lemma revert_tracked:
  assumes t: "tracks M0 (ms, ch)" and inv: "ms_inv ms" and wf: "\<And>k. M0 k \<noteq> None \<Longrightarrow> lpm_wf (key_LPMKey k)"
  shows "ents (revertChanges ms ch) = M0" "ms_inv (revertChanges ms ch)"
proof -
  obtain adds dels old where ch: "cs_Adds ch = Some adds" "cs_old ch = Some old" and d: "distinct (map fst old)"
    and t: "\<And>k. track1 (M0 k) (ents ms k) (map_of old k) (k \<in> set adds) (k \<in> set dels)"
    using t by (auto simp: tracks_def)
  let ?ms1 = "fold (\<lambda>k ms. mapState_delete ms k) adds ms"
  have r: "revertChanges ms ch = fold (\<lambda>(k, v) ms. mapState_insert ms k v) old ?ms1"
    by (simp add: revertChanges_def ch)
  have "ents (revertChanges ms ch) k = M0 k" for k
    unfolding r mapst.get_ins_all [OF d] mapst.get_del_all using t [of k]
    by (auto simp: track1_def split: option.splits if_splits)
  then show "ents (revertChanges ms ch) = M0" by blast
  have "lpm_wf (key_LPMKey k)" if "k \<in> fst ` set old" for k
  proof -
    have "map_of old k \<noteq> None" using that by (metis map_of_eq_None_iff)
    then have "M0 k \<noteq> None" using t [of k] by (auto simp: track1_def)
    then show ?thesis by (rule wf)
  qed
  then show "ms_inv (revertChanges ms ch)"
    unfolding r using mapst.inv_ins_all mapst.inv_del_all [OF inv] by blast
qed

section \<open>Properties\<close>

text \<open>
  C2.  The indexes of a map state agree with its entries at all times: after any sequence of
  insertions (with any features, pass rules included), deletions of keys and deletions of identities
  from an empty map, the trie is well formed, it holds the identity of a key at the prefix of the key
  exactly if the key has an entry, and so does the index by identity, if the map keeps one.
\<close>

theorem reachable_indexes_agree:
  assumes "map_run features (newMapState sizes features c, changes) (ms, changes')"
  shows "wf_trie LPMKey_ops 25 (ms_trie ms) \<and>
    (\<forall>k. mapState_get ms k \<noteq> None \<longleftrightarrow> Identity k \<in> ids_at (ms_trie ms) (key_LPMKey k)) \<and>
    (\<forall>byId. ms_byId ms = Some byId \<longrightarrow>
      (\<forall>k. mapState_get ms k \<noteq> None \<longleftrightarrow> key_LPMKey k \<in> byId_at byId (Identity k)))"
proof -
  have inv: "ms_inv ms" using map_run_inv [OF assms] newMapState_inv by simp
  show ?thesis
    using trie_ok_wf [OF ms_inv_trie [OF inv]] ms_inv_ids [OF inv] inv
    by (auto simp: mapState_get_def ms_inv_def index_ok_def)
qed

definition example_map :: mapState where
  "example_map = newMapState \<lparr>mss_entries = 0, mss_byId = []\<rparr> precedenceFeatures \<lparr>ci_ID = 0, ci_MaxConnectedClusters = 255\<rparr>"

definition example_insert :: "NumericIdentity \<Rightarrow> Verdict \<Rightarrow> mstate \<Rightarrow> mstate" where
  "example_insert nid v =
     insertWithChanges MaxPrecedence (Key_WithIdentity (Key_WithTCPPort IngressKey 80) nid)
       (newMapStateEntry 10 0 LowestPriority NilRuleOrigin 0 0 v) precedenceFeatures"

lemma example_insert_step: "map_step precedenceFeatures st (example_insert nid v st)"
  unfolding example_insert_def
  by (rule step_insert) (simp add: Key_WithIdentity_def, code_simp)

lemmas example_steps = run_start run_step [OF _ example_insert_step] run_step [OF _ step_delete]

theorem reachable_indexes_agree_witness:
  "case example_insert 1000 Deny (example_insert 1000 Allow (example_map, NoChanges)) of (ms, changes) \<Rightarrow>
    wf_trie LPMKey_ops 25 (ms_trie ms) \<and>
    (\<forall>k. mapState_get ms k \<noteq> None \<longleftrightarrow> Identity k \<in> ids_at (ms_trie ms) (key_LPMKey k))"
proof -
  let ?st = "example_insert 1000 Deny (example_insert 1000 Allow (example_map, NoChanges))"
  have "map_run precedenceFeatures (example_map, NoChanges) (fst ?st, snd ?st)"
    unfolding prod.collapse by (intro example_steps)
  from reachable_indexes_agree [OF this [unfolded example_map_def], folded example_map_def]
  show ?thesis by (simp add: split_beta)
qed

text \<open>
  C3.  For a policy without pass rules, reverting a round of changes restores every entry: after any
  sequence of insertions, deletions of keys and deletions of identities with a fresh record, starting
  from a map whose indexes agree with its entries, reverting the recorded changes gives back exactly the
  entries before the round, and the indexes agree with them.
\<close>

theorem revertChanges_restores:
  assumes "ms_inv ms" "\<not> features_contains features passRules"
    and "map_run features (ms, freshChanges) (ms', changes)"
  shows "mapState_get (revertChanges ms' changes) = mapState_get ms \<and> ms_inv (revertChanges ms' changes)"
proof -
  have "tracks (ents ms) (ms', changes)"
    using map_run_tracks [OF assms(3,2)] assms(1) tracks_start by simp
  moreover have "ms_inv ms'" using map_run_inv [OF assms(3)] assms(1) by simp
  moreover have "lpm_wf (key_LPMKey k)" if "ents ms k \<noteq> None" for k
    using ms_inv_wf [OF assms(1)] that by blast
  ultimately show ?thesis using revert_tracked by (simp add: mapState_get_def fun_eq_iff)
qed

definition example_end :: mstate where
  "example_end = deleteKeyWithChanges (Key_WithIdentity (Key_WithTCPPort IngressKey 80) 1000)
     (example_insert 1001 Deny (fst (example_insert 1000 Allow (example_map, NoChanges)), freshChanges))"

lemma example_round:
  "map_run precedenceFeatures (fst (example_insert 1000 Allow (example_map, NoChanges)), freshChanges)
     (fst example_end, snd example_end)"
  unfolding prod.collapse example_end_def by (intro example_steps)

lemma example_features: "\<not> features_contains precedenceFeatures passRules"
  by code_simp

lemma example_start: "ms_inv (fst (example_insert nid v (example_map, NoChanges)))"
  using map_step_inv [OF example_insert_step] newMapState_inv by (simp add: example_map_def)

theorem revertChanges_restores_witness:
  "mapState_get (revertChanges (fst example_end) (snd example_end)) =
    mapState_get (fst (example_insert 1000 Allow (example_map, NoChanges)))"
  using revertChanges_restores [OF example_start example_features example_round] by simp

text \<open>
  C4.  What the record of a round says about the entries, for a policy without pass rules and a map
  whose indexes agree with its entries: a key recorded as added has an entry, a key recorded as deleted
  had an entry before the round and has none after it, the old entries are the entries before the round,
  and a key that is neither recorded as added nor among the old entries is unchanged.  (A key among the
  old entries may have changed without being recorded as added or as deleted.)
\<close>

theorem recorded_changes_sound:
  assumes "ms_inv ms" "\<not> features_contains features passRules"
    and "map_run features (ms, freshChanges) (ms', changes)"
  shows "(Keys_Has (cs_Adds changes) k \<longrightarrow> mapState_get ms' k \<noteq> None) \<and>
    (Keys_Has (cs_Deletes changes) k \<longrightarrow> mapState_get ms k \<noteq> None \<and> mapState_get ms' k = None) \<and>
    (\<forall>old. cs_old changes = Some old \<longrightarrow> (\<forall>v. map_of old k = Some v \<longrightarrow> mapState_get ms k = Some v) \<and>
      (map_of old k = None \<and> \<not> Keys_Has (cs_Adds changes) k \<longrightarrow> mapState_get ms' k = mapState_get ms k))"
proof -
  have "tracks (ents ms) (ms', changes)"
    using map_run_tracks [OF assms(3,2)] assms(1) tracks_start by simp
  then obtain adds dels old where ch: "cs_Adds changes = Some adds" "cs_Deletes changes = Some dels" "cs_old changes = Some old"
    and t: "track1 (ents ms k) (ents ms' k) (map_of old k) (k \<in> set adds) (k \<in> set dels)"
    by (auto simp: tracks_def)
  show ?thesis
    using t by (auto simp: ch Keys_Has_def mapState_get_def track1_def split: option.splits if_splits)
qed

theorem recorded_changes_sound_witness:
  "let key = Key_WithIdentity (Key_WithTCPPort IngressKey 80) 1000
   in Keys_Has (cs_Deletes (snd example_end)) key \<and> mapState_get (fst example_end) key = None"
proof -
  have "Keys_Has (cs_Deletes (snd example_end)) (Key_WithIdentity (Key_WithTCPPort IngressKey 80) 1000)" by code_simp
  then show ?thesis
    using recorded_changes_sound [OF example_start example_features example_round,
        of "Key_WithIdentity (Key_WithTCPPort IngressKey 80) 1000"] by (simp add: Let_def)
qed

text \<open>
  C36.  A deletion can go unrecorded.  When a key that had an entry is added again with a different
  entry and then deleted in the same round, the entry is gone but the key is recorded neither as
  added nor as deleted, so a consumer of the record keeps its entry.
\<close>

theorem delete_after_add_unrecorded:
  assumes "mapState_get ms key = Some e" "\<not> mapStateEntry_Equal e' e"
  shows "case deleteKeyWithChanges key (snd (addKeyWithChanges ms key e' freshChanges)) of (ms', changes) \<Rightarrow>
    mapState_get ms' key = None \<and> \<not> Keys_Has (cs_Adds changes) key \<and> \<not> Keys_Has (cs_Deletes changes) key"
proof -
  obtain b ms1 ch1 where r: "addKeyWithChanges ms key e' freshChanges = (b, ms1, ch1)" by (metis prod.exhaust)
  have "ents ms1 key \<noteq> None" using addKey_ents [of ms key e' freshChanges] r by simp
  then obtain v where v: "ents ms1 key = Some v" by auto
  have io: "insertOldIfNotExists freshChanges key e = (True, freshChanges\<lparr>cs_old := Some [(key, e)]\<rparr>)"
    by (simp add: insertOldIfNotExists_def freshChanges_def Keys_Has_def)
  have "ch1 = freshChanges\<lparr>cs_old := Some [(key, e)]\<rparr> \<or> ch1 = recordAdd (freshChanges\<lparr>cs_old := Some [(key, e)]\<rparr>) key"
    using r assms by (auto simp: addKeyWithChanges_def io Let_def split_beta split: if_splits option.splits)
  then have "deleteKeyWithChanges key (ms1, ch1) =
      (mapState_delete ms1 key, \<lparr>cs_Adds = Some [], cs_Deletes = Some [], cs_old = Some [(key, e)]\<rparr>)"
    using v by (auto simp: deleteKeyWithChanges_def deleteExistingWithChanges_def insertOldIfNotExists_def mapState_get_def
        freshChanges_def recordAdd_def)
  then show ?thesis by (simp add: r mapState_get_def ents_simps Keys_Has_def)
qed

theorem delete_after_add_unrecorded_witness:
  "let key = Key_WithIdentity (Key_WithTCPPort IngressKey 80) 1000;
       ms = fst (example_insert 1000 Allow (example_map, NoChanges))
   in case deleteKeyWithChanges key (snd (addKeyWithChanges ms key
          (newMapStateEntry 10 0 LowestPriority NilRuleOrigin 0 0 Deny) freshChanges)) of (ms', changes) \<Rightarrow>
    mapState_get ms' key = None \<and> \<not> Keys_Has (cs_Adds changes) key \<and> \<not> Keys_Has (cs_Deletes changes) key"
proof -
  let ?k = "Key_WithIdentity (Key_WithTCPPort IngressKey 80) 1000"
  let ?ms = "fst (example_insert 1000 Allow (example_map, NoChanges))"
  have "mapState_get ?ms ?k = Some (newMapStateEntry 10 0 LowestPriority NilRuleOrigin 0 0 Allow)" by code_simp
  moreover have "\<not> mapStateEntry_Equal (newMapStateEntry 10 0 LowestPriority NilRuleOrigin 0 0 Deny)
      (newMapStateEntry 10 0 LowestPriority NilRuleOrigin 0 0 Allow)" by code_simp
  ultimately show ?thesis using delete_after_add_unrecorded by (simp add: Let_def)
qed

text \<open>
  C39.  With pass rules a round of changes is not recorded completely.  When an entry of the map keeps
  one of its pass verdicts, but a covering rule makes the pruning of narrower keys remove another of its
  passes or its allow or deny verdict, the entry is rewritten and nothing is recorded: reverting the
  record does not bring the entry back, and a verdict that is removed is not among the deleted keys.
\<close>

theorem pass_prune_unrecorded:
  assumes v: "mapState_get ms k = Some v"
    and kept: "pass \<in> set (Passes v)" "isDifferentTierOrHigherPrecedence pass precedence"
    and gone: "(\<exists>pass \<in> set (Passes v). \<not> isDifferentTierOrHigherPrecedence pass precedence) \<or>
      me_IsValid v \<and> me_Precedence v < precedence"
  shows "case pruneCoveredNarrowerKey (k, v) key entry precedence (ms, freshChanges) of (ms', changes) \<Rightarrow>
    changes = freshChanges \<and> mapState_get (revertChanges ms' changes) k \<noteq> mapState_get ms k \<and>
    (\<exists>v'. mapState_get ms' k = Some v' \<and> (me_Precedence v < precedence \<longrightarrow> \<not> me_IsValid v'))"
proof -
  let ?diff = "\<lambda>pass. isDifferentTierOrHigherPrecedence pass precedence"
  obtain ps where ps: "me_passes v = Some ps" "Passes v = ps"
    using kept(1) by (cases "me_passes v") (simp_all add: Passes_def)
  define dpass where "dpass \<longleftrightarrow> list_ex (\<lambda>pass. \<not> ?diff pass) ps"
  define dentry where "dentry \<longleftrightarrow> (\<not> me_IsValid v \<or> me_Precedence v < precedence \<or>
      me_IsDeny v \<and> me_Precedence v = precedence \<and> k \<noteq> key) \<or>
    key_LPMKey key = key_LPMKey k \<and> aggregates (Identity key) (Identity k) (ms_clusterInfo ms) \<and> equivalent v entry"
  define v1 where "v1 = (if dpass then v\<lparr>me_passes := Some (filter ?diff ps)\<rparr> else v)"
  define v' where "v' = (if dentry then v1\<lparr>me_entry := Invalidate (me_entry v1)\<rparr> else v1)"
  have "list_ex ?diff ps" using kept ps by (auto simp: list_ex_iff)
  moreover have some: "dpass \<or> dentry" using gone ps by (auto simp: dpass_def dentry_def list_ex_iff)
  ultimately have r: "pruneCoveredNarrowerKey (k, v) key entry precedence (ms, freshChanges) = (updateExisting ms k v', freshChanges)"
    unfolding pruneCoveredNarrowerKey_def prod.case Let_def ps dpass_def [symmetric] dentry_def [symmetric]
    by (simp add: v'_def v1_def ps passMetas_Delete_def)
  have invalid: "\<not> me_IsValid v'" if "me_Precedence v < precedence"
    using that by (simp add: v'_def dentry_def Invalidate_def IsValid_def)
  have "v' \<noteq> v"
  proof (cases dpass)
    case True
    then obtain p where "p \<in> set ps" "\<not> ?diff p" by (auto simp: dpass_def list_ex_iff)
    then have "filter ?diff ps \<noteq> ps" by (metis filter_id_conv)
    then have "me_passes v' \<noteq> me_passes v" using True by (simp add: v'_def v1_def ps)
    then show ?thesis by blast
  next
    case False
    then have "me_IsValid v" "me_Precedence v < precedence" using gone ps by (auto simp: dpass_def list_ex_iff)
    then show ?thesis using invalid by blast
  qed
  then show ?thesis
    unfolding r prod.case using invalid v by (simp add: ents_simps mapState_get_def revertChanges_def freshChanges_def)
qed

text \<open>
  A map with passes of two tiers and an allow rule of the third tier on one key, and the round that
  inserts a broader deny rule of the first tier.
\<close>

definition passFeatures :: policyFeatures where
  "passFeatures = precedenceFeatures OR passRules"

definition tier_insert :: "Priority \<Rightarrow> Priority \<Rightarrow> Priority \<Rightarrow> Key \<Rightarrow> Verdict \<Rightarrow> mstate \<Rightarrow> mstate" where
  "tier_insert prio tier nextTier k v =
     insertWithChanges (ToDenyPrecedence tier) k (newMapStateEntry prio tier nextTier NilRuleOrigin 0 0 v) passFeatures"

definition example_passes :: mapState where
  "example_passes =
     (let k = Key_WithIdentity (Key_WithTCPPort IngressKey 80) 1000 in
      fst (tier_insert 310 300 LowestPriority k Allow (tier_insert 210 200 300 k Pass (tier_insert 110 100 200 k Pass
        (newMapState \<lparr>mss_entries = 0, mss_byId = []\<rparr> passFeatures \<lparr>ci_ID = 0, ci_MaxConnectedClusters = 255\<rparr>, NoChanges)))))"

definition example_deny :: mstate where
  "example_deny = tier_insert 105 100 200 (Key_WithIdentity IngressKey 1000) Deny (example_passes, freshChanges)"

definition example_passed :: mapStateEntry where
  "example_passed =
     \<lparr>me_entry = \<lparr>mse_Precedence = 0xffff7b01, mse_ProxyPort = 0, mse_invalid = False, mse_Cookie = 0\<rparr>,
      me_passes = Some [\<lparr>pm_precedence = 4294913280, pm_tierMaxPrecedence = 4294916095, pm_tierMinPrecedence = 4294890496\<rparr>,
        \<lparr>pm_precedence = 4294938880, pm_tierMaxPrecedence = 4294941695, pm_tierMinPrecedence = 4294916096\<rparr>],
      me_derivedFromRules = NilRuleOrigin\<rparr>"

theorem pass_prune_unrecorded_witness:
  "let k = Key_WithIdentity (Key_WithTCPPort IngressKey 80) 1000;
       entry = newMapStateEntry 105 100 200 NilRuleOrigin 0 0 Deny
   in mapState_get example_passes k = Some example_passed \<and>
     (case pruneCoveredNarrowerKey (k, example_passed) (Key_WithIdentity IngressKey 1000) entry (me_Precedence entry)
         (example_passes, freshChanges) of (ms', changes) \<Rightarrow>
      mapState_get (revertChanges ms' changes) k \<noteq> Some example_passed) \<and>
     mapState_get (revertChanges (fst example_deny) (snd example_deny)) k \<noteq> Some example_passed \<and>
     \<not> Keys_Has (cs_Deletes (snd example_deny)) k"
proof -
  let ?k = "Key_WithIdentity (Key_WithTCPPort IngressKey 80) 1000"
  let ?d = "newMapStateEntry 105 100 200 NilRuleOrigin 0 0 Deny"
  have v: "mapState_get example_passes ?k = Some example_passed" by code_simp
  have p: "Passes example_passed ! 0 \<in> set (Passes example_passed)"
    "isDifferentTierOrHigherPrecedence (Passes example_passed ! 0) (me_Precedence ?d)"
    "me_IsValid example_passed \<and> me_Precedence example_passed < me_Precedence ?d"
    by code_simp+
  have "mapState_get (revertChanges (fst example_deny) (snd example_deny)) ?k \<noteq> Some example_passed"
    "\<not> Keys_Has (cs_Deletes (snd example_deny)) ?k"
    by code_simp+
  moreover obtain ms' changes where r: "pruneCoveredNarrowerKey (?k, example_passed) (Key_WithIdentity IngressKey 1000) ?d (me_Precedence ?d)
      (example_passes, freshChanges) = (ms', changes)"
    by (rule prod.exhaust)
  moreover have "mapState_get (revertChanges ms' changes) ?k \<noteq> Some example_passed"
    using pass_prune_unrecorded [OF v p(1,2) disjI2 [OF p(3)], of "Key_WithIdentity IngressKey 1000" ?d, unfolded r prod.case v]
    by blast
  ultimately show ?thesis using v by (simp only: Let_def prod.case simp_thms)
qed

end
