(* ===== verification/ProxyID.thy ===== *)
theory ProxyID
  imports GoStrings
begin

text \<open>
  The identifiers of proxy redirects (\<^verbatim>\<open>pkg/policy/proxyid.go\<close>): printing, parsing and the
  round trip between them.
\<close>

section \<open>Proxy identifiers\<close>

definition direction_name :: "bool \<Rightarrow> string" where
  "direction_name ingress = (if ingress then ''ingress'' else ''egress'')"

definition ProxyStatsKey :: "bool \<Rightarrow> string \<Rightarrow> u16 \<Rightarrow> u16 \<Rightarrow> string" where
  "ProxyStatsKey ingress protocol port proxyPort =
     direction_name ingress @ '':'' @ protocol @ '':'' @ FormatUint (unat port) @ '':'' @ FormatUint (unat proxyPort)"

definition ProxyID :: "u16 \<Rightarrow> bool \<Rightarrow> string \<Rightarrow> u16 \<Rightarrow> string \<Rightarrow> string" where
  "ProxyID endpointID ingress protocol port listener =
     FormatUint (unat endpointID) @ '':'' @ direction_name ingress @ '':'' @ protocol @ '':'' @
     FormatUint (unat port) @ '':'' @ listener"

text \<open>Parsing; an error of any kind is \<^verbatim>\<open>None\<close>.\<close>

definition ParseProxyID :: "string \<Rightarrow> (u16 \<times> bool \<times> string \<times> u16 \<times> string) option" where
  "ParseProxyID proxyID =
     (let comps = Split proxyID (CHR '':'') in
      if length comps \<noteq> 5 then None
      else case ParseUint (comps ! 0) 16 of
        None \<Rightarrow> None
      | Some epID \<Rightarrow>
          (case ParseUint (comps ! 3) 16 of
             None \<Rightarrow> None
           | Some l4port \<Rightarrow>
               Some (of_nat epID, comps ! 1 = ''ingress'', comps ! 2, of_nat l4port, comps ! 4)))"

lemma direction_no_colon: "CHR '':'' \<notin> set (direction_name ingress)"
  by (simp add: direction_name_def)

section \<open>Properties\<close>

text \<open>
  C37.  A proxy identifier can be parsed back exactly if neither the protocol nor the listener
  contains a colon: then parsing gives the components it was made of, and otherwise it fails.
\<close>

theorem ProxyID_roundtrip:
  "ParseProxyID (ProxyID endpointID ingress protocol port listener) =
    (if CHR '':'' \<in> set protocol \<or> CHR '':'' \<in> set listener then None
     else Some (endpointID, ingress, protocol, port, listener))"
proof -
  let ?id = "ProxyID endpointID ingress protocol port listener"
  have parts: "Split ?id (CHR '':'') = FormatUint (unat endpointID) # direction_name ingress #
      Split (protocol @ CHR '':'' # FormatUint (unat port) @ CHR '':'' # listener) (CHR '':'')"
    using Split_append_sep [OF FormatUint_no_colon] Split_append_sep [OF direction_no_colon] by (simp add: ProxyID_def)
  show ?thesis
  proof (cases "CHR '':'' \<in> set protocol \<or> CHR '':'' \<in> set listener")
    case True
    then have "0 < count_list protocol (CHR '':'') + count_list listener (CHR '':'')"
      by (metis add_is_0 count_list_0_iff gr0I)
    then have "length (Split ?id (CHR '':'')) \<noteq> 5" by (auto simp: parts Split_length)
    then show ?thesis using True by (simp add: ParseProxyID_def)
  next
    case False
    then have "Split ?id (CHR '':'') =
        [FormatUint (unat endpointID), direction_name ingress, protocol, FormatUint (unat port), listener]"
      using Split_append_sep [OF FormatUint_no_colon] Split_no_sep by (simp add: parts Split_append_sep)
    then show ?thesis using False by (simp add: ParseProxyID_def ParseUint_Format direction_name_def)
  qed
qed

end
