(* ===== verification/EndpointPolicy.thy ===== *)
theory EndpointPolicy
  imports MapStateChanges ProxyID "HOL-Library.Multiset"
begin

text \<open>
  Incremental updates of an endpoint's policy: the accumulated changes
  (\<^verbatim>\<open>MapChanges\<close> of \<^verbatim>\<open>pkg/policy/mapstate.go\<close>), the selector snapshots
  (\<^verbatim>\<open>pkg/policy/types/selector.go\<close>) and the endpoint policy that consumes the changes
  (\<^verbatim>\<open>pkg/policy/resolve.go\<close>).
\<close>

section \<open>Selector snapshots\<close>

type_synonym SelectorId = u64
type_synonym SelectorRevision = u64

text \<open>The persistent map of selections is a map; its zero value is the empty map.\<close>

record SelectorSnapshot =
  ss_Revision :: SelectorRevision
  ss_selections :: "SelectorId \<rightharpoonup> NumericIdentity list"
  ss_valid :: bool

definition GetSelectorSnapshot :: "(SelectorId \<rightharpoonup> NumericIdentity list) \<Rightarrow> SelectorRevision \<Rightarrow> SelectorSnapshot" where
  "GetSelectorSnapshot selections r = \<lparr>ss_Revision = r, ss_selections = selections, ss_valid = True\<rparr>"

definition SelectorSnapshot_Get :: "SelectorSnapshot \<Rightarrow> SelectorId \<Rightarrow> NumericIdentity list option" where
  "SelectorSnapshot_Get s sid = (case ss_selections s sid of None \<Rightarrow> None | Some v \<Rightarrow> if v = [] then None else Some v)"

definition SelectorSnapshot_Invalidate :: "SelectorSnapshot \<Rightarrow> SelectorSnapshot" where
  "SelectorSnapshot_Invalidate s = s\<lparr>ss_selections := Map.empty, ss_valid := False\<rparr>"

definition SelectorSnapshot_After :: "SelectorSnapshot \<Rightarrow> SelectorRevision \<Rightarrow> bool" where
  "SelectorSnapshot_After s r \<longleftrightarrow> ss_Revision s > r"

definition SelectorSnapshot_IsValid :: "SelectorSnapshot \<Rightarrow> bool" where
  "SelectorSnapshot_IsValid s \<longleftrightarrow> ss_valid s"

section \<open>Accumulated changes\<close>

record mapChange =
  mc_Add :: bool
  mc_Tier :: Tier
  mc_TierMaxPrecedence :: Precedence
  mc_Key :: Key
  mc_Value :: mapStateEntry

record MapChanges =
  mc_firstRev :: SelectorRevision
  mc_changes :: "mapChange list"
  mc_synced :: "mapChange list"
  mc_selectors :: SelectorSnapshot

text \<open>The zero value of an entry, which a delete by identity carries.\<close>

definition zeroEntry :: mapStateEntry where
  "zeroEntry =
     \<lparr>me_entry = \<lparr>mse_Precedence = 0, mse_ProxyPort = 0, mse_invalid = False, mse_Cookie = 0\<rparr>,
      me_passes = None, me_derivedFromRules = None\<rparr>"

definition AccumulateMapDeletesByID :: "Tier \<Rightarrow> Priority \<Rightarrow> NumericIdentity list \<Rightarrow> MapChanges \<Rightarrow> MapChanges" where
  "AccumulateMapDeletesByID tier basePriority deletes mc =
     (let tierMaxPrecedence = ToDenyPrecedence basePriority in
      mc\<lparr>mc_changes := mc_changes mc @
        map (\<lambda>nid. \<lparr>mc_Add = False, mc_Tier = tier, mc_TierMaxPrecedence = tierMaxPrecedence,
                    mc_Key = mkKey \<lparr>lpm_bits = 0, Nexthdr = 0, DestPort = 0\<rparr> nid, mc_Value = zeroEntry\<rparr>) deletes\<rparr>)"

definition AccumulateMapChanges ::
  "Tier \<Rightarrow> Priority \<Rightarrow> NumericIdentity list \<Rightarrow> NumericIdentity list \<Rightarrow> Key \<Rightarrow> mapStateEntry \<Rightarrow> MapChanges \<Rightarrow> MapChanges"
where
  "AccumulateMapChanges tier basePriority adds deletes k value mc =
     (let tierMaxPrecedence = ToDenyPrecedence basePriority;
          change = (\<lambda>add nid. \<lparr>mc_Add = add, mc_Tier = tier, mc_TierMaxPrecedence = tierMaxPrecedence,
                               mc_Key = Key_WithIdentity k nid, mc_Value = value\<rparr>)
      in mc\<lparr>mc_changes := mc_changes mc @ map (change True) adds @ map (change False) deletes\<rparr>)"

definition SyncMapChanges :: "SelectorSnapshot \<Rightarrow> MapChanges \<Rightarrow> MapChanges" where
  "SyncMapChanges selectors mc =
     (let mc = (if mc_changes mc \<noteq> [] then
                  if SelectorSnapshot_After selectors (mc_firstRev mc)
                  then mc\<lparr>mc_synced := mc_synced mc @ mc_changes mc, mc_selectors := selectors\<rparr>
                  else mc
                else mc)
      in mc\<lparr>mc_changes := []\<rparr>)"

definition MapChanges_detach :: "MapChanges \<Rightarrow> MapChanges" where
  "MapChanges_detach mc = mc\<lparr>mc_selectors := SelectorSnapshot_Invalidate (mc_selectors mc)\<rparr>"

text \<open>The difference of the tiers is taken in eight bits before the conversion.\<close>

definition tierCompare :: "mapChange \<Rightarrow> mapChange \<Rightarrow> int" where
  "tierCompare a b = uint (mc_Tier a - mc_Tier b)"

definition consumeChange :: "policyFeatures \<Rightarrow> mapChange \<Rightarrow> mstate \<Rightarrow> mstate" where
  "consumeChange features c st =
     (if mc_Add c then insertWithChanges (mc_TierMaxPrecedence c) (mc_Key c) (mc_Value c) features st
      else if ms_byId (fst st) \<noteq> None then deleteIdWithChanges (Identity (mc_Key c)) st
      else deleteKeyWithChanges (mc_Key c) st)"

text \<open>
  The sort of the changes, \<^verbatim>\<open>slices.SortFunc\<close>, is an argument: its order is unspecified for a
  comparison that is not a strict weak ordering, and \<^verbatim>\<open>tierCompare\<close> is none (see below).  All that is
  used of it is that it permutes the slice.
\<close>

type_synonym sortFunc = "(mapChange \<Rightarrow> mapChange \<Rightarrow> int) \<Rightarrow> mapChange list \<Rightarrow> mapChange list"

definition consumeMapChanges ::
  "sortFunc \<Rightarrow> policyFeatures \<Rightarrow> MapChanges \<Rightarrow> mapState \<Rightarrow> SelectorSnapshot \<times> MapChanges \<times> mstate"
where
  "consumeMapChanges sortFunc features mc ms =
     (let changes = \<lparr>cs_Adds = Some [], cs_Deletes = Some [], cs_old = Some []\<rparr>;
          synced = sortFunc tierCompare (mc_synced mc);
          st = fold (consumeChange features) synced (ms, changes);
          version = mc_selectors mc
      in (version,
          mc\<lparr>mc_synced := [], mc_selectors := SelectorSnapshot_Invalidate (mc_selectors mc)\<rparr>, st))"

section \<open>Endpoint policies\<close>

record EndpointPolicy =
  ep_selectors :: SelectorSnapshot
  ep_policyMapState :: mapState
  ep_policyMapChanges :: MapChanges
  ep_Redirects :: "(string \<times> u16) list"

definition FallbackRedirectID :: string where "FallbackRedirectID = ''fallback''"

text \<open>The proxy port of a redirect; the ID of the policy owner is an argument, the error is \<^verbatim>\<open>None\<close>.\<close>

definition LookupRedirectPort :: "u64 \<Rightarrow> EndpointPolicy \<Rightarrow> bool \<Rightarrow> string \<Rightarrow> u16 \<Rightarrow> string \<Rightarrow> u16 option" where
  "LookupRedirectPort ownerID p ingress protocol port listener =
     (let proxyID = ProxyID (ucast ownerID) ingress protocol port listener in
      case map_of (ep_Redirects p) proxyID of
        Some proxyPort \<Rightarrow> Some proxyPort
      | None \<Rightarrow>
          (case map_of (ep_Redirects p) FallbackRedirectID of
             Some proxyPort \<Rightarrow> if length (ep_Redirects p) = 1 then Some proxyPort else None
           | None \<Rightarrow> None))"

definition EndpointPolicy_Lookup :: "EndpointPolicy \<Rightarrow> Key \<Rightarrow> MapStateEntry \<times> RuleMeta \<times> bool" where
  "EndpointPolicy_Lookup p key =
     (let (entry, found) = mapState_lookup (ep_policyMapState p) key
      in (me_entry entry, ruleOrigin_Value (me_derivedFromRules entry), found))"

text \<open>The missing key is \<^verbatim>\<open>None\<close>.\<close>

definition GetRuleMeta :: "EndpointPolicy \<Rightarrow> Key \<Rightarrow> RuleMeta option" where
  "GetRuleMeta p k =
     (case mapState_get (ep_policyMapState p) k of
        None \<Rightarrow> None
      | Some entry \<Rightarrow> Some (ruleOrigin_Value (me_derivedFromRules entry)))"

text \<open>\<^verbatim>\<open>Ready\<close> fails on a stale snapshot and otherwise releases it.\<close>

definition Ready :: "EndpointPolicy \<Rightarrow> EndpointPolicy option" where
  "Ready p =
     (if \<not> SelectorSnapshot_IsValid (ep_selectors p) then None
      else Some (p\<lparr>ep_selectors := SelectorSnapshot_Invalidate (ep_selectors p)\<rparr>))"

definition EndpointPolicy_RevertChanges :: "ChangeState \<Rightarrow> EndpointPolicy \<Rightarrow> EndpointPolicy" where
  "EndpointPolicy_RevertChanges changes p = p\<lparr>ep_policyMapState := revertChanges (ep_policyMapState p) changes\<rparr>"

text \<open>
  Consuming the changes.  The sort, the snapshot of the selector cache and the features of the policy are
  arguments; the result says whether the closer releases the snapshot.
\<close>

definition ConsumeMapChanges :: "sortFunc \<Rightarrow> SelectorSnapshot \<Rightarrow> policyFeatures \<Rightarrow> policyFeatures \<Rightarrow> EndpointPolicy \<Rightarrow>
    bool \<times> ChangeState \<times> EndpointPolicy"
where
  "ConsumeMapChanges sortFunc current ingressFeatures egressFeatures p =
     (let features = ingressFeatures OR egressFeatures;
          (selectors, mc, ms, changes) = consumeMapChanges sortFunc features (ep_policyMapChanges p) (ep_policyMapState p);
          p = p\<lparr>ep_policyMapChanges := mc, ep_policyMapState := ms\<rparr>;
          selectors = (if \<not> SelectorSnapshot_IsValid selectors \<and> \<not> SelectorSnapshot_IsValid (ep_selectors p)
                       then current else selectors)
      in if SelectorSnapshot_IsValid selectors
         then (\<not> SelectorSnapshot_IsValid (ep_selectors p), changes, p\<lparr>ep_selectors := selectors\<rparr>)
         else (False, changes, p))"

text \<open>The closer: it calls \<^verbatim>\<open>Ready\<close> and drops the error.\<close>

definition runCloser :: "bool \<Rightarrow> EndpointPolicy \<Rightarrow> EndpointPolicy" where
  "runCloser closes p = (if closes then (case Ready p of None \<Rightarrow> p | Some p' \<Rightarrow> p') else p)"

section \<open>Differences to a realized policy\<close>

definition Updated :: "mapState \<Rightarrow> mapState \<Rightarrow> (Key \<times> MapStateEntry) list" where
  "Updated p realized =
     filter (\<lambda>(key, entry). case mapState_Get realized key of None \<Rightarrow> True | Some oldEntry \<Rightarrow> oldEntry \<noteq> entry)
       (map (\<lambda>(k, v). (k, me_entry v)) (ms_entries p))"

definition Missing :: "mapState \<Rightarrow> mapState \<Rightarrow> (Key \<times> MapStateEntry) list" where
  "Missing p realized =
     filter (\<lambda>(key, entry). mapState_Get p key = None) (map (\<lambda>(k, v). (k, me_entry v)) (ms_entries realized))"

definition UpdatedMap :: "mapState \<Rightarrow> (Key \<times> MapStateEntry) list \<Rightarrow> (Key \<times> MapStateEntry) list" where
  "UpdatedMap p realized =
     filter (\<lambda>(key, entry). case map_of realized key of None \<Rightarrow> True | Some oldEntry \<Rightarrow> oldEntry \<noteq> entry)
       (map (\<lambda>(k, v). (k, me_entry v)) (ms_entries p))"

definition MissingMap :: "mapState \<Rightarrow> (Key \<times> MapStateEntry) list \<Rightarrow> (Key \<times> MapStateEntry) list" where
  "MissingMap p realized = filter (\<lambda>(key, entry). mapState_Get p key = None) realized"

section \<open>Correctness\<close>

text \<open>
  The comparison of the changes is never negative, and of two changes of different tiers each compares
  as greater than the other: it does not order the changes by tier.
\<close>

lemma tierCompare_conflict: "mc_Tier a \<noteq> mc_Tier b \<Longrightarrow> tierCompare a b > 0 \<and> tierCompare b a > 0"
proof -
  assume "mc_Tier a \<noteq> mc_Tier b"
  then have "mc_Tier a - mc_Tier b \<noteq> 0" "mc_Tier b - mc_Tier a \<noteq> 0" by simp_all
  then show ?thesis by (simp add: tierCompare_def uint_0_iff order.not_eq_order_implies_strict [OF not_sym])
qed

text \<open>The insertion sort that \<^verbatim>\<open>slices.SortFunc\<close> uses for short slices; the sorted part is kept in reverse.\<close>

fun insertLeft :: "('a \<Rightarrow> 'a \<Rightarrow> int) \<Rightarrow> 'a \<Rightarrow> 'a list \<Rightarrow> 'a list" where
  "insertLeft cmp x [] = [x]"
| "insertLeft cmp x (y # ys) = (if cmp x y < 0 then y # insertLeft cmp x ys else x # y # ys)"

definition insertionSort :: "('a \<Rightarrow> 'a \<Rightarrow> int) \<Rightarrow> 'a list \<Rightarrow> 'a list" where
  "insertionSort cmp xs = rev (fold (insertLeft cmp) xs [])"

lemma insertionSort_permutes: "mset (insertionSort cmp xs) = mset xs"
proof -
  have "mset (insertLeft cmp x ys) = add_mset x (mset ys)" for x ys by (induction ys) simp_all
  then have "mset (fold (insertLeft cmp) xs acc) = mset xs + mset acc" for acc by (induction xs arbitrary: acc) simp_all
  then show ?thesis by (simp add: insertionSort_def)
qed

lemma consumeChange_step: "lpm_wf (key_LPMKey (mc_Key c)) \<Longrightarrow> map_step features st (consumeChange features c st)"
  by (auto simp: consumeChange_def intro: map_step.intros)

lemma consume_run:
  assumes "\<forall>c \<in> set cs. lpm_wf (key_LPMKey (mc_Key c))"
  shows "map_run features st (fold (consumeChange features) cs st)"
  using assms
proof (induction cs rule: rev_induct)
  case (snoc c cs)
  then show ?case by (simp add: run_step [OF _ consumeChange_step])
qed (simp add: run_start)

lemma consumeMapChanges_run:
  assumes "\<forall>c \<in> set (mc_synced mc). lpm_wf (key_LPMKey (mc_Key c))"
    and "mset (sortFunc tierCompare (mc_synced mc)) = mset (mc_synced mc)"
  shows "map_run features (ms, freshChanges) (snd (snd (consumeMapChanges sortFunc features mc ms)))"
proof -
  have "\<forall>c \<in> set (sortFunc tierCompare (mc_synced mc)). lpm_wf (key_LPMKey (mc_Key c))"
    using assms(1) mset_eq_setD [OF assms(2)] by simp
  from consume_run [OF this, of features "(ms, freshChanges)"] show ?thesis
    by (simp add: consumeMapChanges_def Let_def freshChanges_def)
qed

lemma ConsumeMapChanges_parts:
  "fst (snd (ConsumeMapChanges sortFunc current fi fe p)) =
     snd (snd (snd (consumeMapChanges sortFunc (fi OR fe) (ep_policyMapChanges p) (ep_policyMapState p))))"
  "ep_policyMapState (snd (snd (ConsumeMapChanges sortFunc current fi fe p))) =
     fst (snd (snd (consumeMapChanges sortFunc (fi OR fe) (ep_policyMapChanges p) (ep_policyMapState p))))"
  by (simp_all add: ConsumeMapChanges_def Let_def split_beta)

section \<open>Properties\<close>

text \<open>
  C5.  For a policy without pass rules: consuming the pending changes of an endpoint policy, in whatever
  order the sort puts them, and then reverting the returned changes leaves every policy map entry as it
  was, and the indexes of the map agree with the entries again.  The indexes agree before, the changes
  have well-formed keys, and the sort permutes them.
\<close>

theorem consume_then_revert:
  assumes "ms_inv (ep_policyMapState p)" "\<not> features_contains (fi OR fe) passRules"
    and "\<forall>c \<in> set (mc_synced (ep_policyMapChanges p)). lpm_wf (key_LPMKey (mc_Key c))"
    and "\<forall>cs. mset (sortFunc tierCompare cs) = mset cs"
  shows "case ConsumeMapChanges sortFunc current fi fe p of (closes, changes, p') \<Rightarrow>
    mapState_get (ep_policyMapState (EndpointPolicy_RevertChanges changes p')) = mapState_get (ep_policyMapState p) \<and>
    ms_inv (ep_policyMapState (EndpointPolicy_RevertChanges changes p'))"
proof -
  let ?c = "consumeMapChanges sortFunc (fi OR fe) (ep_policyMapChanges p) (ep_policyMapState p)"
  have run: "map_run (fi OR fe) (ep_policyMapState p, freshChanges) (fst (snd (snd ?c)), snd (snd (snd ?c)))"
    using consumeMapChanges_run [OF assms(3)] assms(4) by simp
  have t: "tracks (ents (ep_policyMapState p)) (fst (snd (snd ?c)), snd (snd (snd ?c)))"
    using map_run_tracks [OF run assms(2)] assms(1) tracks_start by simp
  have inv: "ms_inv (fst (snd (snd ?c)))" using map_run_inv [OF run] assms(1) by simp
  have wf: "lpm_wf (key_LPMKey k)" if "ents (ep_policyMapState p) k \<noteq> None" for k
    using ms_inv_wf [OF assms(1)] that by blast
  show ?thesis
    using revert_tracked [OF t inv wf]
    by (simp add: split_beta EndpointPolicy_RevertChanges_def ConsumeMapChanges_parts mapState_get_def fun_eq_iff)
qed

definition example_policy :: EndpointPolicy where
  "example_policy =
     (let snapshot = GetSelectorSnapshot Map.empty 1;
          key = Key_WithTCPPort IngressKey 80;
          entry = newMapStateEntry 10 0 LowestPriority NilRuleOrigin 0 0 Deny;
          mc = \<lparr>mc_firstRev = 0, mc_changes = [], mc_synced = [], mc_selectors = snapshot\<rparr>
      in \<lparr>ep_selectors = snapshot,
          ep_policyMapState = fst (example_insert 1000 Allow (example_map, NoChanges)),
          ep_policyMapChanges = SyncMapChanges (GetSelectorSnapshot Map.empty 2)
            (AccumulateMapChanges 200 0 [1001] [1000] key entry mc),
          ep_Redirects = []\<rparr>)"

theorem consume_then_revert_witness:
  "case ConsumeMapChanges insertionSort (GetSelectorSnapshot Map.empty 3) precedenceFeatures 0 example_policy of (closes, changes, p') \<Rightarrow>
    mapState_get (ep_policyMapState (EndpointPolicy_RevertChanges changes p')) =
      mapState_get (ep_policyMapState example_policy)"
proof -
  have "ms_inv (ep_policyMapState example_policy)" using example_start by (simp add: example_policy_def Let_def)
  moreover have "\<not> features_contains (precedenceFeatures OR 0) passRules" by code_simp
  moreover have "\<forall>c \<in> set (mc_synced (ep_policyMapChanges example_policy)). lpm_wf (key_LPMKey (mc_Key c))" by code_simp
  ultimately show ?thesis
    using consume_then_revert [of example_policy precedenceFeatures 0 insertionSort "GetSelectorSnapshot Map.empty 3"]
    by (simp add: split_beta insertionSort_permutes)
qed

text \<open>
  C38.  Selector snapshots are not leaked and not lost.  If the selector cache has a valid snapshot,
  the policy has one after it consumed its changes; once the returned closer has run, the policy
  holds a valid snapshot exactly if it held one before.  The pending changes never keep one.
\<close>

theorem consume_snapshot_validity:
  "case ConsumeMapChanges sortFunc current fi fe p of (closes, changes, p') \<Rightarrow>
    (SelectorSnapshot_IsValid current \<longrightarrow> SelectorSnapshot_IsValid (ep_selectors p')) \<and>
    (SelectorSnapshot_IsValid (ep_selectors (runCloser closes p')) \<longleftrightarrow> SelectorSnapshot_IsValid (ep_selectors p)) \<and>
    \<not> SelectorSnapshot_IsValid (mc_selectors (ep_policyMapChanges p'))"
  by (simp add: ConsumeMapChanges_def Let_def split_beta runCloser_def Ready_def SelectorSnapshot_IsValid_def
      SelectorSnapshot_Invalidate_def consumeMapChanges_def)

theorem consume_snapshot_validity_witness:
  "SelectorSnapshot_IsValid (GetSelectorSnapshot Map.empty 3) \<and>
   SelectorSnapshot_IsValid (ep_selectors (snd (snd (ConsumeMapChanges insertionSort (GetSelectorSnapshot Map.empty 3) 0 0 example_policy))))"
  using consume_snapshot_validity [where sortFunc = insertionSort and current = "GetSelectorSnapshot Map.empty 3" and fi = 0 and fe = 0 and p = example_policy]
  by (simp add: split_beta GetSelectorSnapshot_def SelectorSnapshot_IsValid_def)

lemma map_of_entries: "map_of (map (\<lambda>(k, v). (k, me_entry v)) kvs) k = map_option me_entry (map_of kvs k)"
  by (induction kvs) auto

lemma map_of_filter_key:
  assumes "distinct (map fst xs)"
  shows "map_of (filter P xs) k = (case map_of xs k of None \<Rightarrow> None | Some v \<Rightarrow> if P (k, v) then Some v else None)"
  using assms by (induction xs) (auto simp: map_of_eq_None_iff split: option.split dest: map_of_SomeD)

text \<open>
  C6.  The difference between a desired and a realized policy is exact: deleting the missing keys
  from the realized entries and writing the updated ones gives exactly the desired entries.
\<close>

theorem Updated_Missing_sync:
  assumes "ms_inv p" "ms_inv realized"
  shows "(\<lambda>k. if k \<in> fst ` set (Missing p realized) then None else mapState_Get realized k) ++ map_of (Updated p realized) =
    mapState_Get p"
proof
  fix k
  have d: "distinct (map fst (map (\<lambda>(k, v). (k, me_entry v)) (ms_entries ms)))" if "ms_inv ms" for ms
    using that by (simp add: ms_inv_def comp_def split_beta)
  have "k \<in> fst ` set (Missing p realized) \<longleftrightarrow> map_of (Missing p realized) k \<noteq> None"
    by (metis map_of_eq_None_iff)
  then show "((\<lambda>k. if k \<in> fst ` set (Missing p realized) then None else mapState_Get realized k) ++ map_of (Updated p realized)) k =
      mapState_Get p k"
    by (auto simp: map_add_def Updated_def Missing_def map_of_filter_key [OF d] assms map_of_entries mapState_Get_def
        mapState_get_def split: option.split)
qed

theorem Updated_Missing_sync_witness:
  "let p = fst (example_insert 1000 Allow (example_map, NoChanges)); realized = fst (example_insert 1001 Deny (example_map, NoChanges))
   in (\<lambda>k. if k \<in> fst ` set (Missing p realized) then None else mapState_Get realized k) ++ map_of (Updated p realized) =
    mapState_Get p"
  using Updated_Missing_sync [OF example_start example_start] by (simp add: Let_def)

end
