(* ===== verification/IdPool.thy ===== *)
theory IdPool
  imports Prelude "HOL-Library.Multiset"
begin

text \<open>
  The pool of numeric IDs (\<^verbatim>\<open>pkg/idpool/idpool.go\<close>): its operations, the life cycle of an
  ID that the pool documents as a transition table, and what a lease promises over any sequence of
  operations.
\<close>

section \<open>The cache of IDs\<close>

type_synonym ID = u64

definition NoID :: ID where "NoID = 0"

text \<open>
  The two sets of the cache are lists without duplicates.  The order of a list is the order in which
  Go iterates over the map, which is arbitrary.
\<close>

record idCache =
  ic_ids :: "ID list"
  ic_leased :: "ID list"

lemma unat_inc: "a < b \<Longrightarrow> unat (a + 1) = unat a + 1" for a b :: "'a::len word"
proof -
  assume "a < b"
  have "unat b < 2 ^ LENGTH('a)" by (rule unsigned_less)
  moreover have "unat a < unat b" using \<open>a < b\<close> by (simp add: word_less_nat_alt)
  ultimately have "unat a + 1 < 2 ^ LENGTH('a)" by linarith
  then show ?thesis by (simp add: unat_word_ariths)
qed

text \<open>The loop over the IDs below a bound.  The bound is computed with wrap-around.\<close>

function idRange :: "ID \<Rightarrow> ID \<Rightarrow> ID list" where
  "idRange id' bound = (if id' < bound then id' # idRange (id' + 1) bound else [])"
  by pat_completeness auto
termination
proof (relation "measure (\<lambda>(i, b). unat b - unat i)")
  fix i b :: ID
  assume "i < b"
  then have "unat (i + 1) = unat i + 1" by (rule unat_inc)
  with \<open>i < b\<close> show "((i + 1, b), i, b) \<in> measure (\<lambda>(i, b). unat b - unat i)"
    by (simp add: word_less_nat_alt)
qed simp

declare idRange.simps [simp del]

definition newIDCache :: "ID \<Rightarrow> ID \<Rightarrow> idCache" where
  "newIDCache minID maxID = \<lparr>ic_ids = idRange minID (maxID + 1), ic_leased = []\<rparr>"

definition idCache_allocateID :: "idCache \<Rightarrow> ID \<times> idCache" where
  "idCache_allocateID c = (case ic_ids c of [] \<Rightarrow> (NoID, c) | i # rest \<Rightarrow> (i, c\<lparr>ic_ids := rest\<rparr>))"

definition idCache_leaseAvailableID :: "idCache \<Rightarrow> ID \<times> idCache" where
  "idCache_leaseAvailableID c =
     (let (i, c) = idCache_allocateID c in
      if i = NoID then (NoID, c) else (i, c\<lparr>ic_leased := List.insert i (ic_leased c)\<rparr>))"

definition idCache_insert :: "ID \<Rightarrow> idCache \<Rightarrow> bool \<times> idCache" where
  "idCache_insert i c =
     (if i \<in> set (ic_ids c) then (False, c)
      else if i \<in> set (ic_leased c) then (False, c)
      else (True, c\<lparr>ic_ids := List.insert i (ic_ids c)\<rparr>))"

definition idCache_release :: "ID \<Rightarrow> idCache \<Rightarrow> bool \<times> idCache" where
  "idCache_release i c =
     (if i \<notin> set (ic_leased c) then (False, c)
      else (True, snd (idCache_insert i (c\<lparr>ic_leased := removeAll i (ic_leased c)\<rparr>))))"

definition idCache_use :: "ID \<Rightarrow> idCache \<Rightarrow> bool \<times> idCache" where
  "idCache_use i c =
     (if i \<notin> set (ic_leased c) then (False, c) else (True, c\<lparr>ic_leased := removeAll i (ic_leased c)\<rparr>))"

definition idCache_remove :: "ID \<Rightarrow> idCache \<Rightarrow> bool \<times> idCache" where
  "idCache_remove i c =
     (let c = c\<lparr>ic_leased := removeAll i (ic_leased c)\<rparr> in
      if i \<in> set (ic_ids c) then (True, c\<lparr>ic_ids := removeAll i (ic_ids c)\<rparr>) else (False, c))"

section \<open>The pool\<close>

record IDPool =
  pool_minID :: ID
  pool_maxID :: ID
  pool_idCache :: idCache

definition NewIDPool :: "ID \<Rightarrow> ID \<Rightarrow> IDPool" where
  "NewIDPool minID maxID = \<lparr>pool_minID = minID, pool_maxID = maxID, pool_idCache = newIDCache minID maxID\<rparr>"

definition on_cache :: "(idCache \<Rightarrow> 'r \<times> idCache) \<Rightarrow> IDPool \<Rightarrow> 'r \<times> IDPool" where
  "on_cache f p = (let (r, c) = f (pool_idCache p) in (r, p\<lparr>pool_idCache := c\<rparr>))"

definition LeaseAvailableID :: "IDPool \<Rightarrow> ID \<times> IDPool" where
  "LeaseAvailableID = on_cache idCache_leaseAvailableID"

definition AllocateID :: "IDPool \<Rightarrow> ID \<times> IDPool" where
  "AllocateID = on_cache idCache_allocateID"

definition IDPool_Release :: "ID \<Rightarrow> IDPool \<Rightarrow> bool \<times> IDPool" where
  "IDPool_Release i = on_cache (idCache_release i)"

definition IDPool_Use :: "ID \<Rightarrow> IDPool \<Rightarrow> bool \<times> IDPool" where
  "IDPool_Use i = on_cache (idCache_use i)"

definition IDPool_Insert :: "ID \<Rightarrow> IDPool \<Rightarrow> bool \<times> IDPool" where
  "IDPool_Insert i = on_cache (idCache_insert i)"

definition IDPool_Remove :: "ID \<Rightarrow> IDPool \<Rightarrow> bool \<times> IDPool" where
  "IDPool_Remove i = on_cache (idCache_remove i)"

lemmas pool_defs = LeaseAvailableID_def AllocateID_def IDPool_Release_def IDPool_Use_def IDPool_Insert_def
  IDPool_Remove_def on_cache_def idCache_leaseAvailableID_def idCache_allocateID_def idCache_release_def
  idCache_use_def idCache_insert_def idCache_remove_def Let_def

section \<open>The life cycle of an ID\<close>

datatype id_state = Available | Leased | Unavailable

definition state_of :: "IDPool \<Rightarrow> ID \<Rightarrow> id_state" where
  "state_of p i =
     (if i \<in> set (ic_ids (pool_idCache p)) then Available
      else if i \<in> set (ic_leased (pool_idCache p)) then Leased else Unavailable)"

definition pool_inv :: "IDPool \<Rightarrow> bool" where
  "pool_inv p \<longleftrightarrow>
     distinct (ic_ids (pool_idCache p)) \<and> distinct (ic_leased (pool_idCache p)) \<and>
     set (ic_ids (pool_idCache p)) \<inter> set (ic_leased (pool_idCache p)) = {}"

lemma idRange_set: "set (idRange a b) = {a..<b}"
proof (induction a b rule: idRange.induct)
  case (1 a b)
  have "{a..<b} = insert a {a + 1..<b}" if "a < b"
    using unat_inc [OF that] that by (auto simp: word_less_nat_alt word_le_nat_alt word_unat_eq_iff)
  then show ?case using 1 by (cases "a < b") (simp_all add: idRange.simps [of a b])
qed

lemma idRange_distinct: "distinct (idRange a b)"
proof (induction a b rule: idRange.induct)
  case (1 a b)
  have "\<not> a + 1 \<le> a" if "a < b" using unat_inc [OF that] by (simp add: word_le_nat_alt)
  then show ?case using 1 by (subst idRange.simps) (auto simp: idRange_set)
qed

text \<open>Every operation keeps the sets disjoint.\<close>

lemma pool_ops_inv [inv_intros]:
  assumes "pool_inv p"
  shows "pool_inv (snd (LeaseAvailableID p))" "pool_inv (snd (AllocateID p))" "pool_inv (snd (IDPool_Release i p))"
    "pool_inv (snd (IDPool_Use i p))" "pool_inv (snd (IDPool_Insert i p))" "pool_inv (snd (IDPool_Remove i p))"
  using assms
  by (auto simp: pool_inv_def pool_defs distinct_removeAll split: list.split)

lemma NewIDPool_inv [inv_intros]: "pool_inv (NewIDPool minID maxID)"
  by (simp add: pool_inv_def NewIDPool_def newIDCache_def idRange_distinct)

text \<open>The documented transition table; an allocation takes an available ID at once.\<close>

datatype event = EvLease | EvAllocate | EvRelease | EvUse | EvInsert | EvRemove

fun transition :: "event \<Rightarrow> id_state \<Rightarrow> id_state" where
  "transition EvLease Available = Leased"
| "transition EvAllocate Available = Unavailable"
| "transition EvRelease Leased = Available"
| "transition EvUse Leased = Unavailable"
| "transition EvInsert Unavailable = Available"
| "transition EvRemove s = Unavailable"
| "transition e s = s"

text \<open>
  The pools reached from a new one, with the set of the IDs that were inserted on the way; \<^verbatim>\<open>Insert\<close>
  takes any ID.  The map may be iterated in another order the next time.
\<close>

inductive pool_reach :: "ID \<Rightarrow> ID \<Rightarrow> ID set \<Rightarrow> IDPool \<Rightarrow> bool" for minID maxID where
  pool_new: "pool_reach minID maxID {} (NewIDPool minID maxID)"
| pool_lease: "pool_reach minID maxID S p \<Longrightarrow> pool_reach minID maxID S (snd (LeaseAvailableID p))"
| pool_allocate: "pool_reach minID maxID S p \<Longrightarrow> pool_reach minID maxID S (snd (AllocateID p))"
| pool_release: "pool_reach minID maxID S p \<Longrightarrow> pool_reach minID maxID S (snd (IDPool_Release i p))"
| pool_use: "pool_reach minID maxID S p \<Longrightarrow> pool_reach minID maxID S (snd (IDPool_Use i p))"
| pool_insert: "pool_reach minID maxID S p \<Longrightarrow> pool_reach minID maxID (insert i S) (snd (IDPool_Insert i p))"
| pool_remove: "pool_reach minID maxID S p \<Longrightarrow> pool_reach minID maxID S (snd (IDPool_Remove i p))"
| pool_order: "pool_reach minID maxID S p \<Longrightarrow> mset ids' = mset (ic_ids (pool_idCache p)) \<Longrightarrow>
    pool_reach minID maxID S (p\<lparr>pool_idCache := (pool_idCache p)\<lparr>ic_ids := ids'\<rparr>\<rparr>)"

text \<open>The IDs a pool knows of.\<close>

definition known :: "IDPool \<Rightarrow> ID set" where
  "known p = set (ic_ids (pool_idCache p)) \<union> set (ic_leased (pool_idCache p))"

lemma known_ops:
  "known (snd (LeaseAvailableID p)) \<subseteq> known p" "known (snd (AllocateID p)) \<subseteq> known p"
  "known (snd (IDPool_Release i p)) \<subseteq> known p" "known (snd (IDPool_Use i p)) \<subseteq> known p"
  "known (snd (IDPool_Insert i p)) \<subseteq> insert i (known p)" "known (snd (IDPool_Remove i p)) \<subseteq> known p"
  by (auto simp: known_def pool_defs split: list.splits if_splits)

lemma NewIDPool_ids:
  "set (ic_ids (pool_idCache (NewIDPool minID maxID))) = {i. minID \<le> i \<and> i \<le> maxID \<and> maxID \<noteq> - 1}"
proof -
  have "i < maxID + 1 \<longleftrightarrow> i \<le> maxID \<and> maxID \<noteq> - 1" for i :: ID
  proof (cases "maxID = - 1")
    case False
    then have "maxID < - 1" by (simp add: order.not_eq_order_implies_strict)
    then have "i < maxID + 1 \<longleftrightarrow> unat i < unat maxID + 1" by (simp only: word_less_nat_alt unat_inc)
    also have "\<dots> \<longleftrightarrow> i \<le> maxID" unfolding word_le_nat_alt by linarith
    finally show ?thesis using False by blast
  next
    case True
    then have "maxID + 1 = 0" by (simp only: add.left_inverse)
    then show ?thesis using True by (metis word_not_simps(1))
  qed
  then have "{minID..<maxID + 1} = {i. minID \<le> i \<and> i \<le> maxID \<and> maxID \<noteq> - 1}"
    unfolding set_eq_iff atLeastLessThan_iff mem_Collect_eq by blast
  then show ?thesis by (simp only: NewIDPool_def newIDCache_def idCache.simps IDPool.simps idRange_set)
qed

lemma pool_reach_keeps:
  assumes "pool_reach minID maxID S p"
  shows "pool_inv p \<and> known p \<subseteq> {minID..maxID} \<union> S"
  using assms
proof (induction rule: pool_reach.induct)
  case pool_new
  have "ic_leased (pool_idCache (NewIDPool minID maxID)) = []" by (simp add: NewIDPool_def newIDCache_def)
  then show ?case using NewIDPool_ids by (auto simp: NewIDPool_inv known_def)
next
  case (pool_order S p ids')
  then have "set ids' = set (ic_ids (pool_idCache p))" "distinct ids' = distinct (ic_ids (pool_idCache p))"
    by (metis set_mset_mset, metis mset_eq_imp_distinct_iff)
  then show ?case using pool_order by (simp add: pool_inv_def known_def)
qed (auto simp: pool_ops_inv dest!: known_ops [THEN subsetD])

section \<open>Properties\<close>

text \<open>
  C7.  The operations of the pool implement the documented life cycle of an ID.  In a pool whose
  available and leased IDs are disjoint (a new pool, and every operation keeps it): \<^verbatim>\<open>Release\<close>,
  \<^verbatim>\<open>Use\<close>, \<^verbatim>\<open>Insert\<close> and \<^verbatim>\<open>Remove\<close> move their ID from state to state as the transition table
  says, leave every other ID alone, and their result says whether the ID was in the state the operation
  expects.  A lease takes an available ID, never a leased or an unavailable one, and makes it leased; an
  allocation makes it unavailable.  Either of them reports no ID exactly if none is available, and then
  changes nothing, or if it takes the ID 0, which is then lost.  In a new pool exactly the IDs of the
  range are available, unless the upper limit is the largest ID: then none is.
\<close>

theorem life_cycle_table:
  assumes "pool_inv p"
  shows "state_of (snd (IDPool_Release i p)) = (state_of p)(i := transition EvRelease (state_of p i)) \<and>
    state_of (snd (IDPool_Use i p)) = (state_of p)(i := transition EvUse (state_of p i)) \<and>
    state_of (snd (IDPool_Insert i p)) = (state_of p)(i := transition EvInsert (state_of p i)) \<and>
    state_of (snd (IDPool_Remove i p)) = (state_of p)(i := transition EvRemove (state_of p i)) \<and>
    (fst (IDPool_Release i p) \<longleftrightarrow> state_of p i = Leased) \<and> (fst (IDPool_Use i p) \<longleftrightarrow> state_of p i = Leased) \<and>
    (fst (IDPool_Insert i p) \<longleftrightarrow> state_of p i = Unavailable) \<and> (fst (IDPool_Remove i p) \<longleftrightarrow> state_of p i = Available) \<and>
    (case LeaseAvailableID p of (j, p') \<Rightarrow>
       if j \<noteq> NoID then state_of p j = Available \<and> state_of p' = (state_of p)(j := transition EvLease Available)
       else (\<forall>k. state_of p k \<noteq> Available) \<and> p' = p \<or>
         state_of p NoID = Available \<and> state_of p' = (state_of p)(NoID := Unavailable)) \<and>
    (case AllocateID p of (j, p') \<Rightarrow>
       state_of p j = Available \<and> state_of p' = (state_of p)(j := transition EvAllocate Available) \<or>
       j = NoID \<and> (\<forall>k. state_of p k \<noteq> Available) \<and> p' = p) \<and>
    state_of (NewIDPool minID maxID) i =
      (if minID \<le> i \<and> i \<le> maxID \<and> maxID \<noteq> - 1 then Available else Unavailable)"
proof (intro conjI, goal_cases)
  case 9
  show ?case using assms
    by (cases "ic_ids (pool_idCache p)") (auto simp: fun_eq_iff state_of_def pool_defs pool_inv_def)
next
  case 10
  show ?case using assms
    by (cases "ic_ids (pool_idCache p)") (auto simp: fun_eq_iff state_of_def pool_defs pool_inv_def)
next
  case 11
  have "ic_leased (pool_idCache (NewIDPool minID maxID)) = []" by (simp add: NewIDPool_def newIDCache_def)
  then show ?case by (simp add: state_of_def NewIDPool_ids)
qed (use assms in \<open>auto simp: fun_eq_iff state_of_def pool_defs pool_inv_def\<close>)

theorem life_cycle_table_witness:
  "state_of (snd (LeaseAvailableID (NewIDPool 1 2))) = (state_of (NewIDPool 1 2))(1 := Leased) \<and>
   state_of (snd (IDPool_Use 1 (snd (LeaseAvailableID (NewIDPool 1 2))))) 1 = Unavailable"
proof -
  have lease: "fst (LeaseAvailableID (NewIDPool 1 2)) = 1" by code_simp
  have "state_of (snd (LeaseAvailableID (NewIDPool 1 2))) = (state_of (NewIDPool 1 2))(1 := Leased)"
    using life_cycle_table [OF NewIDPool_inv [of 1 2], of 1] lease by (simp add: split_beta NoID_def)
  moreover have "pool_inv (snd (LeaseAvailableID (NewIDPool 1 2)))" by (intro pool_ops_inv NewIDPool_inv)
  ultimately show ?thesis using life_cycle_table [of "snd (LeaseAvailableID (NewIDPool 1 2))" 1] by simp
qed

text \<open>
  C8.  A lease is exclusive.  After any sequence of operations on a new pool, in which any IDs may be
  inserted and the IDs are visited in any order, a lease that returns an ID returns one that was
  available, so that nobody else holds it; the ID is leased afterwards, no other ID changes its state,
  and it is in the range of the pool or was inserted before.  A lease returns no ID only if none is
  available, and then changes nothing, or if it takes the ID 0, which needs a range from 0 or an
  insertion of 0.
\<close>

theorem lease_is_exclusive:
  assumes "pool_reach minID maxID S p" "LeaseAvailableID p = (i, p')"
  shows "if i = NoID then (\<forall>j. state_of p j \<noteq> Available) \<and> p' = p \<or>
      state_of p NoID = Available \<and> state_of p' = (state_of p)(NoID := Unavailable) \<and> (minID = NoID \<or> NoID \<in> S)
    else (minID \<le> i \<and> i \<le> maxID \<or> i \<in> S) \<and> state_of p i = Available \<and> state_of p' = (state_of p)(i := Leased)"
proof -
  have keeps: "pool_inv p" "known p \<subseteq> {minID..maxID} \<union> S"
    using pool_reach_keeps [OF assms(1)] by simp_all
  show ?thesis
  proof (cases "ic_ids (pool_idCache p)")
    case Nil
    then show ?thesis using assms(2) by (auto simp: pool_defs state_of_def)
  next
    case (Cons a rest)
    then have "a \<in> {minID..maxID} \<union> S" using keeps(2) by (auto simp: known_def)
    then have "minID \<le> a \<and> a \<le> maxID \<or> a \<in> S" "a = NoID \<Longrightarrow> minID = NoID \<or> NoID \<in> S"
      by (simp_all add: NoID_def)
    moreover have "state_of p a = Available" using Cons by (simp add: state_of_def)
    moreover have "i = a" "state_of p' = (state_of p)(a := if a = NoID then Unavailable else Leased)"
      using assms(2) Cons keeps(1) by (auto simp: pool_defs state_of_def pool_inv_def fun_eq_iff split: if_splits)
    ultimately show ?thesis by (cases "a = NoID") simp_all
  qed
qed

theorem lease_is_exclusive_witness:
  "fst (LeaseAvailableID (snd (LeaseAvailableID (snd (IDPool_Insert 7 (NewIDPool 1 1)))))) = 1 \<and>
   state_of (snd (LeaseAvailableID (snd (IDPool_Insert 7 (NewIDPool 1 1))))) 1 = Available \<and>
   state_of (snd (LeaseAvailableID (snd (LeaseAvailableID (snd (IDPool_Insert 7 (NewIDPool 1 1))))))) 1 = Leased"
proof -
  let ?p = "snd (LeaseAvailableID (snd (IDPool_Insert 7 (NewIDPool 1 1))))"
  have run: "pool_reach 1 1 {7} ?p" by (intro pool_lease pool_insert pool_new)
  have lease: "fst (LeaseAvailableID ?p) = 1" by code_simp
  then have "LeaseAvailableID ?p = (1, snd (LeaseAvailableID ?p))" by (metis prod.collapse)
  from lease_is_exclusive [OF run this] lease show ?thesis by (simp add: NoID_def)
qed

end
