(* ===== verification/LocalKeys.thy ===== *)
theory LocalKeys
  imports IdPool "HOL-Library.AList"
begin

text \<open>
  The keys in use locally and their reference counts (\<^verbatim>\<open>pkg/allocator/localkeys.go\<close>).  The
  two maps of the code share their entries by pointer, so the model has a store: a list of entries
  that the maps refer to by index.  An entry is only ever added to it.
\<close>

section \<open>The operations\<close>

record 'k localKey =
  lk_val :: ID
  lk_key :: 'k
  lk_refcnt :: u64
  lk_verified :: bool

record 'k localKeys =
  lks_keys :: "(string \<times> nat) list"
  lks_ids :: "(ID \<times> nat) list"
  lks_store :: "'k localKey list"

datatype lk_error = DifferentValue ID ID | KeyNotFound string | NotInCache

definition newLocalKeys :: "'k localKeys" where
  "newLocalKeys = \<lparr>lks_keys = [], lks_ids = [], lks_store = []\<rparr>"

definition lk_modify :: "nat \<Rightarrow> ('k localKey \<Rightarrow> 'k localKey) \<Rightarrow> 'k localKeys \<Rightarrow> 'k localKeys" where
  "lk_modify a f lk = lk\<lparr>lks_store := (lks_store lk)[a := f (lks_store lk ! a)]\<rparr>"

definition localKeys_allocate ::
  "string \<Rightarrow> 'k \<Rightarrow> ID \<Rightarrow> 'k localKeys \<Rightarrow> (lk_error + ID \<times> bool) \<times> 'k localKeys"
where
  "localKeys_allocate keyString key val lk =
     (case map_of (lks_keys lk) keyString of
        Some a \<Rightarrow>
          let k = lks_store lk ! a in
          if val \<noteq> lk_val k then (Inl (DifferentValue val (lk_val k)), lk)
          else (Inr (lk_val k, False), lk_modify a (\<lambda>k. k\<lparr>lk_refcnt := lk_refcnt k + 1\<rparr>) lk)
      | None \<Rightarrow>
          let a = length (lks_store lk) in
          (Inr (val, True),
           lk\<lparr>lks_store := lks_store lk @ [\<lparr>lk_val = val, lk_key = key, lk_refcnt = 1, lk_verified = False\<rparr>],
              lks_keys := AList.update keyString a (lks_keys lk),
              lks_ids := AList.update val a (lks_ids lk)\<rparr>))"

definition localKeys_verify :: "string \<Rightarrow> 'k localKeys \<Rightarrow> lk_error option \<times> 'k localKeys" where
  "localKeys_verify key lk =
     (case map_of (lks_keys lk) key of
        Some a \<Rightarrow> (None, lk_modify a (\<lambda>k. k\<lparr>lk_verified := True\<rparr>) lk)
      | None \<Rightarrow> (Some (KeyNotFound key), lk))"

definition lookupKey :: "string \<Rightarrow> 'k localKeys \<Rightarrow> ID" where
  "lookupKey key lk = (case map_of (lks_keys lk) key of Some a \<Rightarrow> lk_val (lks_store lk ! a) | None \<Rightarrow> NoID)"

definition lookupID :: "ID \<Rightarrow> 'k localKeys \<Rightarrow> 'k option" where
  "lookupID i lk = (case map_of (lks_ids lk) i of Some a \<Rightarrow> Some (lk_key (lks_store lk ! a)) | None \<Rightarrow> None)"

definition localKeys_use :: "string \<Rightarrow> 'k localKeys \<Rightarrow> ID \<times> 'k localKeys" where
  "localKeys_use key lk =
     (case map_of (lks_keys lk) key of
        Some a \<Rightarrow>
          let k = lks_store lk ! a in
          if \<not> lk_verified k then (NoID, lk)
          else (lk_val k, lk_modify a (\<lambda>k. k\<lparr>lk_refcnt := lk_refcnt k + 1\<rparr>) lk)
      | None \<Rightarrow> (NoID, lk))"

definition localKeys_release :: "string \<Rightarrow> 'k localKeys \<Rightarrow> (lk_error + bool \<times> ID) \<times> 'k localKeys" where
  "localKeys_release key lk =
     (case map_of (lks_keys lk) key of
        Some a \<Rightarrow>
          let lk = lk_modify a (\<lambda>k. k\<lparr>lk_refcnt := lk_refcnt k - 1\<rparr>) lk;
              k = lks_store lk ! a
          in if lk_refcnt k = 0
             then (Inr (True, lk_val k),
                   lk\<lparr>lks_keys := AList.delete key (lks_keys lk), lks_ids := AList.delete (lk_val k) (lks_ids lk)\<rparr>)
             else (Inr (False, lk_val k), lk)
      | None \<Rightarrow> (Inl NotInCache, lk))"

definition getVerifiedIDs :: "'k localKeys \<Rightarrow> (ID \<times> 'k) list" where
  "getVerifiedIDs lk =
     map (\<lambda>(i, a). (i, lk_key (lks_store lk ! a))) (filter (\<lambda>(i, a). lk_verified (lks_store lk ! a)) (lks_ids lk))"

section \<open>The invariant\<close>

definition lk_inv :: "'k localKeys \<Rightarrow> bool" where
  "lk_inv lk \<longleftrightarrow>
     (\<forall>s a. map_of (lks_keys lk) s = Some a \<longrightarrow>
        a < length (lks_store lk) \<and> map_of (lks_ids lk) (lk_val (lks_store lk ! a)) = Some a \<and>
        (\<forall>s'. map_of (lks_keys lk) s' = Some a \<longrightarrow> s' = s)) \<and>
     (\<forall>i a. map_of (lks_ids lk) i = Some a \<longrightarrow>
        lk_val (lks_store lk ! a) = i \<and> (\<exists>s. map_of (lks_keys lk) s = Some a))"

text \<open>The entry of a key, and the references to it.\<close>

definition local_entry :: "'k localKeys \<Rightarrow> string \<Rightarrow> 'k localKey option" where
  "local_entry lk s = map_option (\<lambda>a. lks_store lk ! a) (map_of (lks_keys lk) s)"

definition refs_ok :: "'k localKeys \<Rightarrow> (string \<Rightarrow> nat) \<Rightarrow> bool" where
  "refs_ok lk refs \<longleftrightarrow>
     (\<forall>s. case local_entry lk s of None \<Rightarrow> refs s = 0 | Some k \<Rightarrow> 0 < refs s \<and> unat (lk_refcnt k) = refs s)"

text \<open>An ID that no other key uses.\<close>

definition id_free_for :: "'k localKeys \<Rightarrow> string \<Rightarrow> ID \<Rightarrow> bool" where
  "id_free_for lk s i \<longleftrightarrow> (\<forall>s' k. local_entry lk s' = Some k \<and> lk_val k = i \<longrightarrow> s' = s)"

text \<open>
  Sequences of operations, with the outstanding references of every key: a successful allocation or
  use takes a reference and a release returns one.
\<close>

inductive lk_reach :: "'k localKeys \<Rightarrow> (string \<Rightarrow> nat) \<Rightarrow> bool" where
  lk_new: "lk_reach newLocalKeys (\<lambda>s. 0)"
| lk_allocate: "lk_reach lk refs \<Longrightarrow> id_free_for lk s i \<Longrightarrow> refs s + 1 < 2 ^ 64 \<Longrightarrow>
    localKeys_allocate s key i lk = (r, lk') \<Longrightarrow> refs' = (if isl r then refs else refs(s := refs s + 1)) \<Longrightarrow> lk_reach lk' refs'"
| lk_verify: "lk_reach lk refs \<Longrightarrow> localKeys_verify s lk = (r, lk') \<Longrightarrow> lk_reach lk' refs"
| lk_use: "lk_reach lk refs \<Longrightarrow> refs s + 1 < 2 ^ 64 \<Longrightarrow> localKeys_use s lk = (i, lk') \<Longrightarrow>
    refs' = (if i = NoID then refs else refs(s := refs s + 1)) \<Longrightarrow> lookupKey s lk \<noteq> NoID \<Longrightarrow> lk_reach lk' refs'"
| lk_release: "lk_reach lk refs \<Longrightarrow> localKeys_release s lk = (r, lk') \<Longrightarrow>
    refs' = (if isl r then refs else refs(s := refs s - 1)) \<Longrightarrow> lk_reach lk' refs'"

lemma lk_inv_keys:
  assumes "lk_inv lk" "map_of (lks_keys lk) s = Some a"
  shows "a < length (lks_store lk)" "map_of (lks_ids lk) (lk_val (lks_store lk ! a)) = Some a"
    "map_of (lks_keys lk) s' = Some a \<longleftrightarrow> s' = s"
  using assms unfolding lk_inv_def by blast+

lemma lk_inv_ids:
  assumes "lk_inv lk" "map_of (lks_ids lk) i = Some a"
  shows "lk_val (lks_store lk ! a) = i" "\<exists>s. map_of (lks_keys lk) s = Some a"
  using assms unfolding lk_inv_def by blast+

text \<open>A change of an entry that keeps its value.\<close>

lemma modify_fields:
  "lks_keys (lk_modify a f lk) = lks_keys lk" "lks_ids (lk_modify a f lk) = lks_ids lk"
  "length (lks_store (lk_modify a f lk)) = length (lks_store lk)"
  by (simp_all add: lk_modify_def)

lemma modify_inv:
  assumes "lk_inv lk" "\<And>k. lk_val (f k) = lk_val k"
  shows "lk_inv (lk_modify a f lk)"
proof -
  have val: "lk_val (lks_store (lk_modify a f lk) ! b) = lk_val (lks_store lk ! b)" for b
    by (cases "b = a"; cases "a < length (lks_store lk)")
      (simp_all add: lk_modify_def nth_list_update list_update_beyond assms(2))
  show ?thesis
    unfolding lk_inv_def modify_fields val by (rule assms(1) [unfolded lk_inv_def])
qed

lemma modify_entry:
  assumes "lk_inv lk" "map_of (lks_keys lk) s = Some a"
  shows "local_entry (lk_modify a f lk) = (local_entry lk)(s \<mapsto> f (lks_store lk ! a))"
proof
  fix s'
  show "local_entry (lk_modify a f lk) s' = ((local_entry lk)(s \<mapsto> f (lks_store lk ! a))) s'"
  proof (cases "s' = s")
    case True
    then show ?thesis using lk_inv_keys(1) [OF assms] assms(2) by (simp add: local_entry_def lk_modify_def)
  next
    case False
    then have "map_of (lks_keys lk) s' \<noteq> Some a" using lk_inv_keys(3) [OF assms] by blast
    then show ?thesis using False by (cases "map_of (lks_keys lk) s'") (simp_all add: local_entry_def lk_modify_def)
  qed
qed

lemma refs_entry:
  assumes "refs_ok lk refs" "map_of (lks_keys lk) s = Some a"
  shows "0 < refs s" "unat (lk_refcnt (lks_store lk ! a)) = refs s"
  using assms(1) [unfolded refs_ok_def, rule_format, of s] assms(2) by (simp_all add: local_entry_def)

lemma refs_none: "refs_ok lk refs \<Longrightarrow> map_of (lks_keys lk) s = None \<Longrightarrow> refs s = 0"
  unfolding refs_ok_def local_entry_def by (drule spec [of _ s]) simp

lemma refs_update:
  assumes "refs_ok lk refs" "local_entry lk' = (local_entry lk)(s := e)"
    "case e of None \<Rightarrow> n = 0 | Some k \<Rightarrow> 0 < n \<and> unat (lk_refcnt k) = n"
  shows "refs_ok lk' (refs(s := n))"
  unfolding refs_ok_def assms(2)
proof
  fix s'
  show "case ((local_entry lk)(s := e)) s' of None \<Rightarrow> (refs(s := n)) s' = 0
      | Some k \<Rightarrow> 0 < (refs(s := n)) s' \<and> unat (lk_refcnt k) = (refs(s := n)) s'"
    using assms(1) [unfolded refs_ok_def, rule_format, of s'] assms(3)
    by (auto split: option.splits if_splits)
qed

lemma modify_keeps:
  assumes "lk_inv lk" "refs_ok lk refs" "map_of (lks_keys lk) s = Some a" "\<And>k. lk_val (f k) = lk_val k"
    "0 < n" "unat (lk_refcnt (f (lks_store lk ! a))) = n"
  shows "lk_inv (lk_modify a f lk) \<and> refs_ok (lk_modify a f lk) (refs(s := n))"
  using modify_inv [OF assms(1,4)] refs_update [OF assms(2) modify_entry [OF assms(1,3)], where n = n] assms(5,6)
  by simp

lemma unat_plus_one: "unat x + 1 < 2 ^ 64 \<Longrightarrow> unat (x + 1) = unat x + 1" for x :: u64
  by (simp add: unat_word_ariths)

lemma allocate_keeps:
  assumes inv: "lk_inv lk" and refs: "refs_ok lk refs" and free: "id_free_for lk s i" and bound: "refs s + 1 < 2 ^ 64"
    and r: "localKeys_allocate s key i lk = (r, lk')"
  shows "lk_inv lk' \<and> refs_ok lk' (if isl r then refs else refs(s := refs s + 1))"
proof (cases "map_of (lks_keys lk) s")
  case None
  let ?a = "length (lks_store lk)" and ?k = "\<lparr>lk_val = i, lk_key = key, lk_refcnt = 1, lk_verified = False\<rparr>"
  have lk': "lks_store lk' = lks_store lk @ [?k]" "map_of (lks_keys lk') = (map_of (lks_keys lk))(s \<mapsto> ?a)"
    "map_of (lks_ids lk') = (map_of (lks_ids lk))(i \<mapsto> ?a)" and res: "\<not> isl r"
    using r None by (auto simp: localKeys_allocate_def Let_def update_conv')
  have used: "a < ?a" if "map_of (lks_keys lk) s' = Some a" for s' a by (rule lk_inv_keys(1) [OF inv that])
  have unused: "lk_val (lks_store lk ! a) \<noteq> i" if "map_of (lks_keys lk) s' = Some a" for s' a
    using free that None unfolding id_free_for_def local_entry_def by force
  have "lk_inv lk'"
    unfolding lk_inv_def lk'
  proof (intro conjI allI impI, goal_cases)
    case (1 s' a)
    then show ?case using used by (force split: if_splits)
  next
    case (2 s' a)
    then show ?case
      using used [of s' a] unused [of s' a] lk_inv_keys(2) [OF inv, of s' a] by (auto simp: nth_append split: if_splits)
  next
    case (3 s' a s'')
    then show ?case using used lk_inv_keys(3) [OF inv] by (fastforce split: if_splits)
  next
    case (4 j a)
    then show ?case
      using lk_inv_ids [OF inv, of j a] used by (force simp: nth_append split: if_splits)
  next
    case (5 j a)
    show ?case
    proof (cases "j = i")
      case True
      then show ?thesis using 5 by (intro exI [of _ s]) simp
    next
      case False
      then obtain s' where "map_of (lks_keys lk) s' = Some a" using lk_inv_ids(2) [OF inv, of j a] 5 by auto
      then show ?thesis using None by (intro exI [of _ s']) auto
    qed
  qed
  moreover have "local_entry lk' = (local_entry lk)(s \<mapsto> ?k)"
    using used by (auto simp: local_entry_def lk' fun_eq_iff nth_append map_option_case split: option.split)
  ultimately show ?thesis
    using refs_update [OF refs, of lk' s "Some ?k" "refs s + 1"] refs_none [OF refs None] res by simp
next
  case (Some a)
  let ?f = "\<lambda>k. k\<lparr>lk_refcnt := lk_refcnt k + 1\<rparr>"
  show ?thesis
  proof (cases "i = lk_val (lks_store lk ! a)")
    case True
    then have lk': "lk' = lk_modify a ?f lk" "\<not> isl r"
      using r Some by (auto simp: localKeys_allocate_def Let_def)
    have "unat (lk_refcnt (lks_store lk ! a) + 1) = refs s + 1"
      using refs_entry [OF refs Some] bound unat_plus_one by metis
    then show ?thesis using modify_keeps [OF inv refs Some, of ?f] lk' by simp
  next
    case False
    then show ?thesis using r Some inv refs by (auto simp: localKeys_allocate_def Let_def)
  qed
qed

lemma verify_keeps:
  assumes inv: "lk_inv lk" and refs: "refs_ok lk refs" and r: "localKeys_verify s lk = (r, lk')"
  shows "lk_inv lk' \<and> refs_ok lk' refs"
proof (cases "map_of (lks_keys lk) s")
  case None
  then show ?thesis using assms by (simp add: localKeys_verify_def)
next
  case (Some a)
  let ?f = "\<lambda>k. k\<lparr>lk_verified := True\<rparr>"
  have lk': "lk' = lk_modify a ?f lk" using r Some by (simp add: localKeys_verify_def)
  show ?thesis
    using modify_keeps [OF inv refs Some, of ?f "refs s"] refs_entry [OF refs Some] lk' by simp
qed

lemma use_keeps:
  assumes inv: "lk_inv lk" and refs: "refs_ok lk refs" and bound: "refs s + 1 < 2 ^ 64"
    and r: "localKeys_use s lk = (i, lk')" and ne: "lookupKey s lk \<noteq> NoID"
  shows "lk_inv lk' \<and> refs_ok lk' (if i = NoID then refs else refs(s := refs s + 1))"
proof (cases "map_of (lks_keys lk) s")
  case None
  then show ?thesis using assms by (simp add: localKeys_use_def)
next
  case (Some a)
  let ?f = "\<lambda>k. k\<lparr>lk_refcnt := lk_refcnt k + 1\<rparr>"
  show ?thesis
  proof (cases "lk_verified (lks_store lk ! a)")
    case True
    have lk': "lk' = lk_modify a ?f lk" "i \<noteq> NoID"
      using r Some True ne by (auto simp: localKeys_use_def Let_def lookupKey_def)
    have "unat (lk_refcnt (lks_store lk ! a) + 1) = refs s + 1"
      using refs_entry [OF refs Some] bound unat_plus_one by metis
    then show ?thesis using modify_keeps [OF inv refs Some, of ?f] lk' by simp
  next
    case False
    then show ?thesis using r Some inv refs by (simp add: localKeys_use_def Let_def)
  qed
qed

text \<open>The release of the last reference drops the key and its ID.\<close>

lemma drop_inv:
  assumes inv: "lk_inv lk" and a: "map_of (lks_keys lk) s = Some a"
  defines "lk' \<equiv> lk\<lparr>lks_keys := AList.delete s (lks_keys lk), lks_ids := AList.delete (lk_val (lks_store lk ! a)) (lks_ids lk)\<rparr>"
  shows "lk_inv lk'" "local_entry lk' = (local_entry lk)(s := None)"
proof -
  let ?i = "lk_val (lks_store lk ! a)"
  have lk': "lks_store lk' = lks_store lk" "map_of (lks_keys lk') = (map_of (lks_keys lk))(s := None)"
    "map_of (lks_ids lk') = (map_of (lks_ids lk))(?i := None)"
    by (simp_all add: lk'_def delete_conv')
  have other: "lk_val (lks_store lk ! b) \<noteq> ?i" if "map_of (lks_keys lk) s' = Some b" "s' \<noteq> s" for s' b
    using lk_inv_keys(2) [OF inv that(1)] lk_inv_keys(2) [OF inv a] lk_inv_keys(3) [OF inv a, of s'] that by auto
  show "lk_inv lk'"
    unfolding lk_inv_def lk'
  proof (intro conjI allI impI, goal_cases)
    case (1 s' b)
    then show ?case using lk_inv_keys(1) [OF inv] by (auto split: if_splits)
  next
    case (2 s' b)
    then show ?case using lk_inv_keys(2) [OF inv, of s' b] other [of s' b] by (auto split: if_splits)
  next
    case (3 s' b s'')
    then show ?case using lk_inv_keys(3) [OF inv, of s' b s''] by (auto split: if_splits)
  next
    case (4 j b)
    then show ?case using lk_inv_ids(1) [OF inv, of j b] by (auto split: if_splits)
  next
    case (5 j b)
    then have j: "map_of (lks_ids lk) j = Some b" "j \<noteq> ?i" by (auto split: if_splits)
    then obtain s' where s': "map_of (lks_keys lk) s' = Some b" using lk_inv_ids(2) [OF inv] by blast
    moreover have "s' \<noteq> s" using lk_inv_ids(1) [OF inv j(1)] j(2) s' a by auto
    ultimately show ?case by (intro exI [of _ s']) simp
  qed
  show "local_entry lk' = (local_entry lk)(s := None)"
    by (auto simp: local_entry_def lk')
qed

lemma release_keeps:
  assumes inv: "lk_inv lk" and refs: "refs_ok lk refs" and r: "localKeys_release s lk = (r, lk')"
  shows "lk_inv lk' \<and> refs_ok lk' (if isl r then refs else refs(s := refs s - 1))"
proof (cases "map_of (lks_keys lk) s")
  case None
  then show ?thesis using assms by (auto simp: localKeys_release_def)
next
  case (Some a)
  let ?f = "\<lambda>k. k\<lparr>lk_refcnt := lk_refcnt k - 1\<rparr>"
  define lk1 where "lk1 = lk_modify a ?f lk"
  have inv1: "lk_inv lk1" unfolding lk1_def by (rule modify_inv [OF inv]) simp
  have a1: "map_of (lks_keys lk1) s = Some a" using Some by (simp add: lk1_def lk_modify_def)
  have k1: "lks_store lk1 ! a = ?f (lks_store lk ! a)" using lk_inv_keys(1) [OF inv Some] by (simp add: lk1_def lk_modify_def)
  have e1: "local_entry lk1 = (local_entry lk)(s \<mapsto> ?f (lks_store lk ! a))"
    unfolding lk1_def by (rule modify_entry [OF inv Some])
  have "lk_refcnt (lks_store lk ! a) \<noteq> 0" using refs_entry [OF refs Some] by (metis less_irrefl unat_eq_zero)
  then have cnt: "unat (lk_refcnt (lks_store lk1 ! a)) = refs s - 1"
    using refs_entry(2) [OF refs Some] by (simp add: unat_minus_one k1)
  show ?thesis
  proof (cases "lk_refcnt (lks_store lk1 ! a) = 0")
    case True
    note drop = drop_inv [OF inv1 a1]
    have lk': "lk' = lk1\<lparr>lks_keys := AList.delete s (lks_keys lk1), lks_ids := AList.delete (lk_val (lks_store lk1 ! a)) (lks_ids lk1)\<rparr>"
      "\<not> isl r"
      using r Some True by (auto simp: localKeys_release_def Let_def lk1_def [symmetric])
    have "local_entry lk' = (local_entry lk)(s := None)" unfolding lk'(1) drop(2) e1 by simp
    moreover have "refs s - 1 = 0" using cnt True by simp
    ultimately have "refs_ok lk' (refs(s := refs s - 1))" using refs_update [OF refs, of lk' s None "refs s - 1"] by simp
    then show ?thesis using drop(1) lk' by simp
  next
    case False
    have lk': "lk' = lk1" "\<not> isl r" using r Some False by (auto simp: localKeys_release_def Let_def lk1_def [symmetric])
    have "0 < refs s - 1" using cnt False by (metis gr0I unat_eq_zero)
    then have "refs_ok lk1 (refs(s := refs s - 1))" using refs_update [OF refs e1] cnt k1 by simp
    then show ?thesis using inv1 lk' by simp
  qed
qed

lemma newLocalKeys_ok: "lk_inv newLocalKeys \<and> refs_ok newLocalKeys (\<lambda>s. 0)"
  by (simp add: newLocalKeys_def lk_inv_def refs_ok_def local_entry_def)

lemma lk_reach_ok: "lk_reach lk refs \<Longrightarrow> lk_inv lk \<and> refs_ok lk refs"
proof (induction rule: lk_reach.induct)
  case lk_new
  show ?case by (rule newLocalKeys_ok)
next
  case (lk_allocate lk refs s i key r lk' refs')
  then show ?case using allocate_keeps [of lk refs s i] by blast
next
  case (lk_verify lk refs s r lk')
  then show ?case using verify_keeps by blast
next
  case (lk_use lk refs s i lk' refs')
  then show ?case using use_keeps [of lk refs s] by blast
next
  case (lk_release lk refs s r lk' refs')
  then show ?case using release_keeps [of lk refs s] by blast
qed

section \<open>Properties\<close>

text \<open>
  C9.  Reference counts are exact.  After any sequence of allocations, verifications, uses and
  releases in which an ID is allocated to one key only, the keys that are used have an ID other than 0
  and the counters stay below $2^{64}$, a key has an entry exactly while references to it are outstanding, its count is their number, and looking up the ID of an entry finds its key
  (both indexes share the entry, and both drop it with the last reference).
\<close>

theorem local_keys_reference_counts:
  assumes "lk_reach lk refs"
  shows "(local_entry lk s = None \<longleftrightarrow> refs s = 0) \<and>
    (\<forall>e. local_entry lk s = Some e \<longrightarrow> unat (lk_refcnt e) = refs s \<and> lookupKey s lk = lk_val e \<and>
      lookupID (lk_val e) lk = Some (lk_key e)) \<and>
    (\<forall>i k. lookupID i lk = Some k \<longrightarrow> (\<exists>s e. local_entry lk s = Some e \<and> lk_val e = i \<and> lk_key e = k))"
proof -
  have inv: "lk_inv lk" and refs: "refs_ok lk refs" using lk_reach_ok [OF assms] by simp_all
  have "local_entry lk s = None \<longleftrightarrow> refs s = 0"
    using refs_none [OF refs] refs_entry(1) [OF refs] by (cases "map_of (lks_keys lk) s") (auto simp: local_entry_def)
  moreover have "unat (lk_refcnt e) = refs s \<and> lookupKey s lk = lk_val e \<and> lookupID (lk_val e) lk = Some (lk_key e)"
    if e: "local_entry lk s = Some e" for e
  proof -
    obtain a where a: "map_of (lks_keys lk) s = Some a" "e = lks_store lk ! a" using e by (auto simp: local_entry_def)
    then show ?thesis
      using refs_entry(2) [OF refs a(1)] lk_inv_keys(2) [OF inv a(1)] by (simp add: lookupKey_def lookupID_def)
  qed
  moreover have "\<exists>s e. local_entry lk s = Some e \<and> lk_val e = i \<and> lk_key e = k" if k: "lookupID i lk = Some k" for i k
  proof -
    obtain a where a: "map_of (lks_ids lk) i = Some a" "k = lk_key (lks_store lk ! a)"
      using k by (auto simp: lookupID_def split: option.splits)
    obtain s where "map_of (lks_keys lk) s = Some a" using lk_inv_ids(2) [OF inv a(1)] by blast
    then show ?thesis using lk_inv_ids(1) [OF inv a(1)] a(2) by (intro exI [of _ s]) (simp add: local_entry_def)
  qed
  ultimately show ?thesis by blast
qed

definition example_keys :: "nat localKeys" where
  "example_keys = snd (localKeys_allocate ''a'' 7 300 (snd (localKeys_allocate ''a'' 7 300 newLocalKeys)))"

theorem local_keys_reference_counts_witness:
  "local_entry example_keys ''a'' \<noteq> None \<and> lookupID 300 (snd (localKeys_release ''a'' example_keys)) = Some 7"
proof -
  let ?r = "(\<lambda>s. 0)(''a'' := Suc (Suc 0))"
  let ?lk1 = "snd (localKeys_allocate ''a'' 7 300 newLocalKeys) :: nat localKeys"
  have "lk_reach ?lk1 ((\<lambda>s. 0)(''a'' := 1))"
    by (rule lk_allocate [OF lk_new, of "''a''" 300 7 "Inr (300, True)"])
      (simp_all add: id_free_for_def local_entry_def newLocalKeys_def localKeys_allocate_def)
  then have 2: "lk_reach example_keys ?r"
    unfolding example_keys_def
    by (rule lk_allocate [where s = "''a''" and i = 300 and key = 7 and r = "Inr (300, False)"])
      (simp_all add: id_free_for_def local_entry_def newLocalKeys_def localKeys_allocate_def Let_def lk_modify_def split: if_splits)
  have "localKeys_release ''a'' example_keys = (Inr (False, 300), snd (localKeys_release ''a'' example_keys))"
    by code_simp
  from lk_release [OF 2 this refl]
  have 1: "lk_reach (snd (localKeys_release ''a'' example_keys)) (?r(''a'' := 1))" by simp
  have e: "local_entry (snd (localKeys_release ''a'' example_keys)) ''a'' =
      Some \<lparr>lk_val = 300, lk_key = 7, lk_refcnt = 1, lk_verified = False\<rparr>"
    by code_simp
  show ?thesis
    using local_keys_reference_counts [OF 2, of "''a''"] local_keys_reference_counts [OF 1, of "''a''"] e by auto
qed

end
