(* ===== verification/Netip.thy ===== *)
theory Netip
  imports Prelude
begin

text \<open>
  Addresses and prefixes of package \<^verbatim>\<open>net/netip\<close>.  Addresses have no zone: the sources
  work on prefixes, which drop the zone.
\<close>

type_synonym u128 = "128 word"

datatype Addr = AddrZero | Addr4 u32 | Addr6 u128

text \<open>A prefix; an invalid one has \<^verbatim>\<open>-1\<close> bits.\<close>

record Prefix =
  pf_ip :: Addr
  pf_bits :: int

definition zeroPrefix :: Prefix where
  "zeroPrefix = \<lparr>pf_ip = AddrZero, pf_bits = -1\<rparr>"

fun BitLen :: "Addr \<Rightarrow> nat" where
  "BitLen AddrZero = 0"
| "BitLen (Addr4 a) = 32"
| "BitLen (Addr6 a) = 128"

fun Is4 :: "Addr \<Rightarrow> bool" where
  "Is4 (Addr4 a) = True"
| "Is4 a = False"

fun Is6 :: "Addr \<Rightarrow> bool" where
  "Is6 (Addr6 a) = True"
| "Is6 a = False"

definition PrefixFrom :: "Addr \<Rightarrow> int \<Rightarrow> Prefix" where
  "PrefixFrom ip bits =
     \<lparr>pf_ip = ip, pf_bits = (if ip \<noteq> AddrZero \<and> 0 \<le> bits \<and> bits \<le> int (BitLen ip) then bits else -1)\<rparr>"

text \<open>Keep the leading bits of a word.\<close>

definition keep_bits :: "nat \<Rightarrow> 'a::len word \<Rightarrow> 'a word" where
  "keep_bits n w = push_bit (LENGTH('a) - n) (drop_bit (LENGTH('a) - n) w)"

fun mask_addr :: "nat \<Rightarrow> Addr \<Rightarrow> Addr" where
  "mask_addr n AddrZero = AddrZero"
| "mask_addr n (Addr4 a) = Addr4 (keep_bits n a)"
| "mask_addr n (Addr6 a) = Addr6 (keep_bits n a)"

definition Masked :: "Prefix \<Rightarrow> Prefix" where
  "Masked p =
     (if pf_bits p < 0 \<or> pf_ip p = AddrZero then zeroPrefix
      else \<lparr>pf_ip = mask_addr (nat (pf_bits p)) (pf_ip p), pf_bits = pf_bits p\<rparr>)"

definition Prefix_Contains :: "Prefix \<Rightarrow> Addr \<Rightarrow> bool" where
  "Prefix_Contains p ip \<longleftrightarrow>
     pf_bits p \<ge> 0 \<and> BitLen (pf_ip p) \<noteq> 0 \<and> BitLen (pf_ip p) = BitLen ip \<and>
     mask_addr (nat (pf_bits p)) (pf_ip p) = mask_addr (nat (pf_bits p)) ip"

text \<open>The prefixes the package builds.\<close>

definition prefix_valid :: "Prefix \<Rightarrow> bool" where
  "prefix_valid p \<longleftrightarrow> pf_ip p \<noteq> AddrZero \<and> 0 \<le> pf_bits p \<and> pf_bits p \<le> int (BitLen (pf_ip p))"

lemma PrefixFrom_valid:
  "ip \<noteq> AddrZero \<Longrightarrow> 0 \<le> bits \<Longrightarrow> bits \<le> int (BitLen ip) \<Longrightarrow> prefix_valid (PrefixFrom ip bits)"
  by (simp add: PrefixFrom_def prefix_valid_def)

lemma BitLen_mask [simp]: "BitLen (mask_addr n a) = BitLen a"
  by (cases a) simp_all

lemma mask_zero_iff [simp]: "mask_addr n a = AddrZero \<longleftrightarrow> a = AddrZero"
  by (cases a) simp_all

lemma bit_keep_bits: "n \<le> LENGTH('a) \<Longrightarrow> bit (keep_bits n w) i \<longleftrightarrow> LENGTH('a) - n \<le> i \<and> bit w i" for w :: "'a::len word"
  by (auto simp: keep_bits_def bit_push_bit_iff bit_drop_bit_eq bit_simps dest: bit_imp_le_length)

lemma keep_bits_eq_iff:
  "n \<le> LENGTH('a) \<Longrightarrow> keep_bits n a = keep_bits n b \<longleftrightarrow> (\<forall>i. LENGTH('a) - n \<le> i \<longrightarrow> bit a i = bit b i)"
  for a b :: "'a::len word"
  by (auto simp: bit_eq_iff bit_keep_bits dest: bit_imp_le_length)

lemma keep_bits_keep:
  "m \<le> n \<Longrightarrow> n \<le> LENGTH('a) \<Longrightarrow> keep_bits m (keep_bits n a) = keep_bits m a" for a :: "'a::len word"
  by (auto simp: bit_eq_iff bit_keep_bits)

lemma Masked_valid: "prefix_valid p \<Longrightarrow> prefix_valid (Masked p)"
  by (simp add: prefix_valid_def Masked_def)

end
