(* ===== verification/Labels.thy ===== *)
theory Labels
  imports GoStrings Netip "HOL-Library.AList"
begin

text \<open>
  Labels (\<^verbatim>\<open>pkg/labels/labels.go\<close>), label arrays (\<^verbatim>\<open>pkg/labels/array.go\<close>) and lists
  of label arrays (\<^verbatim>\<open>pkg/labels/arraylist.go\<close>).  A label of source \<^verbatim>\<open>cidr\<close> caches
  the prefix its key denotes; the parser of prefixes is the argument \<^verbatim>\<open>kp\<close> of the functions
  that call it.  Labels are a map from the key, here an association list.
\<close>

section \<open>Labels\<close>

definition LabelSourceUnspec :: string where "LabelSourceUnspec = ''unspec''"

definition LabelSourceAny :: string where "LabelSourceAny = ''any''"

definition LabelSourceK8s :: string where "LabelSourceK8s = ''k8s''"

definition LabelSourceGenerated :: string where "LabelSourceGenerated = ''gen''"

definition LabelSourceReserved :: string where "LabelSourceReserved = ''reserved''"

definition LabelSourceCIDR :: string where "LabelSourceCIDR = ''cidr''"

definition CIDRGroupEncodedSep :: string where "CIDRGroupEncodedSep = ''+''"

definition SourceDelimiter :: string where "SourceDelimiter = '':''"

record Label =
  l_Key :: string
  l_Value :: string
  l_Source :: string
  l_cidr :: "Prefix option"

type_synonym Labels = "(string \<times> Label) list"
type_synonym LabelArray = "Label list"
type_synonym keyParser = "string \<Rightarrow> Prefix option"

text \<open>The key of a CIDR label has dashes in the place of colons; the parser of prefixes is an argument.\<close>

definition keyToPrefix :: "(string \<Rightarrow> Prefix option) \<Rightarrow> string \<Rightarrow> Prefix option" where
  "keyToPrefix ParsePrefix key = ParsePrefix (map (\<lambda>c. if c = CHR ''-'' then CHR '':'' else c) key)"

definition EncodedCIDRGroupLabel :: "string \<Rightarrow> string \<Rightarrow> string \<Rightarrow> Label" where
  "EncodedCIDRGroupLabel key val source =
     \<lparr>l_Key = key @ CIDRGroupEncodedSep @ val, l_Value = [], l_Source = source, l_cidr = None\<rparr>"

definition parseSource :: "string \<Rightarrow> char \<Rightarrow> string \<times> string" where
  "parseSource str delim =
     (if str = [] then ([], [])
      else if str ! 0 = CHR ''$'' then (LabelSourceReserved, drop 1 str)
      else
        let i = IndexByte str delim in
        if i < 0 then ([], str) else (take (nat i) str, drop (nat i + 1) str))"

definition parseLabel :: "keyParser \<Rightarrow> string \<Rightarrow> char \<Rightarrow> Label" where
  "parseLabel kp str delim =
     (let (src, next) = parseSource str delim;
          source = (if src \<noteq> [] then src else LabelSourceUnspec);
          i = IndexByte next (CHR ''='');
          (key, val) = (if i < 0 then (next, [])
                        else if i = 0 \<and> src = LabelSourceReserved then (drop (nat i + 1) next, [])
                        else (take (nat i) next, drop (nat i + 1) next))
      in \<lparr>l_Key = key, l_Value = val, l_Source = source,
          l_cidr = (if source = LabelSourceCIDR then kp key else None)\<rparr>)"

definition ParseLabel :: "keyParser \<Rightarrow> string \<Rightarrow> Label" where
  "ParseLabel kp str = parseLabel kp str (CHR '':'')"

definition parseSelectLabel :: "keyParser \<Rightarrow> string \<Rightarrow> char \<Rightarrow> Label" where
  "parseSelectLabel kp str delim =
     (let lbl = parseLabel kp str delim in
      if l_Source lbl = LabelSourceUnspec then lbl\<lparr>l_Source := LabelSourceAny\<rparr> else lbl)"

definition ParseSelectLabel :: "keyParser \<Rightarrow> string \<Rightarrow> Label" where
  "ParseSelectLabel kp str = parseSelectLabel kp str (CHR '':'')"

definition NewLabel :: "keyParser \<Rightarrow> string \<Rightarrow> string \<Rightarrow> string \<Rightarrow> Label" where
  "NewLabel kp key val source =
     (let (src, key) = parseSource key (CHR '':'');
          source = (if source = [] then if src = [] then LabelSourceUnspec else src else source);
          (key, val) = (if src = LabelSourceReserved \<and> key = [] then (val, []) else (key, val))
      in \<lparr>l_Key = key, l_Value = val, l_Source = source,
          l_cidr = (if source = LabelSourceCIDR then kp key else None)\<rparr>)"

definition IsAnySource :: "Label \<Rightarrow> bool" where
  "IsAnySource l \<longleftrightarrow> l_Source l = LabelSourceAny"

definition IsReservedSource :: "Label \<Rightarrow> bool" where
  "IsReservedSource l \<longleftrightarrow> l_Source l = LabelSourceReserved"

definition Label_Equals :: "Label \<Rightarrow> Label \<Rightarrow> bool" where
  "Label_Equals l b \<longleftrightarrow> (IsAnySource l \<or> l_Source l = l_Source b) \<and> l_Key l = l_Key b \<and> l_Value l = l_Value b"

definition HasKey :: "keyParser \<Rightarrow> Label \<Rightarrow> Label \<Rightarrow> bool" where
  "HasKey kp l target =
     (if \<not> IsAnySource target \<and> l_Source l \<noteq> l_Source target then False
      else if l_Source target = LabelSourceCIDR \<and> l_Source l = LabelSourceCIDR then
        let tc = (case l_cidr target of Some c \<Rightarrow> Some c | None \<Rightarrow> kp (l_Key target));
            lc = (case l_cidr l of Some c \<Rightarrow> Some c | None \<Rightarrow> kp (l_Key l))
        in (case (tc, lc) of
              (Some tc, Some lc) \<Rightarrow> pf_bits tc \<le> pf_bits lc \<and> Prefix_Contains tc (pf_ip lc)
            | _ \<Rightarrow> False)
      else l_Key l = l_Key target)"

definition Label_Has :: "keyParser \<Rightarrow> Label \<Rightarrow> Label \<Rightarrow> bool" where
  "Label_Has kp l target \<longleftrightarrow> HasKey kp l target \<and> l_Value l = l_Value target"

definition Label_String :: "Label \<Rightarrow> string" where
  "Label_String l =
     (if l_Value l \<noteq> [] then l_Source l @ SourceDelimiter @ l_Key l @ ''='' @ l_Value l
      else l_Source l @ SourceDelimiter @ l_Key l)"

definition Label_BuildString :: "Label \<Rightarrow> string \<Rightarrow> string" where
  "Label_BuildString l sb =
     (let sb = sb @ l_Source l @ SourceDelimiter @ l_Key l
      in if l_Value l \<noteq> [] then sb @ ''='' @ l_Value l else sb)"

definition Label_IsValid :: "Label \<Rightarrow> bool" where
  "Label_IsValid l \<longleftrightarrow> l_Key l \<noteq> []"

definition GetExtendedKey :: "Label \<Rightarrow> string" where
  "GetExtendedKey l = l_Source l @ SourceDelimiter @ l_Key l"

definition formatForKVStoreInto :: "Label \<Rightarrow> string \<Rightarrow> string" where
  "formatForKVStoreInto l buf = buf @ l_Source l @ '':'' @ l_Key l @ ''='' @ l_Value l @ '';''"

definition FormatForKVStore :: "Label \<Rightarrow> string" where
  "FormatForKVStore l = formatForKVStoreInto l []"

definition NewSourceEncodedLabelKey :: "string \<Rightarrow> string \<Rightarrow> string" where
  "NewSourceEncodedLabelKey sourcePrefix key =
     (let (src, next) = parseSource key (CHR '':'') in
      if src = [] then sourcePrefix @ next else src @ SourceDelimiter @ next)"

section \<open>Maps of labels\<close>

definition HasLabelWithKey :: "Labels \<Rightarrow> string \<Rightarrow> bool" where
  "HasLabelWithKey l key \<longleftrightarrow> map_of l key \<noteq> None"

definition Labels_Equals :: "Labels \<Rightarrow> Labels \<Rightarrow> bool" where
  "Labels_Equals l other \<longleftrightarrow>
     length l = length other \<and>
     (\<forall>(k, lbl1) \<in> set l. case map_of other k of
        None \<Rightarrow> False
      | Some lbl2 \<Rightarrow> l_Source lbl1 = l_Source lbl2 \<and> l_Key lbl1 = l_Key lbl2 \<and> l_Value lbl1 = l_Value lbl2)"

definition GetFromSource :: "Labels \<Rightarrow> string \<Rightarrow> Labels" where
  "GetFromSource l source = filter (\<lambda>(k, v). l_Source v = source) l"

definition RemoveFromSource :: "string \<Rightarrow> Labels \<Rightarrow> Labels" where
  "RemoveFromSource source l = filter (\<lambda>(k, v). \<not> l_Source v = source) l"

definition Labels_Contains :: "keyParser \<Rightarrow> Labels \<Rightarrow> Labels \<Rightarrow> bool" where
  "Labels_Contains kp l needed \<longleftrightarrow>
     (\<forall>(k, needlbl) \<in> set needed. case map_of l k of None \<Rightarrow> False | Some lbl \<Rightarrow> Label_Has kp lbl needlbl)"

definition Map2Labels :: "keyParser \<Rightarrow> (string \<times> string) list \<Rightarrow> string \<Rightarrow> Labels" where
  "Map2Labels kp m source = fold (\<lambda>(k, v) o'. let l = NewLabel kp k v source in AList.update (l_Key l) l o') m []"

definition Labels_StringMap :: "Labels \<Rightarrow> (string \<times> string) list" where
  "Labels_StringMap l = fold (\<lambda>(k, v) o'. AList.update (l_Source v @ '':'' @ l_Key v) (l_Value v) o') l []"

definition k8s_key :: "Label \<Rightarrow> string" where
  "k8s_key v =
     (if l_Source v = LabelSourceK8s \<or> l_Source v = LabelSourceAny \<or> l_Source v = LabelSourceUnspec
      then l_Key v else l_Source v @ ''.'' @ l_Key v)"

definition Labels_K8sStringMap :: "Labels \<Rightarrow> (string \<times> string) list" where
  "Labels_K8sStringMap l = fold (\<lambda>(k, v) o'. AList.update (k8s_key v) (l_Value v) o') l []"

definition NewLabelsFromModel :: "keyParser \<Rightarrow> string list \<Rightarrow> Labels" where
  "NewLabelsFromModel kp base =
     fold (\<lambda>v lbls. let lbl = ParseLabel kp v in if l_Key lbl \<noteq> [] then AList.update (l_Key lbl) lbl lbls else lbls) base []"

definition FromSlice :: "Label list \<Rightarrow> Labels" where
  "FromSlice labels = fold (\<lambda>lbl lbls. AList.update (l_Key lbl) lbl lbls) labels []"

definition ParseLabels :: "keyParser \<Rightarrow> string list \<Rightarrow> Labels" where
  "ParseLabels kp labels = fold (\<lambda>str out. let lbl = ParseLabel kp str in AList.update (l_Key lbl) lbl out) labels []"

definition ParseSelectLabels :: "keyParser \<Rightarrow> string list \<Rightarrow> Labels" where
  "ParseSelectLabels kp strs =
     fold (\<lambda>str out. let lbl = parseSelectLabel kp str (CHR '':'') in AList.update (l_Key lbl) lbl out) strs []"

definition NewLabelsFromSortedList :: "keyParser \<Rightarrow> string \<Rightarrow> Labels" where
  "NewLabelsFromSortedList kp list = NewLabelsFromModel kp (Split list (CHR '';''))"

definition MergeLabels :: "Labels \<Rightarrow> Labels \<Rightarrow> Labels" where
  "MergeLabels from l = fold (\<lambda>(k, v) l. AList.update k v l) from l"

definition NewFrom :: "Labels list \<Rightarrow> Labels" where
  "NewFrom ll = fold MergeLabels ll []"

definition Labels_GetModel :: "Labels \<Rightarrow> string list" where
  "Labels_GetModel l = map (\<lambda>(k, v). Label_String v) l"

definition Labels_Remove :: "Labels \<Rightarrow> Labels \<Rightarrow> Labels" where
  "Labels_Remove from l = filter (\<lambda>(k, v). map_of from k = None) l"

definition SortedList :: "Labels \<Rightarrow> string" where
  "SortedList l = fold (\<lambda>k buf. case map_of l k of None \<Rightarrow> buf | Some lbl \<Rightarrow> formatForKVStoreInto lbl buf) (sort (map fst l)) []"

definition LabelArray_Sort :: "LabelArray \<Rightarrow> LabelArray" where
  "LabelArray_Sort ls = sort_key l_Key ls"

definition Labels_LabelArray :: "Labels \<Rightarrow> LabelArray" where
  "Labels_LabelArray l = LabelArray_Sort (map snd l)"

definition ToSlice :: "Labels \<Rightarrow> Label list" where
  "ToSlice l = Labels_LabelArray l"

definition FindReserved :: "Labels \<Rightarrow> LabelArray option" where
  "FindReserved l =
     (let lbls = filter (\<lambda>lbl. l_Source lbl = LabelSourceReserved) (map snd l) in if length lbls > 0 then Some lbls else None)"

definition HasSource :: "Labels \<Rightarrow> string \<Rightarrow> bool" where
  "HasSource l source \<longleftrightarrow> list_ex (\<lambda>(k, lbl). l_Source lbl = source) l"

definition IsReserved :: "Labels \<Rightarrow> bool" where
  "IsReserved l = HasSource l LabelSourceReserved"

definition IsGenerated :: "Labels \<Rightarrow> bool" where
  "IsGenerated l = HasSource l LabelSourceGenerated"

definition Labels_LookupLabel :: "keyParser \<Rightarrow> Labels \<Rightarrow> Label \<Rightarrow> string \<times> bool" where
  "Labels_LookupLabel kp l keyLabel =
     (if l_Source keyLabel \<noteq> LabelSourceCIDR then
        (case map_of l (l_Key keyLabel) of
           Some lbl \<Rightarrow> if HasKey kp lbl keyLabel then (l_Value lbl, True) else ([], False)
         | None \<Rightarrow> ([], False))
      else case find (\<lambda>(k, lbl). HasKey kp lbl keyLabel) l of
        Some (k, lbl) \<Rightarrow> (l_Value lbl, True)
      | None \<Rightarrow> ([], False))"

definition Labels_Has :: "keyParser \<Rightarrow> Labels \<Rightarrow> string \<Rightarrow> bool" where
  "Labels_Has kp l key = snd (Labels_LookupLabel kp l (ParseSelectLabel kp key))"

definition Labels_Get :: "keyParser \<Rightarrow> Labels \<Rightarrow> string \<Rightarrow> string" where
  "Labels_Get kp l key = fst (Labels_LookupLabel kp l (ParseSelectLabel kp key))"

definition HasLabel :: "keyParser \<Rightarrow> Labels \<Rightarrow> Label \<Rightarrow> bool" where
  "HasLabel kp l label = (let (val, exists) = Labels_LookupLabel kp l label in exists \<and> val = l_Value label)"

definition CollectSources :: "Labels \<Rightarrow> string list" where
  "CollectSources l = fold (\<lambda>(k, lbl) sources. List.insert (l_Source lbl) sources) l []"

end
