(* ===== verification/LabelArrays.thy ===== *)
theory LabelArrays
  imports Labels "HOL-Library.Product_Lexorder"
begin

text \<open>
  Label arrays (\<^verbatim>\<open>pkg/labels/array.go\<close>) and lists of label arrays
  (\<^verbatim>\<open>pkg/labels/arraylist.go\<close>).  An index out of range, where Go panics, is
  \<^verbatim>\<open>None\<close>.
\<close>

section \<open>Label arrays\<close>

definition ParseLabelArray :: "keyParser \<Rightarrow> string list \<Rightarrow> LabelArray" where
  "ParseLabelArray kp labels = LabelArray_Sort (map (ParseLabel kp) labels)"

definition ParseSelectLabelArray :: "keyParser \<Rightarrow> string list \<Rightarrow> LabelArray" where
  "ParseSelectLabelArray kp labels = LabelArray_Sort (map (ParseSelectLabel kp) labels)"

definition ParseLabelArrayFromArray :: "keyParser \<Rightarrow> string list \<Rightarrow> LabelArray" where
  "ParseLabelArrayFromArray kp base = LabelArray_Sort (map (ParseLabel kp) base)"

definition ParseSelectLabelArrayFromArray :: "keyParser \<Rightarrow> string list \<Rightarrow> LabelArray" where
  "ParseSelectLabelArrayFromArray kp base = LabelArray_Sort (map (ParseSelectLabel kp) base)"

definition NewLabelArrayFromSortedList :: "keyParser \<Rightarrow> string \<Rightarrow> LabelArray" where
  "NewLabelArrayFromSortedList kp list =
     filter (\<lambda>lbl. l_Key lbl \<noteq> []) (map (ParseLabel kp) (Split list (CHR '';'')))"

definition LabelArray_Labels :: "LabelArray \<Rightarrow> Labels" where
  "LabelArray_Labels ls = fold (\<lambda>l lbls. AList.update (l_Key l) l lbls) ls []"

definition LabelArray_Contains :: "keyParser \<Rightarrow> LabelArray \<Rightarrow> LabelArray \<Rightarrow> bool" where
  "LabelArray_Contains kp ls needed \<longleftrightarrow> list_all (\<lambda>n. list_ex (\<lambda>l. Label_Has kp l n) ls) needed"

definition IntersectsLabel :: "keyParser \<Rightarrow> LabelArray \<Rightarrow> Label \<Rightarrow> bool" where
  "IntersectsLabel kp ls target \<longleftrightarrow> list_ex (\<lambda>lbl. Label_Has kp lbl target) ls"

definition Intersects :: "keyParser \<Rightarrow> LabelArray \<Rightarrow> LabelArray \<Rightarrow> bool" where
  "Intersects kp ls needed \<longleftrightarrow> list_ex (IntersectsLabel kp ls) needed"

text \<open>The inner loop of \<^verbatim>\<open>Lacks\<close>, from index \<^verbatim>\<open>l\<close> on; it indexes \<^verbatim>\<open>needed\<close> by \<^verbatim>\<open>l\<close>.\<close>

fun lacks_loop :: "keyParser \<Rightarrow> LabelArray \<Rightarrow> LabelArray \<Rightarrow> nat \<Rightarrow> bool option" where
  "lacks_loop kp [] needed l = Some False"
| "lacks_loop kp (x # ls) needed l =
     (if l \<ge> length needed then None
      else if Label_Has kp x (needed ! l) then Some True
      else lacks_loop kp ls needed (l + 1))"

fun lacks_outer :: "keyParser \<Rightarrow> LabelArray \<Rightarrow> LabelArray \<Rightarrow> LabelArray \<Rightarrow> LabelArray option" where
  "lacks_outer kp ls needed [] = Some []"
| "lacks_outer kp ls needed (n # ns) =
     (case lacks_loop kp ls needed 0 of
        None \<Rightarrow> None
      | Some found \<Rightarrow> map_option (\<lambda>missing. if found then missing else n # missing) (lacks_outer kp ls needed ns))"

definition Lacks :: "keyParser \<Rightarrow> LabelArray \<Rightarrow> LabelArray \<Rightarrow> LabelArray option" where
  "Lacks kp ls needed = lacks_outer kp ls needed needed"

definition LabelArray_LookupLabel :: "keyParser \<Rightarrow> LabelArray \<Rightarrow> Label \<Rightarrow> string \<times> bool" where
  "LabelArray_LookupLabel kp ls keyLabel =
     (case find (\<lambda>l. HasKey kp l keyLabel) ls of Some l \<Rightarrow> (l_Value l, True) | None \<Rightarrow> ([], False))"

definition LabelArray_Lookup :: "keyParser \<Rightarrow> LabelArray \<Rightarrow> string \<Rightarrow> string \<times> bool" where
  "LabelArray_Lookup kp ls label = LabelArray_LookupLabel kp ls (ParseSelectLabel kp label)"

definition LabelArray_Has :: "keyParser \<Rightarrow> LabelArray \<Rightarrow> string \<Rightarrow> bool" where
  "LabelArray_Has kp ls key = snd (LabelArray_LookupLabel kp ls (ParseSelectLabel kp key))"

definition LabelArray_Get :: "keyParser \<Rightarrow> LabelArray \<Rightarrow> string \<Rightarrow> string" where
  "LabelArray_Get kp ls key = fst (LabelArray_LookupLabel kp ls (ParseSelectLabel kp key))"

definition LabelArray_GetModel :: "LabelArray \<Rightarrow> string list" where
  "LabelArray_GetModel ls = map Label_String ls"

text \<open>The nil array is \<^verbatim>\<open>None\<close>.\<close>

definition LabelArrayFromString :: "keyParser \<Rightarrow> string \<Rightarrow> LabelArray option" where
  "LabelArrayFromString kp str =
     (if length str > 2 \<and> str ! 0 = CHR ''['' \<and> str ! (length str - 1) = CHR '']'' then
        let str = take (length str - 2) (drop 1 str);
            la = map (ParseLabel kp) (Split str (CHR '' ''))
        in if length la > 0 then Some la else None
      else None)"

fun buildLabels :: "LabelArray \<Rightarrow> nat \<Rightarrow> string \<Rightarrow> string" where
  "buildLabels [] i sb = sb"
| "buildLabels (l # ls) i sb = buildLabels ls (i + 1) (Label_BuildString l (if i > 0 then sb @ '' '' else sb))"

definition LabelArray_BuildString :: "LabelArray \<Rightarrow> string \<Rightarrow> string" where
  "LabelArray_BuildString ls sb = buildLabels ls 0 (sb @ ''['') @ '']''"

definition LabelArray_String :: "LabelArray \<Rightarrow> string" where
  "LabelArray_String ls = LabelArray_BuildString ls []"

definition Map2LabelArray :: "keyParser \<Rightarrow> (string \<times> string) list \<Rightarrow> string \<Rightarrow> LabelArray" where
  "Map2LabelArray kp m source = map (\<lambda>(k, v). NewLabel kp k v source) m"

definition LabelArray_StringMap :: "LabelArray \<Rightarrow> (string \<times> string) list" where
  "LabelArray_StringMap ls = fold (\<lambda>l o'. AList.update (l_Source l @ SourceDelimiter @ l_Key l) (l_Value l) o') ls []"

definition LabelArray_K8sStringMap :: "LabelArray \<Rightarrow> (string \<times> string) list" where
  "LabelArray_K8sStringMap ls = fold (\<lambda>l o'. AList.update (k8s_key l) (l_Value l) o') ls []"

definition LabelArray_Equals :: "LabelArray \<Rightarrow> LabelArray \<Rightarrow> bool" where
  "LabelArray_Equals ls b \<longleftrightarrow> length ls = length b \<and> (\<forall>(l, l') \<in> set (zip ls b). Label_Equals l l')"

fun LabelArray_Less :: "LabelArray \<Rightarrow> LabelArray \<Rightarrow> bool" where
  "LabelArray_Less (l # ls) (b # bs) =
     (if l_Key l < l_Key b then True
      else if l_Key l > l_Key b then False
      else if l_Value l < l_Value b then True
      else if l_Value l > l_Value b then False
      else if l_Source l < l_Source b then True
      else if l_Source l > l_Source b then False
      else LabelArray_Less ls bs)"
| "LabelArray_Less ls bs = (length ls < length bs)"

section \<open>Lists of label arrays\<close>

type_synonym LabelArrayList = "LabelArray list"

definition LabelArrayList_GetModel :: "LabelArrayList \<Rightarrow> string list list" where
  "LabelArrayList_GetModel ls = map LabelArray_GetModel ls"

definition LabelArrayList_Equals :: "LabelArrayList \<Rightarrow> LabelArrayList \<Rightarrow> bool" where
  "LabelArrayList_Equals ls b \<longleftrightarrow> length ls = length b \<and> (\<forall>(l, l') \<in> set (zip ls b). LabelArray_Equals l l')"

fun buildArrays :: "LabelArrayList \<Rightarrow> nat \<Rightarrow> string \<Rightarrow> string" where
  "buildArrays [] i sb = sb"
| "buildArrays (l # ls) i sb = buildArrays ls (i + 1) (LabelArray_BuildString l (if i > 0 then sb @ '', '' else sb))"

definition ArrayListString :: "LabelArrayList \<Rightarrow> string" where
  "ArrayListString ls = buildArrays ls 0 []"

text \<open>
  The difference to an expected list, for debugging.  The inner loop reads \<^verbatim>\<open>ls[i]\<close> after
  \<^verbatim>\<open>i\<close> was advanced.  The outer option is for a loop that does not end, the inner one for a
  panic.
\<close>

fun diff_missing :: "LabelArray \<Rightarrow> LabelArrayList \<Rightarrow> string \<Rightarrow> LabelArrayList \<times> string" where
  "diff_missing l [] res = ([], res)"
| "diff_missing l (e # expected) res =
     (if LabelArray_Less e l then diff_missing l expected (res @ ''    - '' @ LabelArray_String e @ [CHR 10])
      else (e # expected, res))"

partial_function (option) diff_loop :: "LabelArrayList \<Rightarrow> LabelArrayList \<Rightarrow> string \<Rightarrow> string option option" where
  "diff_loop ls expected res =
     (if ls = [] \<or> expected = [] then
        Some (Some (res @ concat (map (\<lambda>l. ''    + '' @ LabelArray_String l @ [CHR 10]) ls) @
                    concat (map (\<lambda>e. ''    - '' @ LabelArray_String e @ [CHR 10]) expected)))
      else if LabelArray_Equals (hd ls) (hd expected) then diff_loop (tl ls) (tl expected) res
      else
        let (ls', res') = (if LabelArray_Less (hd ls) (hd expected)
                           then (tl ls, res @ ''    + '' @ LabelArray_String (hd ls) @ [CHR 10]) else (ls, res))
        in if ls' = [] then Some None
           else let (expected', res'') = diff_missing (hd ls') expected res' in diff_loop ls' expected' res'')"

definition LabelArrayList_Diff :: "LabelArrayList \<Rightarrow> LabelArrayList \<Rightarrow> string option option" where
  "LabelArrayList_Diff ls expected = diff_loop ls expected []"

text \<open>The insertion sort with the order of the arrays.\<close>

fun insertArray :: "LabelArray \<Rightarrow> LabelArrayList \<Rightarrow> LabelArrayList" where
  "insertArray x [] = [x]"
| "insertArray x (y # ys) = (if LabelArray_Less y x then y # insertArray x ys else x # y # ys)"

definition LabelArrayList_Sort :: "LabelArrayList \<Rightarrow> LabelArrayList" where
  "LabelArrayList_Sort ls = foldr insertArray ls []"

fun MergeSorted :: "LabelArrayList \<Rightarrow> LabelArrayList \<Rightarrow> LabelArrayList" where
  "MergeSorted [] merged = merged"
| "MergeSorted (i # include) [] = i # include"
| "MergeSorted (i # include) (m # merged) =
     (if LabelArray_Less i m then i # MergeSorted include (m # merged)
      else if LabelArray_Equals i m then m # MergeSorted include merged
      else m # MergeSorted (i # include) merged)"

definition LabelArrayList_Merge :: "LabelArrayList \<Rightarrow> LabelArrayList \<Rightarrow> LabelArrayList" where
  "LabelArrayList_Merge lsp include = MergeSorted (LabelArrayList_Sort include) (LabelArrayList_Sort lsp)"

section \<open>The order of label arrays\<close>

definition triple :: "Label \<Rightarrow> string \<times> string \<times> string" where
  "triple l = (l_Key l, l_Value l, l_Source l)"

lemma Nil_less_map: "[] < map triple bs \<longleftrightarrow> bs \<noteq> []"
  by (cases bs) simp_all

text \<open>The comparison is the lexicographic order on keys, values and sources.\<close>

lemma Less_lex: "LabelArray_Less ls bs \<longleftrightarrow> map triple ls < map triple bs"
proof (induction ls bs rule: LabelArray_Less.induct)
  case (1 l ls b bs)
  then show ?case by (auto simp: triple_def less_prod_simp)
qed (simp_all add: Nil_less_map)

lemma Equals_triple:
  assumes "\<forall>l \<in> set ls. l_Source l \<noteq> LabelSourceAny"
  shows "LabelArray_Equals ls bs \<longleftrightarrow> map triple ls = map triple bs"
  using assms
proof (induction ls arbitrary: bs)
  case (Cons l ls)
  then show ?case
    by (cases bs) (auto simp: LabelArray_Equals_def Label_Equals_def IsAnySource_def triple_def)
qed (auto simp: LabelArray_Equals_def)

definition sorted_arrays :: "LabelArrayList \<Rightarrow> bool" where
  "sorted_arrays ls \<longleftrightarrow> sorted (map (map triple) ls)"

lemma insertArray_insort: "map (map triple) (insertArray x ys) = insort (map triple x) (map (map triple) ys)"
  by (induction ys) (auto simp: Less_lex)

lemma LabelArrayList_Sort_sort: "map (map triple) (LabelArrayList_Sort ls) = sort (map (map triple) ls)"
  by (induction ls) (simp_all add: LabelArrayList_Sort_def insertArray_insort)

lemma MergeSorted_elements:
  assumes "\<forall>a \<in> set incl. \<forall>l \<in> set a. l_Source l \<noteq> LabelSourceAny"
  shows "map triple ` set (MergeSorted incl merged) = map triple ` set incl \<union> map triple ` set merged"
  using assms
  by (induction incl merged rule: MergeSorted.induct) (auto simp: Equals_triple)

lemma MergeSorted_sorted:
  assumes "\<forall>a \<in> set incl. \<forall>l \<in> set a. l_Source l \<noteq> LabelSourceAny" "sorted_arrays incl" "sorted_arrays merged"
  shows "sorted_arrays (MergeSorted incl merged)"
  using assms
proof (induction incl merged rule: MergeSorted.induct)
  case (3 i incl m merged)
  have below: "x \<le> map triple a" if "x \<le> map triple i" "x \<le> map triple m" "a \<in> set (MergeSorted inc' m')"
    "set inc' \<subseteq> set (i # incl)" "set m' \<subseteq> set (m # merged)" for x a inc' m'
  proof -
    have "map triple a \<in> map triple ` set inc' \<union> map triple ` set m'"
      using MergeSorted_elements [of inc' m'] 3(4) that(3,4) by blast
    then have "map triple i \<le> map triple a \<or> map triple m \<le> map triple a"
      using that(4,5) 3(5,6) by (auto simp: sorted_arrays_def)
    then show ?thesis using that(1,2) by (meson order_trans)
  qed
  consider (lt) "LabelArray_Less i m" | (eq) "\<not> LabelArray_Less i m" "LabelArray_Equals i m"
    | (gt) "\<not> LabelArray_Less i m" "\<not> LabelArray_Equals i m" by blast
  then show ?case
  proof cases
    case lt
    then have "sorted_arrays (MergeSorted incl (m # merged))" using 3 by (simp add: sorted_arrays_def)
    moreover have "map triple i \<le> map triple a" if "a \<in> set (MergeSorted incl (m # merged))" for a
      using below [of "map triple i" a incl "m # merged"] that lt by (simp add: Less_lex subset_insertI less_imp_le)
    ultimately show ?thesis using lt by (simp add: sorted_arrays_def)
  next
    case eq
    then have "sorted_arrays (MergeSorted incl merged)" using 3 by (simp add: sorted_arrays_def)
    moreover have "map triple m \<le> map triple a" if "a \<in> set (MergeSorted incl merged)" for a
      using below [of "map triple m" a incl merged] that eq 3(4) by (simp add: Equals_triple subset_insertI)
    ultimately show ?thesis using eq by (simp add: sorted_arrays_def)
  next
    case gt
    then have "sorted_arrays (MergeSorted (i # incl) merged)" using 3 by (simp add: sorted_arrays_def)
    moreover have "map triple m \<le> map triple a" if "a \<in> set (MergeSorted (i # incl) merged)" for a
      using below [of "map triple m" a "i # incl" merged] that gt by (simp add: Less_lex subset_insertI)
    ultimately show ?thesis using gt by (simp add: sorted_arrays_def)
  qed
qed simp_all

section \<open>Round trips\<close>

text \<open>A label whose printed form is unambiguous.\<close>

definition label_ok :: "keyParser \<Rightarrow> Label \<Rightarrow> bool" where
  "label_ok kp l \<longleftrightarrow>
     l_Source l \<noteq> [] \<and> l_Source l ! 0 \<noteq> CHR ''$'' \<and> CHR '':'' \<notin> set (l_Source l) \<and>
     l_Key l \<noteq> [] \<and> CHR ''='' \<notin> set (l_Key l) \<and>
     l_cidr l = (if l_Source l = LabelSourceCIDR then kp (l_Key l) else None)"

lemma parseSource_print:
  assumes "s \<noteq> []" "s ! 0 \<noteq> CHR ''$''" "CHR '':'' \<notin> set s"
  shows "parseSource (s @ CHR '':'' # rest) (CHR '':'') = (s, rest)"
  using assms by (simp add: parseSource_def IndexByte_append Let_def nth_append)

lemma ParseLabel_print:
  assumes "label_ok kp l"
  shows "ParseLabel kp (l_Source l @ CHR '':'' # l_Key l @ CHR ''='' # l_Value l) = l"
    "l_Value l = [] \<Longrightarrow> ParseLabel kp (l_Source l @ CHR '':'' # l_Key l) = l"
  using assms unfolding label_ok_def
  by (simp_all add: ParseLabel_def parseLabel_def parseSource_print IndexByte_append IndexByte_none Let_def)

lemma ParseLabel_String: "label_ok kp l \<Longrightarrow> ParseLabel kp (Label_String l) = l"
  using ParseLabel_print by (simp add: Label_String_def SourceDelimiter_def)

text \<open>Labels that are keyed by their own keys and have no semicolons.\<close>

definition labels_ok :: "keyParser \<Rightarrow> Labels \<Rightarrow> bool" where
  "labels_ok kp l \<longleftrightarrow>
     distinct (map fst l) \<and>
     (\<forall>(k, lbl) \<in> set l. k = l_Key lbl \<and> label_ok kp lbl \<and>
        CHR '';'' \<notin> set (l_Source lbl) \<union> set (l_Key lbl) \<union> set (l_Value lbl))"

definition kv_item :: "Label \<Rightarrow> string" where
  "kv_item l = l_Source l @ CHR '':'' # l_Key l @ CHR ''='' # l_Value l"

lemma Split_items_end: "\<forall>x \<in> set xs. sep \<notin> set x \<Longrightarrow> Split (concat (map (\<lambda>x. x @ [sep]) xs)) sep = xs @ [[]]"
  by (induction xs) (simp_all add: Split_append_sep)

lemma SortedList_items:
  assumes "labels_ok kp l"
  shows "SortedList l = concat (map (\<lambda>x. x @ [CHR '';'']) (map (\<lambda>k. kv_item (the (map_of l k))) (sort (map fst l))))"
proof -
  have "fold (\<lambda>k buf. case map_of l k of None \<Rightarrow> buf | Some lbl \<Rightarrow> formatForKVStoreInto lbl buf) ks acc =
      acc @ concat (map (\<lambda>x. x @ [CHR '';'']) (map (\<lambda>k. kv_item (the (map_of l k))) ks))"
    if "set ks \<subseteq> fst ` set l" for ks acc
    using that
  proof (induction ks arbitrary: acc)
    case (Cons k ks)
    obtain lbl where "map_of l k = Some lbl" using Cons.prems by (metis insert_subset list.simps(15) map_of_eq_None_iff not_None_eq)
    then show ?case using Cons by (simp add: formatForKVStoreInto_def kv_item_def)
  qed simp
  from this [of "sort (map fst l)" "[]"] show ?thesis by (simp add: SortedList_def)
qed

lemma NewLabelsFromModel_map_of:
  assumes "distinct (map l_Key ls)" "\<forall>l \<in> set ls. l_Key l \<noteq> []" "map (ParseLabel kp) strs = ls"
  shows "map_of (fold (\<lambda>v lbls. let lbl = ParseLabel kp v in if l_Key lbl \<noteq> [] then AList.update (l_Key lbl) lbl lbls else lbls) strs acc) k =
    (case find (\<lambda>l. l_Key l = k) ls of Some l \<Rightarrow> Some l | None \<Rightarrow> map_of acc k)"
  using assms
proof (induction ls arbitrary: strs acc)
  case (Cons l ls)
  obtain v vs where strs: "strs = v # vs" "ParseLabel kp v = l" "map (ParseLabel kp) vs = ls" using Cons.prems(3) by auto
  have "find (\<lambda>x. l_Key x = l_Key l) ls = None"
    using Cons.prems(1) by (auto simp: find_None_iff image_iff)
  then show ?case using Cons strs by (auto simp: Let_def update_conv' split: option.split)
qed simp

lemma labels_okD:
  assumes "labels_ok kp l" "k \<in> fst ` set l"
  shows "map_of l k = Some (the (map_of l k))" "l_Key (the (map_of l k)) = k" "label_ok kp (the (map_of l k))"
    "CHR '';'' \<notin> set (kv_item (the (map_of l k)))"
proof -
  obtain lbl where lbl: "map_of l k = Some lbl" using assms(2) by (metis map_of_eq_None_iff not_None_eq)
  have "k = l_Key lbl \<and> label_ok kp lbl \<and> CHR '';'' \<notin> set (l_Source lbl) \<union> set (l_Key lbl) \<union> set (l_Value lbl)"
    using assms(1) map_of_SomeD [OF lbl] unfolding labels_ok_def by blast
  then show "map_of l k = Some (the (map_of l k))" "l_Key (the (map_of l k)) = k" "label_ok kp (the (map_of l k))"
    "CHR '';'' \<notin> set (kv_item (the (map_of l k)))"
    using lbl by (simp_all add: kv_item_def)
qed

section \<open>Properties\<close>

text \<open>
  C19.  Labels can be read back from their key in the key-value store: parsing the sorted list of
  labels gives exactly the same labels, if they are keyed by their own keys, sources are not empty,
  do not begin with a dollar sign and have no colon, keys are not empty and have no equals sign, and
  nothing has a semicolon.  In particular different label sets have different sorted lists.
\<close>

theorem SortedList_roundtrip:
  assumes "labels_ok kp l"
  shows "map_of (NewLabelsFromSortedList kp (SortedList l)) = map_of l"
proof
  fix k
  define ks where "ks = sort (map fst l)"
  define ls where "ls = map (\<lambda>k. the (map_of l k)) ks"
  have ks: "set ks = fst ` set l" by (simp add: ks_def)
  note lbl = labels_okD [OF assms]
  have keys: "map l_Key ls = ks" unfolding ls_def map_map using lbl(2) ks by (intro map_idI) simp
  have items: "SortedList l = concat (map (\<lambda>x. x @ [CHR '';'']) (map kv_item ls))"
    using SortedList_items [OF assms] by (simp add: ls_def ks_def comp_def)
  have "\<forall>x \<in> set (map kv_item ls). CHR '';'' \<notin> set x" using lbl(4) ks by (simp add: ls_def)
  from Split_items_end [OF this]
  have split: "Split (SortedList l) (CHR '';'') = map kv_item ls @ [[]]" unfolding items .
  have "ParseLabel kp (kv_item (the (map_of l k))) = the (map_of l k)" if "k \<in> set ks" for k
    using ParseLabel_print(1) [OF lbl(3)] that ks unfolding kv_item_def by simp
  then have parse: "map (ParseLabel kp) (map kv_item ls) = ls" unfolding ls_def map_map by (intro map_cong) simp_all
  have ne: "\<forall>l \<in> set ls. l_Key l \<noteq> []" using lbl(3) ks by (simp add: ls_def label_ok_def)
  have d: "distinct (map l_Key ls)" unfolding keys ks_def using assms by (simp add: labels_ok_def)
  have empty: "l_Key (ParseLabel kp []) = []"
    by (simp add: ParseLabel_def parseLabel_def parseSource_def IndexByte_def)
  have "map_of (NewLabelsFromSortedList kp (SortedList l)) k = find (\<lambda>l. l_Key l = k) ls"
    using NewLabelsFromModel_map_of [OF d ne parse, of "[]" k] empty
    by (simp add: NewLabelsFromSortedList_def NewLabelsFromModel_def split split: option.splits)
  also have "\<dots> = map_of l k"
  proof (cases "k \<in> set ks")
    case True
    have "find (\<lambda>x. l_Key x = k) (map f xs) = Some (f k)" if "k \<in> set xs" "\<forall>x \<in> set xs. l_Key (f x) = x" for f xs
      using that by (induction xs) auto
    from this [of ks "\<lambda>k. the (map_of l k)"] show ?thesis using True lbl(1,2) ks by (simp add: ls_def)
  next
    case False
    then have "map_of l k = None" unfolding ks_def by (simp add: map_of_eq_None_iff)
    moreover have "find (\<lambda>x. l_Key x = k) ls = None" using False lbl(2) ks by (auto simp: find_None_iff ls_def)
    ultimately show ?thesis by simp
  qed
  finally show "map_of (NewLabelsFromSortedList kp (SortedList l)) k = map_of l k" .
qed

definition example_labels :: Labels where
  "example_labels = FromSlice [NewLabel (\<lambda>_. None) ''app'' ''web'' LabelSourceK8s, NewLabel (\<lambda>_. None) ''host'' [] LabelSourceReserved]"

theorem SortedList_roundtrip_witness:
  "map_of (NewLabelsFromSortedList (\<lambda>_. None) (SortedList example_labels)) = map_of example_labels \<and>
   SortedList example_labels = ''k8s:app=web;reserved:host=;''"
proof -
  have "labels_ok (\<lambda>_. None) example_labels" by code_simp
  moreover have "SortedList example_labels = ''k8s:app=web;reserved:host=;''" by code_simp
  ultimately show ?thesis using SortedList_roundtrip by blast
qed

text \<open>
  C21.  Merging sorted lists of label arrays gives a sorted list with exactly the label arrays of
  both lists, where label arrays are compared by the keys, values and sources of their labels.  No
  label of the included arrays has the source \<^verbatim>\<open>any\<close>, which equals every other source.
\<close>

theorem LabelArrayList_Merge_merges:
  assumes "\<forall>a \<in> set incl. \<forall>l \<in> set a. l_Source l \<noteq> LabelSourceAny"
  shows "sorted_arrays (LabelArrayList_Merge lsp incl) \<and>
    map triple ` set (LabelArrayList_Merge lsp incl) = map triple ` set lsp \<union> map triple ` set incl"
proof -
  let ?i = "LabelArrayList_Sort incl" and ?m = "LabelArrayList_Sort lsp"
  have set_sort: "set (insertArray x ys) = insert x (set ys)" for x ys by (induction ys) auto
  have "set (LabelArrayList_Sort ls) = set ls" for ls
    by (induction ls) (simp_all add: LabelArrayList_Sort_def set_sort)
  moreover have "sorted_arrays (LabelArrayList_Sort ls)" for ls
    by (simp add: sorted_arrays_def LabelArrayList_Sort_sort)
  ultimately show ?thesis
    using MergeSorted_sorted [of ?i ?m] MergeSorted_elements [of ?i ?m] assms
    by (simp add: LabelArrayList_Merge_def Un_commute)
qed

theorem LabelArrayList_Merge_merges_witness:
  "sorted_arrays (LabelArrayList_Merge [[NewLabel (\<lambda>_. None) ''b'' [] LabelSourceK8s]] [[NewLabel (\<lambda>_. None) ''a'' [] LabelSourceK8s]])"
proof -
  have "\<forall>a \<in> set [[NewLabel (\<lambda>_. None) ''a'' [] LabelSourceK8s]]. \<forall>l \<in> set a. l_Source l \<noteq> LabelSourceAny" by code_simp
  then show ?thesis using LabelArrayList_Merge_merges by blast
qed

text \<open>
  C40.  The list of missing labels is wrong, and computing it can panic: the inner loop compares with
  the needed label at its own index.  A needed label that is there is reported as missing, and an
  array that is longer than the needed labels is indexed out of range.
\<close>

theorem Lacks_wrong_index:
  "(\<exists>ls needed. LabelArray_Contains kp ls needed \<and> Lacks kp ls needed = Some needed \<and> needed \<noteq> []) \<and>
   (\<exists>ls needed. Lacks kp ls needed = None)"
proof -
  let ?a = "\<lparr>l_Key = ''a'', l_Value = [], l_Source = ''k8s'', l_cidr = None\<rparr>"
  let ?b = "\<lparr>l_Key = ''b'', l_Value = [], l_Source = ''k8s'', l_cidr = None\<rparr>"
  have has: "Label_Has kp x y \<longleftrightarrow> x = y" if "x \<in> {?a, ?b}" "y \<in> {?a, ?b}" for x y
    using that by (auto simp: Label_Has_def HasKey_def IsAnySource_def LabelSourceCIDR_def LabelSourceAny_def)
  have "Lacks kp [?a, ?b] [?b, ?a] = Some [?b, ?a]" "LabelArray_Contains kp [?a, ?b] [?b, ?a]"
    "Lacks kp [?a, ?b] [?b] = None"
    using has by (simp_all add: Lacks_def LabelArray_Contains_def)
  then show ?thesis by blast
qed

end
