(* ===== verification/LocalIdentity.thy ===== *)
theory LocalIdentity
  imports Identity LabelArrays
begin

text \<open>
  The cache of node-local identities (\<^verbatim>\<open>pkg/identity/cache/local.go\<close>).  An identity is
  shared between the index by number and the index by labels, so the indexes refer to a store of
  identities.  The emitted changes are collected in a list.  The reference count, a Go \<^verbatim>\<open>int\<close>, is an
  unbounded integer: it differs from the 64 bits of the code only after $2^{63}$ lookups of one identity.
\<close>

section \<open>The cache\<close>

record IdentityRec =
  id_ID :: NumericIdentity
  id_Labels :: Labels
  id_LabelArray :: LabelArray
  id_ReferenceCount :: int

datatype IdentityChange = ChangeUpsert NumericIdentity Labels | ChangeDelete NumericIdentity | ChangeSync

record localIdentityCache =
  lic_byID :: "(NumericIdentity \<times> nat) list"
  lic_byLabels :: "(string \<times> nat) list"
  lic_store :: "IdentityRec list"
  lic_next :: NumericIdentity
  lic_scope :: NumericIdentity
  lic_minID :: NumericIdentity
  lic_maxID :: NumericIdentity
  lic_withheld :: "NumericIdentity list"
  lic_emitted :: "IdentityChange list"

definition newLocalIdentityCache :: "NumericIdentity \<Rightarrow> NumericIdentity \<Rightarrow> NumericIdentity \<Rightarrow> localIdentityCache" where
  "newLocalIdentityCache scope minID maxID =
     \<lparr>lic_byID = [], lic_byLabels = [], lic_store = [], lic_next = minID, lic_scope = scope,
      lic_minID = minID, lic_maxID = maxID, lic_withheld = [], lic_emitted = []\<rparr>"

definition bumpNextNumericIdentity :: "localIdentityCache \<Rightarrow> localIdentityCache" where
  "bumpNextNumericIdentity l =
     (if lic_next l = lic_maxID l then l\<lparr>lic_next := lic_minID l\<rparr> else l\<lparr>lic_next := lic_next l + 1\<rparr>)"

definition taken :: "localIdentityCache \<Rightarrow> NumericIdentity \<Rightarrow> bool" where
  "taken l nid \<longleftrightarrow> map_of (lic_byID l) nid \<noteq> None"

text \<open>The last resort: a withheld identity that is not taken.\<close>

definition claimWithheld :: "localIdentityCache \<Rightarrow> NumericIdentity option \<times> localIdentityCache" where
  "claimWithheld l =
     (case find (\<lambda>nid. \<not> taken l nid) (lic_withheld l) of
        Some nid \<Rightarrow> (Some nid, l\<lparr>lic_withheld := removeAll nid (lic_withheld l)\<rparr>)
      | None \<Rightarrow> (None, l))"

text \<open>
  The search for a free number, which ends when it is back at the first candidate.  A result of
  \<^verbatim>\<open>None\<close> in the pair is the error; the search itself is partial, as it only ends if it comes
  back to its start.
\<close>

partial_function (option) freeLoop ::
  "NumericIdentity \<Rightarrow> localIdentityCache \<Rightarrow> (NumericIdentity option \<times> localIdentityCache) option"
where
  "freeLoop firstID l =
     (let idCandidate = lic_next l OR lic_scope l;
          free = (\<not> taken l idCandidate \<and> idCandidate \<notin> set (lic_withheld l));
          l = bumpNextNumericIdentity l
      in if free then Some (Some idCandidate, l)
         else if lic_next l = firstID then Some (claimWithheld l)
         else freeLoop firstID l)"

definition getNextFreeNumericIdentity ::
  "NumericIdentity \<Rightarrow> localIdentityCache \<Rightarrow> (NumericIdentity option \<times> localIdentityCache) option"
where
  "getNextFreeNumericIdentity idCandidate l =
     (if Scope idCandidate = lic_scope l \<and> \<not> taken l idCandidate then Some (Some idCandidate, l)
      else freeLoop (lic_next l) l)"

definition lic_modify :: "nat \<Rightarrow> (IdentityRec \<Rightarrow> IdentityRec) \<Rightarrow> localIdentityCache \<Rightarrow> localIdentityCache" where
  "lic_modify a f l = l\<lparr>lic_store := (lic_store l)[a := f (lic_store l ! a)]\<rparr>"

text \<open>
  Look up or create: the address of the identity and whether it is new, or \<^verbatim>\<open>None\<close> for the
  error.
\<close>

definition lookupOrCreate ::
  "Labels \<Rightarrow> NumericIdentity \<Rightarrow> localIdentityCache \<Rightarrow> ((nat \<times> bool) option \<times> localIdentityCache) option"
where
  "lookupOrCreate lbls oldNID l =
     (let repr = SortedList lbls in
      case map_of (lic_byLabels l) repr of
        Some a \<Rightarrow> Some (Some (a, False), lic_modify a (\<lambda>i. i\<lparr>id_ReferenceCount := id_ReferenceCount i + 1\<rparr>) l)
      | None \<Rightarrow>
          (case getNextFreeNumericIdentity oldNID l of
             None \<Rightarrow> None
           | Some (None, l) \<Rightarrow> Some (None, l)
           | Some (Some nid, l) \<Rightarrow>
               let a = length (lic_store l);
                   i = \<lparr>id_ID = nid, id_Labels = lbls, id_LabelArray = Labels_LabelArray lbls, id_ReferenceCount = 1\<rparr>
               in Some (Some (a, True),
                        l\<lparr>lic_store := lic_store l @ [i],
                          lic_byLabels := AList.update repr a (lic_byLabels l),
                          lic_byID := AList.update nid a (lic_byID l),
                          lic_emitted := lic_emitted l @ [ChangeUpsert nid lbls]\<rparr>)))"

definition lic_release :: "NumericIdentity \<Rightarrow> localIdentityCache \<Rightarrow> bool \<times> localIdentityCache" where
  "lic_release nid l =
     (case map_of (lic_byID l) nid of
        None \<Rightarrow> (False, l)
      | Some a \<Rightarrow>
          let i = lic_store l ! a in
          if id_ReferenceCount i > 1 then
            (False, lic_modify a (\<lambda>i. i\<lparr>id_ReferenceCount := id_ReferenceCount i - 1\<rparr>) l)
          else if id_ReferenceCount i = 1 then
            (True, l\<lparr>lic_byLabels := AList.delete (SortedList (id_Labels i)) (lic_byLabels l),
                     lic_byID := AList.delete (id_ID i) (lic_byID l),
                     lic_emitted := lic_emitted l @ [ChangeDelete (id_ID i)]\<rparr>)
          else (False, l))"

text \<open>The out-of-scope identities are returned.\<close>

definition withhold :: "NumericIdentity list \<Rightarrow> localIdentityCache \<Rightarrow> NumericIdentity list \<times> localIdentityCache" where
  "withhold nids l =
     (filter (\<lambda>nid. Scope nid \<noteq> lic_scope l) nids,
      l\<lparr>lic_withheld := fold List.insert (filter (\<lambda>nid. Scope nid = lic_scope l) nids) (lic_withheld l)\<rparr>)"

definition unwithhold :: "NumericIdentity list \<Rightarrow> localIdentityCache \<Rightarrow> localIdentityCache" where
  "unwithhold nids l =
     l\<lparr>lic_withheld := fold removeAll (filter (\<lambda>nid. Scope nid = lic_scope l) nids) (lic_withheld l)\<rparr>"

definition lic_lookup :: "Labels \<Rightarrow> localIdentityCache \<Rightarrow> IdentityRec option" where
  "lic_lookup lbls l = map_option (\<lambda>a. lic_store l ! a) (map_of (lic_byLabels l) (SortedList lbls))"

definition lookupByID :: "NumericIdentity \<Rightarrow> localIdentityCache \<Rightarrow> IdentityRec option" where
  "lookupByID nid l = map_option (\<lambda>a. lic_store l ! a) (map_of (lic_byID l) nid)"

definition GetIdentities :: "localIdentityCache \<Rightarrow> (NumericIdentity \<times> IdentityRec) list" where
  "GetIdentities l = map (\<lambda>(nid, a). (nid, lic_store l ! a)) (lic_byID l)"

definition checkpoint :: "localIdentityCache \<Rightarrow> IdentityRec list \<Rightarrow> IdentityRec list" where
  "checkpoint l dst = dst @ map (\<lambda>(nid, a). lic_store l ! a) (lic_byID l)"

definition lic_size :: "localIdentityCache \<Rightarrow> nat" where
  "lic_size l = length (lic_byID l)"

text \<open>The initial events an observer sees, when its context is not cancelled.\<close>

definition replay :: "localIdentityCache \<Rightarrow> IdentityChange list" where
  "replay l = map (\<lambda>(nid, a). ChangeUpsert nid (id_Labels (lic_store l ! a))) (lic_byID l) @ [ChangeSync]"

section \<open>The search for a free number\<close>

definition next_ok :: "localIdentityCache \<Rightarrow> bool" where
  "next_ok l \<longleftrightarrow> lic_minID l \<le> lic_next l \<and> lic_next l \<le> lic_maxID l"

text \<open>What the search leaves alone.\<close>

definition same_index :: "localIdentityCache \<Rightarrow> localIdentityCache \<Rightarrow> bool" where
  "same_index l l' \<longleftrightarrow>
     lic_byID l' = lic_byID l \<and> lic_byLabels l' = lic_byLabels l \<and> lic_store l' = lic_store l \<and>
     lic_scope l' = lic_scope l \<and> lic_minID l' = lic_minID l \<and> lic_maxID l' = lic_maxID l \<and> lic_emitted l' = lic_emitted l"

definition blocked :: "localIdentityCache \<Rightarrow> NumericIdentity \<Rightarrow> bool" where
  "blocked l c \<longleftrightarrow> taken l (c OR lic_scope l) \<or> (c OR lic_scope l) \<in> set (lic_withheld l)"

lemma bump_fields:
  "same_index l (bumpNextNumericIdentity l)" "lic_withheld (bumpNextNumericIdentity l) = lic_withheld l"
  "lic_next (bumpNextNumericIdentity l) = (if lic_next l = lic_maxID l then lic_minID l else lic_next l + 1)"
  by (simp_all add: bumpNextNumericIdentity_def same_index_def)

lemma unat_next: "n < m \<Longrightarrow> unat (n + 1) = unat n + 1" for n m :: u32
proof -
  assume "n < m"
  have "unat m < 2 ^ 32" using unsigned_less [of m] by simp
  moreover have "unat n < unat m" using \<open>n < m\<close> by (simp add: word_less_nat_alt)
  ultimately show ?thesis by (simp add: unat_word_ariths)
qed

lemma bump_unat:
  assumes "next_ok l"
  shows "unat (lic_next (bumpNextNumericIdentity l)) =
      (if lic_next l = lic_maxID l then unat (lic_minID l) else unat (lic_next l) + 1)"
    "next_ok (bumpNextNumericIdentity l)"
proof -
  have lt: "lic_next l < lic_maxID l" if "lic_next l \<noteq> lic_maxID l"
    using that assms by (simp add: next_ok_def order_less_le)
  show "unat (lic_next (bumpNextNumericIdentity l)) =
      (if lic_next l = lic_maxID l then unat (lic_minID l) else unat (lic_next l) + 1)"
    using unat_next [OF lt] by (simp add: bump_fields)
  then show "next_ok (bumpNextNumericIdentity l)"
    using assms lt bump_fields(1) [of l] by (auto simp: next_ok_def same_index_def word_le_nat_alt word_less_nat_alt)
qed

text \<open>The numbers the search still visits, from the next one around to the first.\<close>

definition to_visit :: "nat \<Rightarrow> nat \<Rightarrow> nat \<Rightarrow> nat \<Rightarrow> nat set" where
  "to_visit m M f n = (if n < f then {n..<f} else {n..M} \<union> {m..<f})"

definition search_ok :: "localIdentityCache \<Rightarrow> NumericIdentity option \<Rightarrow> localIdentityCache \<Rightarrow> nat set \<Rightarrow> bool" where
  "search_ok l r l' V \<longleftrightarrow>
     same_index l l' \<and> next_ok l' \<and> set (lic_withheld l') \<subseteq> set (lic_withheld l) \<and>
     (case r of
        Some nid \<Rightarrow> \<not> taken l nid \<and>
          ((\<exists>c. unat c \<in> V \<and> nid = c OR lic_scope l \<and> nid \<notin> set (lic_withheld l)) \<or> nid \<in> set (lic_withheld l))
      | None \<Rightarrow> (\<forall>c. unat c \<in> V \<longrightarrow> blocked l c) \<and> (\<forall>nid \<in> set (lic_withheld l). taken l nid))"

lemma claimWithheld_ok:
  assumes "next_ok l" "\<forall>c. unat c \<in> V \<longrightarrow> blocked l c"
  shows "search_ok l (fst (claimWithheld l)) (snd (claimWithheld l)) V"
proof (cases "find (\<lambda>nid. \<not> taken l nid) (lic_withheld l)")
  case None
  then have "\<forall>nid \<in> set (lic_withheld l). taken l nid" by (simp add: find_None_iff)
  then show ?thesis using assms unfolding claimWithheld_def None by (simp add: search_ok_def same_index_def)
next
  case (Some nid)
  then have "\<not> taken l nid" "nid \<in> set (lic_withheld l)" by (auto simp: find_Some_iff)
  then show ?thesis
    using assms unfolding claimWithheld_def Some by (auto simp: search_ok_def same_index_def next_ok_def)
qed

lemma search_ok_bump:
  assumes "search_ok (bumpNextNumericIdentity l) r l' V" "blocked l (lic_next l)" "W = insert (unat (lic_next l)) V"
  shows "search_ok l r l' W"
proof -
  have same: "same_index l (bumpNextNumericIdentity l)" "lic_withheld (bumpNextNumericIdentity l) = lic_withheld l"
    by (rule bump_fields)+
  then have t: "taken (bumpNextNumericIdentity l) = taken l" "lic_scope (bumpNextNumericIdentity l) = lic_scope l"
    by (simp_all add: taken_def [abs_def] same_index_def)
  have b: "blocked (bumpNextNumericIdentity l) = blocked l" by (simp add: blocked_def [abs_def] same(2) t)
  have next_blocked: "blocked l c" if "unat c = unat (lic_next l)" for c
    using assms(2) that by (metis word_unat_eq_iff)
  have "same_index (bumpNextNumericIdentity l) l'" using assms(1) by (simp add: search_ok_def)
  then have si: "same_index l l'" using same(1) by (simp add: same_index_def)
  show ?thesis
  proof (cases r)
    case None
    have "\<forall>c. unat c \<in> V \<longrightarrow> blocked l c" using assms(1) by (simp add: search_ok_def None b)
    then have "\<forall>c. unat c \<in> W \<longrightarrow> blocked l c" using next_blocked assms(3) by blast
    then show ?thesis using assms(1) si by (simp add: search_ok_def None t same(2))
  next
    case (Some nid)
    then show ?thesis using assms(1,3) si by (auto simp: search_ok_def t same(2))
  qed
qed

lemma freeLoop_ok:
  assumes "next_ok l" "lic_minID l \<le> firstID" "firstID \<le> lic_maxID l"
    and "V = to_visit (unat (lic_minID l)) (unat (lic_maxID l)) (unat firstID) (unat (lic_next l))"
  shows "\<exists>r l'. freeLoop firstID l = Some (r, l') \<and> search_ok l r l' V"
  using assms
proof (induction "card V" arbitrary: l V rule: less_induct)
  case less
  let ?l = "bumpNextNumericIdentity l"
  let ?m = "unat (lic_minID l)" and ?M = "unat (lic_maxID l)" and ?f = "unat firstID" and ?n = "unat (lic_next l)"
  have le: "?m \<le> ?n" "?n \<le> ?M" "?m \<le> ?f" "?f \<le> ?M"
    using less.prems by (simp_all add: next_ok_def word_le_nat_alt)
  have V: "V = to_visit ?m ?M ?f ?n" by (simp add: less.prems)
  have same: "lic_minID ?l = lic_minID l" "lic_maxID ?l = lic_maxID l"
    using bump_fields(1) [of l] by (simp_all add: same_index_def)
  note bump = bump_unat [OF less.prems(1)]
  have eqM: "lic_next l = lic_maxID l \<longleftrightarrow> ?n = ?M" by (simp add: word_unat_eq_iff)
  have n_in: "?n \<in> V" using le by (auto simp: V to_visit_def)
  show ?case
  proof (cases "blocked l (lic_next l)")
    case False
    then have "freeLoop firstID l = Some (Some (lic_next l OR lic_scope l), ?l)"
      by (subst freeLoop.simps) (simp add: blocked_def Let_def)
    moreover have "search_ok l (Some (lic_next l OR lic_scope l)) ?l V"
      using False n_in bump(2) bump_fields(1,2) [of l] by (auto simp: search_ok_def blocked_def)
    ultimately show ?thesis by blast
  next
    case True
    show ?thesis
    proof (cases "lic_next ?l = firstID")
      case first: True
      then have loop: "freeLoop firstID l = Some (claimWithheld ?l)"
        using True by (subst freeLoop.simps) (auto simp: blocked_def Let_def)
      have "?f = (if ?n = ?M then ?m else ?n + 1)" using bump(1) first eqM by simp
      then have "V = insert ?n {}" using le by (auto simp: V to_visit_def split: if_splits)
      moreover have "search_ok ?l (fst (claimWithheld ?l)) (snd (claimWithheld ?l)) {}"
        by (rule claimWithheld_ok [OF bump(2)]) simp
      ultimately have "search_ok l (fst (claimWithheld ?l)) (snd (claimWithheld ?l)) V"
        using search_ok_bump True by blast
      then show ?thesis using loop by (metis prod.collapse)
    next
      case False
      let ?V = "to_visit ?m ?M ?f (unat (lic_next ?l))"
      have ne: "?f \<noteq> (if ?n = ?M then ?m else ?n + 1)" using bump(1) False eqM by (auto simp: word_unat_eq_iff)
      have loop: "freeLoop firstID l = freeLoop firstID ?l"
        using True False by (subst freeLoop.simps) (auto simp: blocked_def Let_def)
      have Vins: "V = insert ?n ?V" "?n \<notin> ?V"
        using le ne unfolding V bump(1) eqM by (auto simp: to_visit_def split: if_splits)
      have "finite ?V" by (simp add: to_visit_def)
      then have "card ?V < card V" using Vins by simp
      from less.hyps [OF this bump(2)] same less.prems
      obtain r l' where "freeLoop firstID ?l = Some (r, l')" "search_ok ?l r l' ?V" by auto
      then show ?thesis using loop search_ok_bump True Vins(1) by metis
    qed
  qed
qed

lemma getNextFree_ok:
  assumes "next_ok l"
  shows "\<exists>r l'. getNextFreeNumericIdentity cand l = Some (r, l') \<and> same_index l l' \<and> next_ok l' \<and>
    (case r of
       Some nid \<Rightarrow> \<not> taken l nid \<and> (nid = cand \<and> Scope cand = lic_scope l \<or> nid \<in> set (lic_withheld l) \<or>
         (\<exists>c. lic_minID l \<le> c \<and> c \<le> lic_maxID l \<and> nid = c OR lic_scope l))
     | None \<Rightarrow> (\<forall>c. lic_minID l \<le> c \<and> c \<le> lic_maxID l \<longrightarrow> blocked l c) \<and> (\<forall>nid \<in> set (lic_withheld l). taken l nid))"
proof (cases "Scope cand = lic_scope l \<and> \<not> taken l cand")
  case True
  then show ?thesis using assms by (simp add: getNextFreeNumericIdentity_def same_index_def)
next
  case False
  let ?V = "to_visit (unat (lic_minID l)) (unat (lic_maxID l)) (unat (lic_next l)) (unat (lic_next l))"
  have n: "lic_minID l \<le> lic_next l" "lic_next l \<le> lic_maxID l" using assms by (simp_all add: next_ok_def)
  obtain r l' where loop: "freeLoop (lic_next l) l = Some (r, l')" and ok: "search_ok l r l' ?V"
    using freeLoop_ok [OF assms n refl] by blast
  have V: "unat c \<in> ?V \<longleftrightarrow> lic_minID l \<le> c \<and> c \<le> lic_maxID l" for c
    using n by (auto simp: to_visit_def word_le_nat_alt)
  show ?thesis
    using ok loop False unfolding search_ok_def V getNextFreeNumericIdentity_def
    by (cases r) auto
qed

section \<open>The indexes\<close>

fun apply_change :: "IdentityChange \<Rightarrow> (NumericIdentity \<rightharpoonup> Labels) \<Rightarrow> (NumericIdentity \<rightharpoonup> Labels)" where
  "apply_change (ChangeUpsert nid lbls) m = m(nid \<mapsto> lbls)"
| "apply_change (ChangeDelete nid) m = m(nid := None)"
| "apply_change ChangeSync m = m"

definition observed :: "IdentityChange list \<Rightarrow> NumericIdentity \<rightharpoonup> Labels" where
  "observed cs = fold apply_change cs Map.empty"

definition id_index_ok :: "localIdentityCache \<Rightarrow> bool" where
  "id_index_ok l \<longleftrightarrow>
     (\<forall>nid a. map_of (lic_byID l) nid = Some a \<longrightarrow>
        a < length (lic_store l) \<and> id_ID (lic_store l ! a) = nid \<and> id_ReferenceCount (lic_store l ! a) \<ge> 1 \<and>
        map_of (lic_byLabels l) (SortedList (id_Labels (lic_store l ! a))) = Some a)"

definition label_index_ok :: "localIdentityCache \<Rightarrow> bool" where
  "label_index_ok l \<longleftrightarrow>
     (\<forall>s a. map_of (lic_byLabels l) s = Some a \<longrightarrow>
        a < length (lic_store l) \<and> SortedList (id_Labels (lic_store l ! a)) = s \<and>
        map_of (lic_byID l) (id_ID (lic_store l ! a)) = Some a)"

definition lic_inv :: "localIdentityCache \<Rightarrow> bool" where
  "lic_inv l \<longleftrightarrow>
     next_ok l \<and> id_index_ok l \<and> label_index_ok l \<and>
     observed (lic_emitted l) = (\<lambda>nid. map_option id_Labels (lookupByID nid l))"

lemma id_index:
  assumes "id_index_ok l" "map_of (lic_byID l) nid = Some a"
  shows "a < length (lic_store l)" "id_ID (lic_store l ! a) = nid" "id_ReferenceCount (lic_store l ! a) \<ge> 1"
    "map_of (lic_byLabels l) (SortedList (id_Labels (lic_store l ! a))) = Some a"
  using assms unfolding id_index_ok_def by blast+

lemma label_index:
  assumes "label_index_ok l" "map_of (lic_byLabels l) s = Some a"
  shows "a < length (lic_store l)" "SortedList (id_Labels (lic_store l ! a)) = s"
    "map_of (lic_byID l) (id_ID (lic_store l ! a)) = Some a"
  using assms unfolding label_index_ok_def by blast+

lemma new_inv [inv_intros]: "minID \<le> maxID \<Longrightarrow> lic_inv (newLocalIdentityCache scope minID maxID)"
  by (simp add: lic_inv_def newLocalIdentityCache_def next_ok_def id_index_ok_def label_index_ok_def observed_def
      lookupByID_def fun_eq_iff)

text \<open>A change of a reference count.\<close>

lemma modify_count_inv:
  assumes inv: "lic_inv l" and a: "map_of (lic_byID l) nid = Some a" and "n \<ge> 1"
  shows "lic_inv (lic_modify a (\<lambda>i. i\<lparr>id_ReferenceCount := n\<rparr>) l)"
proof -
  let ?l = "lic_modify a (\<lambda>i. i\<lparr>id_ReferenceCount := n\<rparr>) l"
  have ok: "id_index_ok l" "label_index_ok l" using inv by (simp_all add: lic_inv_def)
  have len: "a < length (lic_store l)" by (rule id_index(1) [OF ok(1) a])
  have fields: "lic_byID ?l = lic_byID l" "lic_byLabels ?l = lic_byLabels l" "lic_emitted ?l = lic_emitted l"
    "length (lic_store ?l) = length (lic_store l)" "next_ok ?l = next_ok l"
    by (simp_all add: lic_modify_def next_ok_def)
  have store: "id_ID (lic_store ?l ! b) = id_ID (lic_store l ! b)" "id_Labels (lic_store ?l ! b) = id_Labels (lic_store l ! b)"
    "id_ReferenceCount (lic_store ?l ! b) = (if b = a then n else id_ReferenceCount (lic_store l ! b))" for b
    using len by (simp_all add: lic_modify_def nth_list_update)
  have "id_index_ok ?l"
    unfolding id_index_ok_def fields store using id_index [OF ok(1)] \<open>n \<ge> 1\<close> by simp
  moreover have "label_index_ok ?l"
    unfolding label_index_ok_def fields store using label_index [OF ok(2)] by simp
  moreover have "map_option id_Labels (lookupByID nid ?l) = map_option id_Labels (lookupByID nid l)" for nid
    unfolding lookupByID_def fields by (simp add: option.map_comp comp_def store)
  ultimately show ?thesis using inv unfolding lic_inv_def fields by simp
qed

lemma same_index_inv: "lic_inv l \<Longrightarrow> same_index l l' \<Longrightarrow> next_ok l' \<Longrightarrow> lic_inv l'"
  by (simp add: lic_inv_def same_index_def id_index_ok_def label_index_ok_def lookupByID_def)

lemma add_identity_inv:
  assumes inv: "lic_inv l" and free: "map_of (lic_byID l) nid = None" "map_of (lic_byLabels l) (SortedList lbls) = None"
  defines "i \<equiv> \<lparr>id_ID = nid, id_Labels = lbls, id_LabelArray = Labels_LabelArray lbls, id_ReferenceCount = 1\<rparr>"
  defines "l' \<equiv> l\<lparr>lic_store := lic_store l @ [i],
      lic_byLabels := AList.update (SortedList lbls) (length (lic_store l)) (lic_byLabels l),
      lic_byID := AList.update nid (length (lic_store l)) (lic_byID l),
      lic_emitted := lic_emitted l @ [ChangeUpsert nid lbls]\<rparr>"
  shows "lic_inv l'"
proof -
  let ?n = "length (lic_store l)"
  have ok: "id_index_ok l" "label_index_ok l" using inv by (simp_all add: lic_inv_def)
  have l': "lic_store l' = lic_store l @ [i]" "map_of (lic_byLabels l') = (map_of (lic_byLabels l))(SortedList lbls \<mapsto> ?n)"
    "map_of (lic_byID l') = (map_of (lic_byID l))(nid \<mapsto> ?n)" "lic_emitted l' = lic_emitted l @ [ChangeUpsert nid lbls]"
    "next_ok l' = next_ok l"
    by (simp_all add: l'_def update_conv' next_ok_def)
  have at: "(lic_store l @ [i]) ! ?n = i" by simp
  have "id_index_ok l'"
    unfolding id_index_ok_def l'
  proof (intro allI impI)
    fix nid' a
    assume a: "((map_of (lic_byID l))(nid \<mapsto> ?n)) nid' = Some a"
    show "a < length (lic_store l @ [i]) \<and> id_ID ((lic_store l @ [i]) ! a) = nid' \<and>
        1 \<le> id_ReferenceCount ((lic_store l @ [i]) ! a) \<and>
        ((map_of (lic_byLabels l))(SortedList lbls \<mapsto> ?n)) (SortedList (id_Labels ((lic_store l @ [i]) ! a))) = Some a"
    proof (cases "nid' = nid")
      case True
      then show ?thesis using a at by (auto simp: i_def)
    next
      case False
      then show ?thesis using id_index [OF ok(1), of nid' a] a free(2) by (auto simp: nth_append)
    qed
  qed
  moreover have "label_index_ok l'"
    unfolding label_index_ok_def l'
  proof (intro allI impI)
    fix s a
    assume a: "((map_of (lic_byLabels l))(SortedList lbls \<mapsto> ?n)) s = Some a"
    show "a < length (lic_store l @ [i]) \<and> SortedList (id_Labels ((lic_store l @ [i]) ! a)) = s \<and>
        ((map_of (lic_byID l))(nid \<mapsto> ?n)) (id_ID ((lic_store l @ [i]) ! a)) = Some a"
    proof (cases "s = SortedList lbls")
      case True
      then show ?thesis using a at by (auto simp: i_def)
    next
      case False
      then show ?thesis using label_index [OF ok(2), of s a] a free(1) by (auto simp: nth_append)
    qed
  qed
  moreover have "observed (lic_emitted l') = (\<lambda>nid. map_option id_Labels (lookupByID nid l'))"
  proof
    fix nid'
    have obs: "observed (lic_emitted l) nid' = map_option id_Labels (lookupByID nid' l)"
      using inv by (simp add: lic_inv_def)
    show "observed (lic_emitted l') nid' = map_option id_Labels (lookupByID nid' l')"
    proof (cases "nid' = nid")
      case True
      then show ?thesis using at by (simp add: lookupByID_def observed_def l' i_def)
    next
      case False
      then show ?thesis
        using obs id_index(1) [OF ok(1), of nid'] unfolding lookupByID_def observed_def l'
        by (cases "map_of (lic_byID l) nid'") (simp_all add: nth_append)
    qed
  qed
  ultimately show ?thesis using inv by (simp add: lic_inv_def l')
qed

lemma lookupOrCreate_inv [inv_intros]:
  assumes inv: "lic_inv l" and r: "lookupOrCreate lbls oldNID l = Some (r, l')"
  shows "lic_inv l'"
proof (cases "map_of (lic_byLabels l) (SortedList lbls)")
  case (Some a)
  have ok: "id_index_ok l" "label_index_ok l" using inv by (simp_all add: lic_inv_def)
  have a: "map_of (lic_byID l) (id_ID (lic_store l ! a)) = Some a" by (rule label_index(3) [OF ok(2) Some])
  have "lic_modify a (\<lambda>i. i\<lparr>id_ReferenceCount := id_ReferenceCount i + 1\<rparr>) l =
      lic_modify a (\<lambda>i. i\<lparr>id_ReferenceCount := id_ReferenceCount (lic_store l ! a) + 1\<rparr>) l"
    by (simp add: lic_modify_def)
  then show ?thesis
    using modify_count_inv [OF inv a, of "id_ReferenceCount (lic_store l ! a) + 1"] id_index(3) [OF ok(1) a] r Some
    by (simp add: lookupOrCreate_def)
next
  case None
  obtain q l1 where free: "getNextFreeNumericIdentity oldNID l = Some (q, l1)" "same_index l l1" "next_ok l1"
    and q: "\<And>nid. q = Some nid \<Longrightarrow> \<not> taken l nid"
    using getNextFree_ok [of l oldNID] inv by (fastforce simp: lic_inv_def)
  have inv1: "lic_inv l1" by (rule same_index_inv [OF inv free(2,3)])
  show ?thesis
  proof (cases q)
    case None': None
    then show ?thesis using r None free(1) inv1 by (simp add: lookupOrCreate_def)
  next
    case (Some nid)
    have "map_of (lic_byID l1) nid = None" "map_of (lic_byLabels l1) (SortedList lbls) = None"
      using q [OF Some] None free(2) by (auto simp: taken_def same_index_def)
    from add_identity_inv [OF inv1 this] show ?thesis
      using r None free(1) Some by (auto simp: lookupOrCreate_def Let_def)
  qed
qed

lemma release_identity_inv [inv_intros]:
  assumes inv: "lic_inv l"
  shows "lic_inv (snd (lic_release nid l))"
proof (cases "map_of (lic_byID l) nid")
  case None
  then show ?thesis using inv by (simp add: lic_release_def)
next
  case (Some a)
  have ok: "id_index_ok l" "label_index_ok l" using inv by (simp_all add: lic_inv_def)
  note a = id_index [OF ok(1) Some]
  show ?thesis
  proof (cases "id_ReferenceCount (lic_store l ! a) > 1")
    case True
    have "lic_modify a (\<lambda>i. i\<lparr>id_ReferenceCount := id_ReferenceCount i - 1\<rparr>) l =
        lic_modify a (\<lambda>i. i\<lparr>id_ReferenceCount := id_ReferenceCount (lic_store l ! a) - 1\<rparr>) l"
      by (simp add: lic_modify_def)
    then show ?thesis
      using modify_count_inv [OF inv Some, of "id_ReferenceCount (lic_store l ! a) - 1"] Some True
      by (simp add: lic_release_def Let_def)
  next
    case False
    define s where "s = SortedList (id_Labels (lic_store l ! a))"
    define l' where "l' = snd (lic_release nid l)"
    have l': "lic_store l' = lic_store l" "map_of (lic_byLabels l') = (map_of (lic_byLabels l))(s := None)"
      "map_of (lic_byID l') = (map_of (lic_byID l))(nid := None)" "lic_emitted l' = lic_emitted l @ [ChangeDelete nid]"
      "next_ok l' = next_ok l"
      using False Some a(2,3) by (simp_all add: l'_def lic_release_def Let_def delete_conv' s_def next_ok_def)
    have other: "b \<noteq> a \<and> SortedList (id_Labels (lic_store l ! b)) \<noteq> s"
      if "map_of (lic_byID l) nid' = Some b" "nid' \<noteq> nid" for nid' b
      using id_index(2,4) [OF ok(1) that(1)] a(2,4) that(2) unfolding s_def by (metis option.inject)
    have other': "id_ID (lic_store l ! b) \<noteq> nid" if "map_of (lic_byLabels l) s' = Some b" "s' \<noteq> s" for s' b
      using label_index(2,3) [OF ok(2) that(1)] Some that(2) unfolding s_def by (metis option.inject)
    have "id_index_ok l'"
      unfolding id_index_ok_def l' using id_index [OF ok(1)] other by (auto split: if_splits)
    moreover have "label_index_ok l'"
      unfolding label_index_ok_def l' using label_index [OF ok(2)] other' by (auto split: if_splits)
    moreover have "observed (lic_emitted l') = (\<lambda>nid. map_option id_Labels (lookupByID nid l'))"
      using inv unfolding l' lic_inv_def observed_def lookupByID_def by (simp add: fun_eq_iff)
    ultimately show ?thesis using inv unfolding l'_def [symmetric] by (simp add: lic_inv_def l')
  qed
qed

lemma withhold_inv [inv_intros]: "lic_inv l \<Longrightarrow> lic_inv (snd (withhold nids l))" "lic_inv l \<Longrightarrow> lic_inv (unwithhold nids l)"
  by (rule same_index_inv; simp add: withhold_def unwithhold_def same_index_def lic_inv_def next_ok_def)+

inductive lic_reach :: "localIdentityCache \<Rightarrow> bool" where
  lic_new: "minID \<le> maxID \<Longrightarrow> lic_reach (newLocalIdentityCache scope minID maxID)"
| lic_create: "lic_reach l \<Longrightarrow> lookupOrCreate lbls oldNID l = Some (r, l') \<Longrightarrow> lic_reach l'"
| lic_releases: "lic_reach l \<Longrightarrow> lic_reach (snd (lic_release nid l))"
| lic_withholds: "lic_reach l \<Longrightarrow> lic_reach (snd (withhold nids l))"
| lic_unwithholds: "lic_reach l \<Longrightarrow> lic_reach (unwithhold nids l)"

lemma lic_reach_inv: "lic_reach l \<Longrightarrow> lic_inv l"
  by (induction rule: lic_reach.induct) (blast intro: inv_intros)+

section \<open>Properties\<close>

text \<open>
  C18.  The search for a free local identity always ends.  After any sequence of operations it
  returns a number that is not taken (the requested one if it has the scope of the cache, a number of
  the range, or a withheld one), or it reports an error, and then every number of the range is taken
  or withheld and every withheld number is taken.
\<close>

theorem free_identity_search_terminates:
  assumes "lic_reach l"
  shows "\<exists>r l'. getNextFreeNumericIdentity cand l = Some (r, l') \<and>
    (case r of
       Some nid \<Rightarrow> \<not> taken l nid \<and> (nid = cand \<and> Scope cand = lic_scope l \<or> nid \<in> set (lic_withheld l) \<or>
         (\<exists>c. lic_minID l \<le> c \<and> c \<le> lic_maxID l \<and> nid = c OR lic_scope l))
     | None \<Rightarrow>
         (\<forall>c. lic_minID l \<le> c \<and> c \<le> lic_maxID l \<longrightarrow>
            taken l (c OR lic_scope l) \<or> (c OR lic_scope l) \<in> set (lic_withheld l)) \<and>
         (\<forall>nid \<in> set (lic_withheld l). taken l nid))"
  using getNextFree_ok [of l cand] lic_reach_inv [OF assms] unfolding lic_inv_def blocked_def by blast

definition example_cache :: localIdentityCache where
  "example_cache = newLocalIdentityCache IdentityScopeLocal 1 2"

theorem free_identity_search_terminates_witness:
  "\<exists>r l'. getNextFreeNumericIdentity 0 (snd (withhold [IdentityScopeLocal OR 1] example_cache)) = Some (r, l')"
proof -
  have "lic_reach (snd (withhold [IdentityScopeLocal OR 1] example_cache))"
    unfolding example_cache_def by (intro lic_withholds lic_new) simp
  from free_identity_search_terminates [OF this, of 0] show ?thesis by blast
qed

text \<open>
  C17.  The indexes of the local identities agree at all times.  After any sequence of operations, an
  identity found by number has that number and is the one found by its labels, an identity found by
  labels has these labels and is the one found by its number, every identity is referenced, and an
  observer that applies the emitted changes knows exactly the identities of the cache.
\<close>

theorem local_identities_consistent:
  assumes "lic_reach l"
  shows "(\<forall>nid i. lookupByID nid l = Some i \<longrightarrow>
      id_ID i = nid \<and> lic_lookup (id_Labels i) l = Some i \<and> id_ReferenceCount i \<ge> 1) \<and>
    (\<forall>lbls i. lic_lookup lbls l = Some i \<longrightarrow>
      SortedList (id_Labels i) = SortedList lbls \<and> lookupByID (id_ID i) l = Some i) \<and>
    observed (lic_emitted l) = (\<lambda>nid. map_option id_Labels (lookupByID nid l))"
proof -
  have inv: "id_index_ok l" "label_index_ok l" using lic_reach_inv [OF assms] by (simp_all add: lic_inv_def)
  have "id_ID i = nid \<and> lic_lookup (id_Labels i) l = Some i \<and> id_ReferenceCount i \<ge> 1" if "lookupByID nid l = Some i" for nid i
    using that id_index [OF inv(1), of nid] by (auto simp: lookupByID_def lic_lookup_def)
  moreover have "SortedList (id_Labels i) = SortedList lbls \<and> lookupByID (id_ID i) l = Some i"
    if "lic_lookup lbls l = Some i" for lbls i
    using that label_index [OF inv(2), of "SortedList lbls"] by (auto simp: lookupByID_def lic_lookup_def)
  ultimately show ?thesis using lic_reach_inv [OF assms] unfolding lic_inv_def by blast
qed

theorem local_identities_consistent_witness:
  "case lookupOrCreate example_labels 0 example_cache of
     Some (r, l) \<Rightarrow> lic_lookup example_labels l \<noteq> None \<and> observed (lic_emitted l) = (\<lambda>nid. map_option id_Labels (lookupByID nid l))
   | None \<Rightarrow> False"
proof -
  have start: "lic_reach example_cache" unfolding example_cache_def by (rule lic_new) simp
  have "next_ok example_cache" using lic_reach_inv [OF start] by (simp add: lic_inv_def)
  then obtain q l1 where "getNextFreeNumericIdentity 0 example_cache = Some (q, l1)" "q \<noteq> None"
    using getNextFree_ok [of example_cache 0]
    by (auto simp: blocked_def taken_def example_cache_def newLocalIdentityCache_def split: option.splits)
  then obtain nid where free: "getNextFreeNumericIdentity 0 example_cache = Some (Some nid, l1)" by auto
  obtain r l where r: "lookupOrCreate example_labels 0 example_cache = Some (r, l)"
    and l: "lic_lookup example_labels l \<noteq> None"
    using free by (auto simp: lookupOrCreate_def Let_def lic_lookup_def example_cache_def newLocalIdentityCache_def update_conv')
  show ?thesis using local_identities_consistent [OF lic_create [OF start r]] r l by simp
qed

end
