(* ===== verification/Pools.thy ===== *)
theory Pools
  imports Prelude
begin

text \<open>
  The contract of an allocator: from a finite set of free items, an allocation of the next item takes
  a free one, and fails only when there is none.  Which item is taken may depend on a choice of the
  allocator, such as a random number.
\<close>

section \<open>Successive allocations\<close>

fun allocateMany :: "('r \<Rightarrow> 's \<Rightarrow> ('a \<times> 's) option) \<Rightarrow> 'r list \<Rightarrow> 's \<Rightarrow> ('a list \<times> 's) option" where
  "allocateMany alloc [] s = Some ([], s)"
| "allocateMany alloc (r # rs) s =
     (case alloc r s of
        None \<Rightarrow> None
      | Some (x, s') \<Rightarrow> map_option (\<lambda>(xs, s''). (x # xs, s'')) (allocateMany alloc rs s'))"

section \<open>The contract\<close>

locale pool =
  fixes inv :: "'s \<Rightarrow> bool" and free :: "'s \<Rightarrow> 'a set" and alloc :: "'r \<Rightarrow> 's \<Rightarrow> ('a \<times> 's) option"
  assumes finite_free: "inv s \<Longrightarrow> finite (free s)"
    and alloc_free: "inv s \<Longrightarrow> alloc r s = Some (x, s') \<Longrightarrow> x \<in> free s \<and> free s' = free s - {x} \<and> inv s'"
    and alloc_full: "inv s \<Longrightarrow> alloc r s = None \<Longrightarrow> free s = {}"
begin

lemma alloc_iff: "inv s \<Longrightarrow> alloc r s \<noteq> None \<longleftrightarrow> free s \<noteq> {}"
  using alloc_free [of s r] alloc_full [of s r] by (cases "alloc r s") fastforce+

lemma allocateMany_progress:
  assumes "inv s" "length rs \<le> card (free s)"
  shows "\<exists>xs s'. allocateMany alloc rs s = Some (xs, s') \<and> length xs = length rs \<and> distinct xs \<and>
    set xs \<subseteq> free s \<and> free s' = free s - set xs \<and> inv s'"
  using assms
proof (induction rs arbitrary: s)
  case (Cons r rs)
  then have "free s \<noteq> {}" by auto
  then obtain x s1 where a: "alloc r s = Some (x, s1)" using alloc_iff [OF Cons.prems(1), of r] by auto
  note x = alloc_free [OF Cons.prems(1) a]
  have fin: "finite (free s)" by (rule finite_free [OF Cons.prems(1)])
  have "card (free s1) = card (free s) - 1" using x fin by (simp add: card_Diff_singleton)
  then have "length rs \<le> card (free s1)" using Cons.prems(2) by simp
  then obtain xs s2 where "allocateMany alloc rs s1 = Some (xs, s2)" "length xs = length rs" "distinct xs"
    "set xs \<subseteq> free s1" "free s2 = free s1 - set xs" "inv s2" using Cons.IH [of s1] x by blast
  then show ?case using a x by auto
qed simp

lemma allocateMany_full:
  assumes "inv s" "length rs > card (free s)"
  shows "allocateMany alloc rs s = None"
  using assms
proof (induction rs arbitrary: s)
  case (Cons r rs)
  show ?case
  proof (cases "alloc r s")
    case (Some y)
    obtain x s1 where y: "y = (x, s1)" by force
    note x = alloc_free [OF Cons.prems(1) Some [unfolded y]]
    have "card (free s) = Suc (card (free s1))"
      using x finite_free [OF Cons.prems(1)] by (metis card_Suc_Diff1)
    then have "length rs > card (free s1)" using Cons.prems(2) by simp
    with Cons.IH x y Some show ?thesis by simp
  qed simp
qed simp

end

end
