(* ===== verification/Bitmap.thy ===== *)
theory Bitmap
  imports Pools Words
begin

text \<open>
  The allocation bitmap (\<^verbatim>\<open>pkg/ipam/service/allocator\<close>).  The bits are those of a natural
  number of arbitrary size, as in package \<^verbatim>\<open>math/big\<close>; random numbers are an argument.
\<close>

section \<open>Big integers\<close>

text \<open>The words of a big integer, the least significant one first, without leading zeros.\<close>

fun Bits :: "nat \<Rightarrow> u64 list" where
  "Bits n = (if n = 0 then [] else of_nat n # Bits (n div 2 ^ 64))"

declare Bits.simps [simp del]

text \<open>The bytes of a big integer, the most significant one first, without leading zeros.\<close>

fun little_bytes :: "nat \<Rightarrow> u8 list" where
  "little_bytes n = (if n = 0 then [] else of_nat n # little_bytes (n div 256))"

declare little_bytes.simps [simp del]

definition Bytes :: "nat \<Rightarrow> u8 list" where
  "Bytes n = List.rev (little_bytes n)"

definition SetBytes :: "u8 list \<Rightarrow> nat" where
  "SetBytes bs = foldl (\<lambda>n b. n * 256 + unat b) 0 bs"

definition OnesCount64 :: "u64 \<Rightarrow> nat" where
  "OnesCount64 w = length (filter (bit w) [0..<64])"

section \<open>The bitmap\<close>

definition countBits :: "nat \<Rightarrow> int" where
  "countBits n = foldl (\<lambda>count w. count + int (OnesCount64 w)) 0 (Bits n)"

datatype bitAllocator = randomScanStrategy | contiguousScanStrategy

record AllocationBitmap =
  ab_strategy :: bitAllocator
  ab_max :: int
  ab_rangeSpec :: string
  ab_count :: int
  ab_allocated :: nat

definition NewAllocationMap :: "int \<Rightarrow> string \<Rightarrow> AllocationBitmap" where
  "NewAllocationMap mx rangeSpec =
     \<lparr>ab_strategy = randomScanStrategy, ab_max = mx, ab_rangeSpec = rangeSpec, ab_count = 0, ab_allocated = 0\<rparr>"

definition NewContiguousAllocationMap :: "int \<Rightarrow> string \<Rightarrow> AllocationBitmap" where
  "NewContiguousAllocationMap mx rangeSpec =
     \<lparr>ab_strategy = contiguousScanStrategy, ab_max = mx, ab_rangeSpec = rangeSpec, ab_count = 0, ab_allocated = 0\<rparr>"

text \<open>The random number below the size is the remainder of the argument.\<close>

definition randomScan_AllocateBit :: "nat \<Rightarrow> nat \<Rightarrow> int \<Rightarrow> int \<Rightarrow> nat option" where
  "randomScan_AllocateBit rnd allocated mx count =
     (if count \<ge> mx then None
      else
        let offset = rnd mod nat mx in
        find (\<lambda>at. \<not> bit allocated at) (map (\<lambda>i. (offset + i) mod nat mx) [0..<nat mx]))"

definition contiguousScan_AllocateBit :: "nat \<Rightarrow> int \<Rightarrow> int \<Rightarrow> nat option" where
  "contiguousScan_AllocateBit allocated mx count =
     (if count \<ge> mx then None else find (\<lambda>i. \<not> bit allocated i) [0..<nat mx])"

fun AllocateBit :: "bitAllocator \<Rightarrow> nat \<Rightarrow> nat \<Rightarrow> int \<Rightarrow> int \<Rightarrow> nat option" where
  "AllocateBit randomScanStrategy rnd = randomScan_AllocateBit rnd"
| "AllocateBit contiguousScanStrategy rnd = contiguousScan_AllocateBit"

definition Bitmap_Allocate :: "nat \<Rightarrow> AllocationBitmap \<Rightarrow> bool \<times> AllocationBitmap" where
  "Bitmap_Allocate offset r =
     (if bit (ab_allocated r) offset then (False, r)
      else (True, r\<lparr>ab_allocated := set_bit offset (ab_allocated r), ab_count := ab_count r + 1\<rparr>))"

definition Bitmap_AllocateNext :: "nat \<Rightarrow> AllocationBitmap \<Rightarrow> (nat \<times> AllocationBitmap) option" where
  "Bitmap_AllocateNext rnd r =
     (case AllocateBit (ab_strategy r) rnd (ab_allocated r) (ab_max r) (ab_count r) of
        None \<Rightarrow> None
      | Some next \<Rightarrow> Some (next, r\<lparr>ab_count := ab_count r + 1, ab_allocated := set_bit next (ab_allocated r)\<rparr>))"

definition Bitmap_Release :: "nat \<Rightarrow> AllocationBitmap \<Rightarrow> AllocationBitmap" where
  "Bitmap_Release offset r =
     (if \<not> bit (ab_allocated r) offset then r
      else r\<lparr>ab_allocated := unset_bit offset (ab_allocated r), ab_count := ab_count r - 1\<rparr>)"

text \<open>The offsets the iteration visits: the bits of every word, from the least significant one.\<close>

lemma clear_low_bit: "drop_bit 1 (word AND NOT 1) = drop_bit 1 word" for word :: u64
proof (rule bit_word_eqI)
  fix n
  show "bit (drop_bit 1 (word AND NOT 1)) n = bit (drop_bit 1 word) n"
    by (simp only: bit_drop_bit_eq comp_def bit_and_iff bit_not_iff bit_1_iff) (auto dest: bit_imp_possible_bit)
qed

function word_bits :: "u64 \<Rightarrow> nat \<Rightarrow> nat list" where
  "word_bits word b =
     (if word > 0 then (if word AND 1 \<noteq> 0 then [b] else []) @ word_bits (drop_bit 1 (word AND NOT 1)) (b + 1) else [])"
  by auto
termination
proof (relation "measure (\<lambda>(word, b). unat word)", goal_cases)
  case (2 word b)
  have "unat (drop_bit 1 (word AND NOT 1)) = unat word div 2"
    unfolding clear_low_bit by (simp add: unat_div_distrib drop_bit_Suc)
  moreover have "unat word > 0" using 2 by (simp add: word_gt_0 unat_gt_0)
  ultimately show ?case by simp
qed simp

declare word_bits.simps [simp del]

definition Bitmap_ForEach :: "AllocationBitmap \<Rightarrow> nat list" where
  "Bitmap_ForEach r =
     concat (map (\<lambda>(wordIdx, word). map (\<lambda>b. wordIdx * 8 * 8 + b) (word_bits word 0)) (enumerate 0 (Bits (ab_allocated r))))"

definition Bitmap_Has :: "nat \<Rightarrow> AllocationBitmap \<Rightarrow> bool" where
  "Bitmap_Has offset r \<longleftrightarrow> bit (ab_allocated r) offset"

definition Bitmap_Free :: "AllocationBitmap \<Rightarrow> int" where
  "Bitmap_Free r = ab_max r - ab_count r"

definition Bitmap_Snapshot :: "AllocationBitmap \<Rightarrow> string \<times> u8 list" where
  "Bitmap_Snapshot r = (ab_rangeSpec r, Bytes (ab_allocated r))"

definition Bitmap_Restore :: "string \<Rightarrow> u8 list \<Rightarrow> AllocationBitmap \<Rightarrow> AllocationBitmap option" where
  "Bitmap_Restore rangeSpec data r =
     (if ab_rangeSpec r \<noteq> rangeSpec then None
      else Some (r\<lparr>ab_allocated := SetBytes data, ab_count := countBits (SetBytes data)\<rparr>))"

section \<open>Bits of big integers\<close>

definition bits_of :: "nat \<Rightarrow> nat list" where
  "bits_of n = filter (bit n) [0..<64 * length (Bits n)]"

lemma Bits_bound: "n < 2 ^ (64 * length (Bits n))"
proof (induction n rule: Bits.induct)
  case (1 n)
  show ?case
  proof (cases "n = 0")
    case False
    have "n = (n div 2 ^ 64) * 2 ^ 64 + n mod 2 ^ 64" by simp
    also have "\<dots> < Suc (n div 2 ^ 64) * 2 ^ 64" by simp
    also have "\<dots> \<le> 2 ^ (64 * length (Bits (n div 2 ^ 64))) * 2 ^ 64"
      by (rule mult_le_mono1) (use 1 [OF False] in simp)
    finally show ?thesis using False by (simp add: Bits.simps [of n] power_add)
  qed (simp add: Bits.simps)
qed

lemma bit_nat_bound: "bit (n::nat) i \<Longrightarrow> n < 2 ^ k \<Longrightarrow> i < k"
proof (rule ccontr)
  assume b: "bit n i" and n: "n < 2 ^ k" and "\<not> i < k"
  then have "n < 2 ^ i" using less_le_trans [OF n power_increasing [of k i]] by simp
  then show False using b by (simp add: bit_iff_odd)
qed

lemma set_bits_of [simp]: "set (bits_of n) = {i. bit n i}"
  using bit_nat_bound [OF _ Bits_bound] by (auto simp: bits_of_def)

lemma finite_nat_bits [simp]: "finite {i. bit (n::nat) i}"
  using finite_set [of "bits_of n"] by simp

lemma distinct_bits_of [simp]: "distinct (bits_of n)" "sorted (bits_of n)"
  by (simp_all add: bits_of_def sorted_wrt_filter)

lemma bits_of_0 [simp]: "bits_of 0 = []"
  by (simp add: bits_of_def)

lemma upt_shift: "[0..<k + m] = [0..<k] @ map (\<lambda>i. i + k) [0..<m]"
  using upt_add_eq_append [of 0 k m] by (simp add: map_add_upt add.commute)

lemma bits_of_step:
  assumes "n \<noteq> 0"
  shows "bits_of n = filter (bit (of_nat n :: u64)) [0..<64] @ map (\<lambda>i. i + 64) (bits_of (n div 2 ^ 64))"
proof -
  have "filter (bit n) [0..<64] = filter (bit (of_nat n :: u64)) [0..<64]"
    by (rule filter_cong) (auto simp: bit_simps)
  moreover have "(bit n \<circ> (\<lambda>i. i + 64)) = bit (n div 2 ^ 64)"
    by (simp only: fun_eq_iff comp_def drop_bit_eq_div [symmetric] bit_drop_bit_eq) (simp add: add.commute)
  ultimately show ?thesis
    using upt_shift [of 64 "64 * length (Bits (n div 2 ^ 64))"] assms
    by (simp add: bits_of_def Bits.simps [of n] filter_map)
qed

lemma countBits_card: "countBits n = int (card {i. bit n i})"
proof -
  have "foldl (\<lambda>count w. count + int (OnesCount64 w)) a (Bits n) = a + int (length (bits_of n))" for a
  proof (induction n arbitrary: a rule: Bits.induct)
    case (1 n)
    show ?case
    proof (cases "n = 0")
      case False
      then show ?thesis using 1 [OF False] by (simp add: Bits.simps [of n] bits_of_step OnesCount64_def)
    qed (simp add: Bits.simps)
  qed
  then show ?thesis using distinct_card [of "bits_of n"] by (simp add: countBits_def)
qed

lemma filter_upt_Suc: "filter P [0..<Suc m] = (if P 0 then [0] else []) @ map Suc (filter (P \<circ> Suc) [0..<m])"
  by (simp add: upt_rec [of 0 "Suc m"] map_Suc_upt [symmetric] filter_map del: upt_Suc)

lemma word_bits_filter: "word_bits w b = map (\<lambda>i. i + b) (filter (bit w) [0..<64])"
proof (induction w b rule: word_bits.induct)
  case (1 w b)
  show ?case
  proof (cases "w = 0")
    case False
    have "\<not> bit (drop_bit 1 w) 63" using bit_imp_le_length [of w 64] by (auto simp: bit_drop_bit_eq)
    then have "filter (bit (drop_bit 1 w)) [0..<64] = filter (bit w \<circ> Suc) [0..<63]"
      using upt_Suc_append [of 0 63] by (simp add: bit_drop_bit_eq comp_def)
    moreover have "w AND 1 \<noteq> 0 \<longleftrightarrow> bit w 0" by (simp add: and_one_eq bit_0 mod_2_eq_odd)
    ultimately show ?thesis
      using 1 [unfolded clear_low_bit] False filter_upt_Suc [of "bit w" 63]
      by (simp add: word_bits.simps [of w b, unfolded clear_low_bit] word_gt_0 comp_def)
  qed (simp add: word_bits.simps)
qed

lemma ForEach_bits: "Bitmap_ForEach r = bits_of (ab_allocated r)"
proof -
  have "concat (map (\<lambda>(wordIdx, word). map (\<lambda>b. wordIdx * 8 * 8 + b) (word_bits word 0)) (enumerate k (Bits n))) =
      map (\<lambda>i. i + 64 * k) (bits_of n)" for k n
  proof (induction n arbitrary: k rule: Bits.induct)
    case (1 n)
    show ?case
    proof (cases "n = 0")
      case False
      then show ?thesis
        using 1 [OF False, of "Suc k"]
        by (simp add: Bits.simps [of n] bits_of_step word_bits_filter comp_def algebra_simps)
    qed (simp add: Bits.simps)
  qed
  from this [of 0] show ?thesis by (simp add: Bitmap_ForEach_def)
qed

lemma Bytes_roundtrip: "SetBytes (Bytes n) = n"
proof -
  have "foldr (\<lambda>b n. n * 256 + unat b) (little_bytes n) 0 = n"
  proof (induction n rule: little_bytes.induct)
    case (1 n)
    then show ?case by (cases "n = 0") (simp_all add: little_bytes.simps [of n] little_bytes.simps [of 0] unat_of_nat)
  qed
  then show ?thesis by (simp add: SetBytes_def Bytes_def foldl_conv_foldr)
qed

section \<open>The scan strategies\<close>

text \<open>What the bitmap expects of a strategy.\<close>

locale bit_strategy =
  fixes alloc_bit :: "nat \<Rightarrow> int \<Rightarrow> int \<Rightarrow> nat option"
  assumes bit_free: "alloc_bit a mx c = Some i \<Longrightarrow> c < mx \<and> int i < mx \<and> \<not> bit a i"
    and bit_none: "alloc_bit a mx c = None \<Longrightarrow> c \<ge> mx \<or> (\<forall>i. int i < mx \<longrightarrow> bit a i)"
begin

lemma bit_none_full:
  assumes none: "alloc_bit a mx c = None" and c: "c = int (card {i. bit a i})" and sub: "\<forall>i. bit a i \<longrightarrow> int i < mx"
  shows "{i. bit a i} = {i. int i < mx}"
proof (cases "c \<ge> mx")
  case True
  have fin: "{i. int i < mx} = {..<nat mx}" by auto
  have "{i. bit a i} \<subseteq> {i. int i < mx}" using sub by blast
  then show ?thesis using True c unfolding fin by (intro card_seteq) (simp_all add: nat_le_iff)
next
  case False
  then show ?thesis using bit_none [OF none] sub by blast
qed

end

lemma cover_mod: "i < m \<Longrightarrow> \<exists>j < m. (k mod m + j) mod m = i" for i m k :: nat
proof (intro exI conjI)
  assume i: "i < m"
  let ?j = "(i + m - k mod m) mod m"
  show "?j < m" using i by simp
  have "k mod m \<le> i + m" using i mod_less_divisor [of m k] by linarith
  then have "(k mod m + ?j) mod m = (i + m) mod m" by (simp add: mod_add_right_eq)
  then show "(k mod m + ?j) mod m = i" using i by simp
qed

interpretation random_scan: bit_strategy "randomScan_AllocateBit rnd" for rnd
proof
  fix a mx c i
  assume "randomScan_AllocateBit rnd a mx c = Some i"
  then show "c < mx \<and> int i < mx \<and> \<not> bit a i"
    by (auto simp: randomScan_AllocateBit_def Let_def find_Some_iff zless_nat_eq_int_zless [symmetric] split: if_splits)
next
  fix a mx c
  assume none: "randomScan_AllocateBit rnd a mx c = None"
  have "bit a i" if c: "\<not> c \<ge> mx" and i: "int i < mx" for i
  proof -
    obtain j where "j < nat mx" "(rnd mod nat mx + j) mod nat mx = i"
      using cover_mod [of i "nat mx" rnd] i by (auto simp: zless_nat_eq_int_zless)
    then show ?thesis using none c by (fastforce simp: randomScan_AllocateBit_def find_None_iff)
  qed
  then show "c \<ge> mx \<or> (\<forall>i. int i < mx \<longrightarrow> bit a i)" by blast
qed

interpretation contiguous_scan: bit_strategy contiguousScan_AllocateBit
proof
  fix a mx c i
  assume "contiguousScan_AllocateBit a mx c = Some i"
  then show "c < mx \<and> int i < mx \<and> \<not> bit a i"
    by (auto simp: contiguousScan_AllocateBit_def find_Some_iff zless_nat_eq_int_zless [symmetric] split: if_splits)
next
  fix a mx c
  assume "contiguousScan_AllocateBit a mx c = None"
  then show "c \<ge> mx \<or> (\<forall>i. int i < mx \<longrightarrow> bit a i)"
    by (auto simp: contiguousScan_AllocateBit_def find_None_iff zless_nat_eq_int_zless [symmetric] split: if_splits)
qed

interpretation scan: bit_strategy "AllocateBit strategy rnd" for strategy rnd
  by (cases strategy) (simp_all add: random_scan.bit_strategy_axioms contiguous_scan.bit_strategy_axioms)

section \<open>The bitmap as an allocator\<close>

definition items :: "nat \<Rightarrow> nat set" where
  "items n = {i. bit n i}"

lemma items [simp]:
  "finite (items n)" "items 0 = {}" "items (set_bit k n) = insert k (items n)" "items (unset_bit k n) = items n - {k}"
  by (auto simp: items_def bit_set_bit_iff bit_unset_bit_iff)

lemma bit_items: "bit n i \<longleftrightarrow> i \<in> items n" for n :: nat
  by (simp add: items_def)

definition allocated_items :: "AllocationBitmap \<Rightarrow> nat set" where
  "allocated_items r = items (ab_allocated r)"

definition bitmap_inv :: "AllocationBitmap \<Rightarrow> bool" where
  "bitmap_inv r \<longleftrightarrow> ab_count r = int (card (allocated_items r)) \<and> (\<forall>i \<in> allocated_items r. int i < ab_max r)"

definition free_items :: "AllocationBitmap \<Rightarrow> nat set" where
  "free_items r = {i. int i < ab_max r} - allocated_items r"

lemma finite_items [simp]: "finite (allocated_items r)" "finite (free_items r)"
proof -
  have "{i. int i < ab_max r} = {..<nat (ab_max r)}" by auto
  then show "finite (free_items r)" by (simp add: free_items_def)
qed (simp add: allocated_items_def)

lemma Bitmap_Allocate_ok:
  assumes "bitmap_inv r" "int offset < ab_max r" "Bitmap_Allocate offset r = (ok, r')"
  shows "bitmap_inv r' \<and> (ok \<longleftrightarrow> offset \<notin> allocated_items r) \<and> allocated_items r' = insert offset (allocated_items r) \<and>
    ab_max r' = ab_max r \<and> ab_rangeSpec r' = ab_rangeSpec r"
  using assms finite_items(1) [of r]
  by (auto simp: Bitmap_Allocate_def bitmap_inv_def allocated_items_def bit_items split: if_splits)

lemma Bitmap_Release_ok:
  assumes "bitmap_inv r"
  shows "bitmap_inv (Bitmap_Release offset r) \<and> allocated_items (Bitmap_Release offset r) = allocated_items r - {offset} \<and>
    ab_max (Bitmap_Release offset r) = ab_max r \<and> ab_rangeSpec (Bitmap_Release offset r) = ab_rangeSpec r"
proof (cases "bit (ab_allocated r) offset")
  case True
  then have "card (allocated_items r - {offset}) = card (allocated_items r) - 1" "card (allocated_items r) > 0"
    by (auto simp: allocated_items_def bit_items card_gt_0_iff)
  then show ?thesis
    using assms True by (simp add: Bitmap_Release_def bitmap_inv_def allocated_items_def bit_items)
qed (use assms in \<open>auto simp: Bitmap_Release_def allocated_items_def bit_items\<close>)

lemma Bitmap_AllocateNext_ok:
  assumes "bitmap_inv r" "Bitmap_AllocateNext rnd r = Some (i, r')"
  shows "i \<in> free_items r \<and> bitmap_inv r' \<and> allocated_items r' = insert i (allocated_items r) \<and>
    ab_max r' = ab_max r \<and> ab_rangeSpec r' = ab_rangeSpec r"
proof -
  have a: "AllocateBit (ab_strategy r) rnd (ab_allocated r) (ab_max r) (ab_count r) = Some i"
    and r': "r' = r\<lparr>ab_count := ab_count r + 1, ab_allocated := set_bit i (ab_allocated r)\<rparr>"
    using assms(2) by (auto simp: Bitmap_AllocateNext_def split: option.splits)
  show ?thesis
    using scan.bit_free [OF a] assms(1) finite_items(1) [of r]
    by (auto simp: r' bitmap_inv_def free_items_def allocated_items_def bit_items)
qed

lemma Bitmap_AllocateNext_none:
  assumes "bitmap_inv r" "Bitmap_AllocateNext rnd r = None"
  shows "free_items r = {}"
proof -
  have "AllocateBit (ab_strategy r) rnd (ab_allocated r) (ab_max r) (ab_count r) = None"
    using assms(2) by (auto simp: Bitmap_AllocateNext_def split: option.splits)
  from scan.bit_none_full [OF this] assms(1) show ?thesis
    by (simp add: bitmap_inv_def allocated_items_def items_def free_items_def)
qed

interpretation bitmap_pool: pool bitmap_inv free_items Bitmap_AllocateNext
proof
  fix r rnd i r'
  assume "bitmap_inv r" "Bitmap_AllocateNext rnd r = Some (i, r')"
  from Bitmap_AllocateNext_ok [OF this] show "i \<in> free_items r \<and> free_items r' = free_items r - {i} \<and> bitmap_inv r'"
    by (auto simp: free_items_def)
qed (simp_all add: Bitmap_AllocateNext_none)

lemma NewAllocationMap_ok:
  "bitmap_inv (NewAllocationMap mx spec)" "allocated_items (NewAllocationMap mx spec) = {}"
  "ab_max (NewAllocationMap mx spec) = mx" "ab_rangeSpec (NewAllocationMap mx spec) = spec"
  by (simp_all add: NewAllocationMap_def bitmap_inv_def allocated_items_def)

lemma Bitmap_Restore_snapshot:
  assumes "bitmap_inv q" "ab_rangeSpec r = spec"
  shows "Bitmap_Restore spec (snd (Bitmap_Snapshot q)) r =
    Some (r\<lparr>ab_allocated := ab_allocated q, ab_count := ab_count q\<rparr>)"
  using assms
  by (simp add: Bitmap_Restore_def Bitmap_Snapshot_def Bytes_roundtrip countBits_card bitmap_inv_def allocated_items_def items_def)

end
