(* ===== verification/NetipBits.thy ===== *)
theory NetipBits
  imports Netip
begin

text \<open>
  Addresses as numbers: the conversions of package \<^verbatim>\<open>net/netip\<close> to bytes, the halves of an IPv6
  address, and the arithmetic of addresses and masks.  The conversion of an address to four bytes
  panics for an IPv6 address: the result \<^verbatim>\<open>None\<close>.
\<close>

section \<open>Conversions\<close>

fun Addr_Next :: "Addr \<Rightarrow> Addr" where
  "Addr_Next AddrZero = AddrZero"
| "Addr_Next (Addr4 a) = (if a + 1 = 0 then AddrZero else Addr4 (a + 1))"
| "Addr_Next (Addr6 a) = (if a + 1 = 0 then AddrZero else Addr6 (a + 1))"

fun As4 :: "Addr \<Rightarrow> u32 option" where
  "As4 AddrZero = None"
| "As4 (Addr4 a) = Some a"
| "As4 (Addr6 a) = (if drop_bit 32 a = 0xffff then Some (ucast a) else None)"

fun As16 :: "Addr \<Rightarrow> u128" where
  "As16 AddrZero = 0"
| "As16 (Addr4 a) = 0xffff00000000 OR ucast a"
| "As16 (Addr6 a) = a"

text \<open>The upper and the lower half of an IPv6 address.\<close>

definition upper64 :: "u128 \<Rightarrow> u64" where
  "upper64 a = ucast (drop_bit 64 a)"

definition lower64 :: "u128 \<Rightarrow> u64" where
  "lower64 a = ucast a"

definition join64 :: "u64 \<Rightarrow> u64 \<Rightarrow> u128" where
  "join64 hi lo = push_bit 64 (ucast hi) OR ucast lo"

fun addr_val :: "Addr \<Rightarrow> nat" where
  "addr_val AddrZero = 0"
| "addr_val (Addr4 a) = unat a"
| "addr_val (Addr6 a) = unat a"

section \<open>Halves of an IPv6 address\<close>

lemma unat_upper: "unat (upper64 a) = unat a div 2 ^ 64"
proof -
  have "unat a < 2 ^ 128" using unsigned_less [of a] by simp
  then have "unat a div 2 ^ 64 < 2 ^ 64" by (simp add: less_mult_imp_div_less)
  then show ?thesis
    by (simp add: upper64_def unsigned_ucast_eq drop_bit_eq_div take_bit_eq_mod unat_div_distrib)
qed

lemma unat_lower: "unat (lower64 a) = unat a mod 2 ^ 64"
  by (simp add: lower64_def unsigned_ucast_eq take_bit_eq_mod)

lemma unat_halves: "unat a = unat (upper64 a) * 2 ^ 64 + unat (lower64 a)"
  by (simp add: unat_upper unat_lower)

lemma unat_of_nat128: "n < 2 ^ 128 \<Longrightarrow> unat (of_nat n :: u128) = n"
  by (simp add: unat_of_nat)

lemma unat_join: "unat (join64 hi lo) = unat hi * 2 ^ 64 + unat lo"
proof -
  have disj: "push_bit 64 (ucast hi :: u128) AND ucast lo = 0"
    by (rule bit_word_eqI) (auto simp: bit_simps dest: bit_imp_le_length)
  have hi: "unat hi < 2 ^ 64" and lo: "unat lo < 2 ^ 64" using unsigned_less [of hi] unsigned_less [of lo] by simp_all
  have sum: "unat hi * 2 ^ 64 + unat lo < 2 ^ 128"
  proof -
    have "unat hi * 2 ^ 64 + unat lo < Suc (unat hi) * 2 ^ 64" using lo by simp
    also have "\<dots> \<le> 2 ^ 64 * 2 ^ 64" using hi by (intro mult_le_mono1) simp
    finally show ?thesis by simp
  qed
  have "join64 hi lo = push_bit 64 (ucast hi) + ucast lo" unfolding join64_def by (rule disjunctive_add_eq_or [OF disj, symmetric])
  also have "\<dots> = of_nat (unat hi * 2 ^ 64 + unat lo)"
    by (simp add: push_bit_eq_mult)
  finally show ?thesis by (simp only: unat_of_nat128 [OF sum])
qed

section \<open>Arithmetic of addresses and masks\<close>

lemma word_offset:
  fixes b :: "'a::len word"
  assumes "unat b + off < 2 ^ LENGTH('a)"
  shows "unat (b + of_nat off) = unat b + off" "b \<le> b + of_nat off" "(b + of_nat off) - b = of_nat off"
    "unat (of_nat off :: 'a word) = off"
proof -
  show "unat (of_nat off :: 'a word) = off" using assms by (simp add: unat_of_nat)
  then show "unat (b + of_nat off) = unat b + off" using assms by (simp add: unat_word_ariths)
  then show "b \<le> b + of_nat off" by (simp add: word_le_nat_alt)
qed simp

lemma unat_keep_bits:
  fixes w :: "'a::len word"
  assumes "n \<le> LENGTH('a)"
  shows "unat (keep_bits n w) = (unat w div 2 ^ (LENGTH('a) - n)) * 2 ^ (LENGTH('a) - n)"
proof -
  let ?h = "LENGTH('a) - n"
  have lt: "unat w div 2 ^ ?h * 2 ^ ?h < 2 ^ LENGTH('a)"
    using unsigned_less [of w] div_times_less_eq_dividend le_less_trans by blast
  have "unat (drop_bit ?h w) = unat w div 2 ^ ?h"
    by (simp only: unsigned_drop_bit_eq) (simp add: drop_bit_eq_div take_bit_nat_eq_self)
  moreover have "unat (push_bit ?h (drop_bit ?h w)) = unat (drop_bit ?h w) * 2 ^ ?h mod 2 ^ LENGTH('a)"
    by (simp only: unsigned_push_bit_eq) (simp add: push_bit_eq_mult take_bit_eq_mod)
  ultimately show ?thesis using lt by (simp add: keep_bits_def)
qed

lemma keep_bits_div_iff:
  fixes v w :: "'a::len word"
  assumes "n \<le> LENGTH('a)"
  shows "keep_bits n v = keep_bits n w \<longleftrightarrow> unat v div 2 ^ (LENGTH('a) - n) = unat w div 2 ^ (LENGTH('a) - n)"
  by (simp add: word_unat_eq_iff unat_keep_bits [OF assms])

lemma keep_bits_offset:
  fixes w :: "'a::len word"
  assumes "n \<le> LENGTH('a)" "off < 2 ^ (LENGTH('a) - n)"
  shows "unat (keep_bits n w) + off < 2 ^ LENGTH('a)" "keep_bits n (keep_bits n w + of_nat off) = keep_bits n w"
proof -
  let ?h = "LENGTH('a) - n"
  have q: "unat w div 2 ^ ?h < 2 ^ n"
    using unsigned_less [of w] assms(1) by (intro less_mult_imp_div_less) (simp add: power_add [symmetric])
  have "unat w div 2 ^ ?h * 2 ^ ?h + off < Suc (unat w div 2 ^ ?h) * 2 ^ ?h" using assms(2) by simp
  also have "\<dots> \<le> 2 ^ n * 2 ^ ?h" using q by (intro mult_le_mono1) simp
  finally show lt: "unat (keep_bits n w) + off < 2 ^ LENGTH('a)"
    using assms(1) by (simp add: unat_keep_bits [OF assms(1)] power_add [symmetric])
  show "keep_bits n (keep_bits n w + of_nat off) = keep_bits n w"
    using assms(2) by (simp add: keep_bits_div_iff [OF assms(1)] word_offset(1) [OF lt] unat_keep_bits [OF assms(1)])
qed

end
