(* ===== verification/IpAllocator.thy ===== *)
theory IpAllocator
  imports Bitmap NetipBits "HOL-Library.Monad_Syntax"
begin

text \<open>
  The allocator of the addresses of a prefix (\<^verbatim>\<open>pkg/ipam/service/ipallocator\<close>).  The text of a
  prefix is an argument of the operations that print it.
\<close>

section \<open>Addresses\<close>

definition addOffset :: "Addr \<Rightarrow> nat \<Rightarrow> Addr" where
  "addOffset base offset =
     (case base of
        Addr4 b \<Rightarrow> Addr4 (b + of_nat offset)
      | _ \<Rightarrow>
          let hi = upper64 (As16 base); lo = lower64 (As16 base);
              newLo = lo + of_nat offset;
              hi = (if newLo < lo then hi + 1 else hi)
          in Addr6 (join64 hi newLo))"

definition addrOffset :: "Addr \<Rightarrow> Addr \<Rightarrow> (nat \<times> bool) option" where
  "addrOffset base addr =
     (case base of
        Addr4 baseValue \<Rightarrow>
          do {
            addrValue \<leftarrow> As4 addr;
            if addrValue < baseValue then Some (0, False)
            else
              let offset = addrValue - baseValue in
              if (ucast offset :: u64) > 2 ^ 63 - 1 then Some (0, False) else Some (unat offset, True)
          }
      | _ \<Rightarrow>
          let baseHi = upper64 (As16 base); baseLo = lower64 (As16 base);
              addrHi = upper64 (As16 addr); addrLo = lower64 (As16 addr)
          in if addrHi < baseHi \<or> addrHi = baseHi \<and> addrLo < baseLo then Some (0, False)
             else
               let hi = addrHi - baseHi; lo = addrLo - baseLo;
                   hi = (if addrLo < baseLo then hi - 1 else hi)
               in if hi \<noteq> 0 then Some (0, False)
                  else if lo > 2 ^ 63 - 1 then Some (0, False)
                  else Some (unat lo, True))"

definition RangeSize :: "Prefix \<Rightarrow> int" where
  "RangeSize p =
     (let bits = int (BitLen (pf_ip p)); ones = pf_bits p in
      if bits = 32 \<and> bits - ones \<ge> 31 \<or> bits = 128 \<and> bits - ones \<ge> 127 then 0
      else if bits = 128 \<and> bits - ones \<ge> 16 then 2 ^ 16
      else 2 ^ nat (bits - ones))"

section \<open>Ranges\<close>

datatype rangeError = ErrFull | ErrNotInRange string | ErrAllocated | ErrMismatchedNetwork | ErrRestore

record cidrRangeOptions =
  allowFirstIP :: bool
  allowLastIP :: bool

datatype CIDRRangeOption = WithAllowFirstIP | WithAllowLastIP | WithAllowFirstLastIPs

fun apply_option :: "CIDRRangeOption \<Rightarrow> cidrRangeOptions \<Rightarrow> cidrRangeOptions" where
  "apply_option WithAllowFirstIP opts = opts\<lparr>allowFirstIP := True\<rparr>"
| "apply_option WithAllowLastIP opts = opts\<lparr>allowLastIP := True\<rparr>"
| "apply_option WithAllowFirstLastIPs opts = opts\<lparr>allowFirstIP := True, allowLastIP := True\<rparr>"

record Range =
  rg_prefix :: Prefix
  rg_base :: Addr
  rg_max :: int
  rg_alloc :: AllocationBitmap

definition NewCIDRRange :: "(Prefix \<Rightarrow> string) \<Rightarrow> Prefix \<Rightarrow> CIDRRangeOption list \<Rightarrow> Range" where
  "NewCIDRRange pstr prefix opts =
     (let opt = fold apply_option opts \<lparr>allowFirstIP = False, allowLastIP = False\<rparr>;
          prefix = Masked prefix; base = pf_ip prefix; size = RangeSize prefix;
          (size', base') =
            (if size > 2 then
               let (size1, base1) = (if \<not> allowFirstIP opt then (size - 1, Addr_Next base) else (size, base))
               in (if \<not> allowLastIP opt then size1 - 1 else size1, base1)
             else (size, base))
      in \<lparr>rg_prefix = prefix, rg_base = base', rg_max = size', rg_alloc = NewAllocationMap size' (pstr prefix)\<rparr>)"

definition Range_Free :: "Range \<Rightarrow> int" where
  "Range_Free r = Bitmap_Free (rg_alloc r)"

definition Range_Used :: "Range \<Rightarrow> int" where
  "Range_Used r = rg_max r - Bitmap_Free (rg_alloc r)"

definition CIDR :: "Range \<Rightarrow> Prefix" where
  "CIDR r = rg_prefix r"

definition Range_contains :: "Range \<Rightarrow> Addr \<Rightarrow> (bool \<times> nat) option" where
  "Range_contains r ip =
     (if \<not> Prefix_Contains (rg_prefix r) ip then Some (False, 0)
      else do {
        (offset, ok) \<leftarrow> addrOffset (rg_base r) ip;
        if \<not> ok \<or> int offset \<ge> rg_max r then Some (False, 0) else Some (True, offset)
      })"

definition Range_Allocate :: "(Prefix \<Rightarrow> string) \<Rightarrow> Addr \<Rightarrow> Range \<Rightarrow> (rangeError option \<times> Range) option" where
  "Range_Allocate pstr ip r = do {
     (ok, offset) \<leftarrow> Range_contains r ip;
     if \<not> ok then Some (Some (ErrNotInRange (pstr (rg_prefix r))), r)
     else
       let (allocated, a) = Bitmap_Allocate offset (rg_alloc r) in
       Some (if \<not> allocated then Some ErrAllocated else None, r\<lparr>rg_alloc := a\<rparr>)
   }"

text \<open>The result \<^verbatim>\<open>None\<close> is the error \<^verbatim>\<open>ErrFull\<close>, the only one of this operation.\<close>

definition Range_AllocateNext :: "nat \<Rightarrow> Range \<Rightarrow> (Addr \<times> Range) option" where
  "Range_AllocateNext rnd r =
     (case Bitmap_AllocateNext rnd (rg_alloc r) of
        None \<Rightarrow> None
      | Some (offset, a) \<Rightarrow> Some (addOffset (rg_base r) offset, r\<lparr>rg_alloc := a\<rparr>))"

definition Range_Release :: "Addr \<Rightarrow> Range \<Rightarrow> Range option" where
  "Range_Release ip r = do {
     (ok, offset) \<leftarrow> Range_contains r ip;
     Some (if ok then r\<lparr>rg_alloc := Bitmap_Release offset (rg_alloc r)\<rparr> else r)
   }"

definition Range_ForEach :: "Range \<Rightarrow> Addr list" where
  "Range_ForEach r = map (addOffset (rg_base r)) (Bitmap_ForEach (rg_alloc r))"

definition Range_Has :: "Addr \<Rightarrow> Range \<Rightarrow> bool option" where
  "Range_Has ip r = do {
     (ok, offset) \<leftarrow> Range_contains r ip;
     Some (if \<not> ok then False else Bitmap_Has offset (rg_alloc r))
   }"

definition Range_Snapshot :: "Range \<Rightarrow> string \<times> u8 list" where
  "Range_Snapshot r = Bitmap_Snapshot (rg_alloc r)"

definition Range_Restore :: "(Prefix \<Rightarrow> string) \<Rightarrow> Prefix \<Rightarrow> u8 list \<Rightarrow> Range \<Rightarrow> rangeError option \<times> Range" where
  "Range_Restore pstr prefix data r =
     (if prefix \<noteq> rg_prefix r then (Some ErrMismatchedNetwork, r)
      else case Bitmap_Restore (pstr prefix) data (rg_alloc r) of
        None \<Rightarrow> (Some ErrRestore, r)
      | Some a \<Rightarrow> (None, r\<lparr>rg_alloc := a\<rparr>))"

section \<open>Offsets of IPv6 addresses\<close>

lemma addOffset6:
  assumes "off < 2 ^ 64"
  shows "addOffset (Addr6 a) off = Addr6 (a + of_nat off)"
proof -
  let ?H = "unat (upper64 a)" and ?L = "unat (lower64 a)" and ?new = "lower64 a + of_nat off"
  have hl: "?H < 2 ^ 64" "?L < 2 ^ 64" using unsigned_less [of "upper64 a"] unsigned_less [of "lower64 a"] by simp_all
  have new: "unat ?new = (?L + off) mod 2 ^ 64" by (simp add: unat_word_ariths unat_of_nat mod_add_right_eq)
  have "unat (of_nat off :: u128) = off" by (rule unat_of_nat128) (use assms in simp)
  then have a: "unat (a + of_nat off) = (?H * 2 ^ 64 + (?L + off)) mod 2 ^ 128"
    by (simp add: unat_word_ariths unat_halves [of a] add.assoc)
  have "join64 (if ?new < lower64 a then upper64 a + 1 else upper64 a) ?new = a + of_nat off"
  proof (cases "?L + off < 2 ^ 64")
    case True
    then have "\<not> ?new < lower64 a" "unat ?new = ?L + off" using new by (simp_all add: word_less_nat_alt)
    moreover have "?H * 2 ^ 64 + (?L + off) < 2 ^ 128" using hl True by simp
    ultimately show ?thesis using a by (simp add: word_unat_eq_iff unat_join)
  next
    case False
    then have v: "unat ?new = ?L + off - 2 ^ 64" using new assms hl by (simp add: mod_if)
    then have lt: "?new < lower64 a" using assms False by (simp add: word_less_nat_alt)
    have H: "unat (upper64 a + 1) = (if ?H + 1 = 2 ^ 64 then 0 else ?H + 1)"
      using hl by (auto simp: unat_word_ariths)
    show ?thesis
    proof (cases "?H = 2 ^ 64 - 1")
      case True
      then show ?thesis using a v lt hl False assms H by (simp add: word_unat_eq_iff unat_join mod_if)
    next
      case False
      then have "(?H + 1) * 2 ^ 64 + (?L + off - 2 ^ 64) < 2 ^ 128" using hl assms by simp
      then show ?thesis using a v lt hl \<open>\<not> ?L + off < 2 ^ 64\<close> False H by (simp add: word_unat_eq_iff unat_join)
    qed
  qed
  then show ?thesis by (simp add: addOffset_def Let_def)
qed

lemma addrOffset6:
  "addrOffset (Addr6 b) (Addr6 a) =
     Some (if b \<le> a \<and> unat (a - b) < 2 ^ 63 then (unat (a - b), True) else (0, False))"
proof -
  let ?BH = "unat (upper64 b)" and ?BL = "unat (lower64 b)" and ?AH = "unat (upper64 a)" and ?AL = "unat (lower64 a)"
  have r: "?BH < 2 ^ 64" "?BL < 2 ^ 64" "?AH < 2 ^ 64" "?AL < 2 ^ 64"
    using unsigned_less [of "upper64 a"] unsigned_less [of "lower64 a"] unsigned_less [of "upper64 b"] unsigned_less [of "lower64 b"] by simp_all
  have le: "b \<le> a \<longleftrightarrow> \<not> (upper64 a < upper64 b \<or> upper64 a = upper64 b \<and> lower64 a < lower64 b)"
    using r by (auto simp: word_le_nat_alt word_less_nat_alt word_unat_eq_iff unat_halves [of a] unat_halves [of b])
  show ?thesis
  proof (cases "b \<le> a")
    case True
    then have d: "unat (a - b) = ?AH * 2 ^ 64 + ?AL - (?BH * 2 ^ 64 + ?BL)"
      by (simp add: unat_sub unat_halves [of a] unat_halves [of b])
    have ge: "?BH * 2 ^ 64 + ?BL \<le> ?AH * 2 ^ 64 + ?AL"
      using True by (simp add: word_le_nat_alt unat_halves [of a] unat_halves [of b])
    define hi where "hi = (if lower64 a < lower64 b then upper64 a - upper64 b - 1 else upper64 a - upper64 b)"
    define lo where "lo = lower64 a - lower64 b"
    have "unat (a - b) = unat hi * 2 ^ 64 + unat lo"
    proof (cases "lower64 a < lower64 b")
      case lt: True
      then have "unat lo = ?AL + 2 ^ 64 - ?BL" using r by (simp add: lo_def unat_sub_if' word_le_nat_alt word_less_nat_alt)
      moreover have "?BH < ?AH" using lt ge r by (simp add: word_less_nat_alt)
      then have "unat hi = ?AH - ?BH - 1" using lt by (simp add: hi_def unat_sub_if' word_le_nat_alt)
      ultimately show ?thesis using d r lt \<open>?BH < ?AH\<close> by (simp add: word_less_nat_alt algebra_simps)
    next
      case nl: False
      then have "unat lo = ?AL - ?BL" by (simp add: lo_def unat_sub_if' word_le_nat_alt word_less_nat_alt)
      moreover have "?BH \<le> ?AH" using ge r by simp
      then have "unat hi = ?AH - ?BH" using nl by (simp add: hi_def unat_sub_if' word_le_nat_alt)
      ultimately show ?thesis using d nl \<open>?BH \<le> ?AH\<close> by (simp add: word_less_nat_alt algebra_simps)
    qed
    moreover have "hi \<noteq> 0 \<longleftrightarrow> unat hi \<ge> 1" by (simp add: word_unat_eq_iff Suc_le_eq)
    moreover have "lo > 2 ^ 63 - 1 \<longleftrightarrow> unat lo \<ge> 2 ^ 63" by (simp add: word_less_nat_alt less_eq_Suc_le)
    ultimately show ?thesis
      using True le by (auto simp: addrOffset_def Let_def hi_def [symmetric] lo_def [symmetric])
  next
    case False
    then show ?thesis using le by (simp add: addrOffset_def Let_def)
  qed
qed

section \<open>Offsets\<close>

lemma addOffset4: "addOffset (Addr4 b) off = Addr4 (b + of_nat off)"
  by (simp add: addOffset_def)

lemma addrOffset4: "addrOffset (Addr4 b) (Addr4 a) = Some (if b \<le> a then (unat (a - b), True) else (0, False))"
proof -
  have "unat (ucast (a - b) :: u64) = unat (a - b)" by (simp add: unsigned_ucast_eq take_bit_nat_eq_self unsigned_less [THEN less_le_trans])
  moreover have "unat (a - b) < 2 ^ 32" using unsigned_less [of "a - b"] by simp
  ultimately have "\<not> (ucast (a - b) :: u64) > 2 ^ 63 - 1" by (simp add: word_less_nat_alt)
  then show ?thesis by (auto simp: addrOffset_def)
qed

lemma addOffset_val:
  assumes "base \<noteq> AddrZero" "off < 2 ^ 63" "addr_val base + off < 2 ^ BitLen base"
  shows "addr_val (addOffset base off) = addr_val base + off" "BitLen (addOffset base off) = BitLen base"
    "addrOffset base (addOffset base off) = Some (off, True)"
proof -
  have "addr_val (addOffset base off) = addr_val base + off \<and> BitLen (addOffset base off) = BitLen base \<and>
    addrOffset base (addOffset base off) = Some (off, True)"
  proof (cases base)
    case (Addr4 b)
    then show ?thesis using word_offset [of b off] assms by (simp add: addOffset4 addrOffset4)
  next
    case (Addr6 b)
    have off: "off < 2 ^ 64" using assms(2) by simp
    show ?thesis using Addr6 word_offset [of b off] assms by (simp add: addOffset6 [OF off] addrOffset6)
  qed (use assms in simp)
  then show "addr_val (addOffset base off) = addr_val base + off" "BitLen (addOffset base off) = BitLen base"
    "addrOffset base (addOffset base off) = Some (off, True)" by blast+
qed

lemma addrOffset_sound:
  assumes "base \<noteq> AddrZero" "BitLen ip = BitLen base"
  shows "\<exists>off ok. addrOffset base ip = Some (off, ok) \<and> (ok \<longrightarrow> ip = addOffset base off \<and> off < 2 ^ 63)"
proof (cases base)
  case (Addr4 b)
  then obtain a where ip: "ip = Addr4 a" using assms(2) by (cases ip) auto
  have "unat (a - b) < 2 ^ 32" using unsigned_less [of "a - b"] by simp
  then show ?thesis using Addr4 ip by (auto simp: addrOffset4 addOffset4)
next
  case (Addr6 b)
  then obtain a where ip: "ip = Addr6 a" using assms(2) by (cases ip) auto
  show ?thesis using Addr6 ip by (auto simp: addrOffset6 addOffset6)
qed (use assms in simp)

section \<open>Ranges of addresses\<close>

text \<open>All addresses of the range are addresses of the prefix, and no offset wraps around.\<close>

definition range_ok :: "Prefix \<Rightarrow> Addr \<Rightarrow> int \<Rightarrow> bool" where
  "range_ok p base mx \<longleftrightarrow>
     base \<noteq> AddrZero \<and> BitLen base = BitLen (pf_ip p) \<and> 0 \<le> mx \<and> mx \<le> 2 ^ 31 \<and>
     (\<forall>off. int off < mx \<longrightarrow> addr_val base + off < 2 ^ BitLen base \<and> Prefix_Contains p (addOffset base off))"

definition range_addrs :: "Range \<Rightarrow> Addr set" where
  "range_addrs r = addOffset (rg_base r) ` {off. int off < rg_max r}"

definition allocated_addrs :: "Range \<Rightarrow> Addr set" where
  "allocated_addrs r = addOffset (rg_base r) ` allocated_items (rg_alloc r)"

definition free_addrs :: "Range \<Rightarrow> Addr set" where
  "free_addrs r = range_addrs r - allocated_addrs r"

definition range_inv :: "Range \<Rightarrow> bool" where
  "range_inv r \<longleftrightarrow>
     range_ok (rg_prefix r) (rg_base r) (rg_max r) \<and> bitmap_inv (rg_alloc r) \<and> ab_max (rg_alloc r) = rg_max r"

lemma range_ok_offset:
  assumes "range_ok p base mx" "int off < mx"
  shows "addrOffset base (addOffset base off) = Some (off, True)" "addr_val (addOffset base off) = addr_val base + off"
    "Prefix_Contains p (addOffset base off)"
proof -
  have *: "base \<noteq> AddrZero" "off < 2 ^ 63" "addr_val base + off < 2 ^ BitLen base"
    using assms by (auto simp: range_ok_def)
  show "addrOffset base (addOffset base off) = Some (off, True)" "addr_val (addOffset base off) = addr_val base + off"
    using addOffset_val [OF *] by blast+
qed (use assms in \<open>auto simp: range_ok_def\<close>)

lemma addOffset_inj: "range_ok p base mx \<Longrightarrow> inj_on (addOffset base) {off. int off < mx}"
  by (rule inj_onI) (metis range_ok_offset(2) add_left_cancel mem_Collect_eq)

lemma Range_contains_iff:
  assumes "range_inv r"
  shows "\<exists>ok off. Range_contains r ip = Some (ok, off) \<and> (ok \<longleftrightarrow> ip \<in> range_addrs r) \<and>
    (ok \<longrightarrow> int off < rg_max r \<and> ip = addOffset (rg_base r) off)"
proof (cases "Prefix_Contains (rg_prefix r) ip")
  case True
  have ok: "range_ok (rg_prefix r) (rg_base r) (rg_max r)" using assms by (simp add: range_inv_def)
  have "BitLen ip = BitLen (rg_base r)" "rg_base r \<noteq> AddrZero"
    using True ok by (simp_all add: Prefix_Contains_def range_ok_def)
  from addrOffset_sound [OF this(2,1)] obtain off valid where
    a: "addrOffset (rg_base r) ip = Some (off, valid)" "valid \<Longrightarrow> ip = addOffset (rg_base r) off" by blast
  have "off' = off \<and> valid" if "int off' < rg_max r" "ip = addOffset (rg_base r) off'" for off'
    using range_ok_offset(1) [OF ok that(1)] a(1) that(2) by simp
  then have "ip \<in> range_addrs r \<longleftrightarrow> valid \<and> int off < rg_max r" using a(2) unfolding range_addrs_def by blast
  then show ?thesis using True a by (auto simp: Range_contains_def)
next
  case False
  have "ip \<notin> range_addrs r" using False assms range_ok_offset(3) by (auto simp: range_addrs_def range_inv_def)
  then show ?thesis using False by (auto simp: Range_contains_def)
qed

lemma allocated_iff:
  assumes "range_inv r" "int off < rg_max r"
  shows "addOffset (rg_base r) off \<in> allocated_addrs r \<longleftrightarrow> off \<in> allocated_items (rg_alloc r)"
proof
  assume "addOffset (rg_base r) off \<in> allocated_addrs r"
  then obtain off' where o: "off' \<in> allocated_items (rg_alloc r)" "addOffset (rg_base r) off = addOffset (rg_base r) off'"
    by (auto simp: allocated_addrs_def)
  then have "int off' < rg_max r" using assms(1) by (auto simp: range_inv_def bitmap_inv_def)
  then show "off \<in> allocated_items (rg_alloc r)"
    using o assms addOffset_inj by (auto simp: range_inv_def dest: inj_onD)
qed (auto simp: allocated_addrs_def)

lemma range_cards:
  assumes "range_inv r"
  shows "allocated_addrs r \<subseteq> range_addrs r" "card (allocated_addrs r) = card (allocated_items (rg_alloc r))"
    "card (range_addrs r) = nat (rg_max r)" "finite (range_addrs r)" "finite (allocated_addrs r)"
proof -
  have sub: "allocated_items (rg_alloc r) \<subseteq> {off. int off < rg_max r}"
    using assms by (auto simp: range_inv_def bitmap_inv_def)
  have inj: "inj_on (addOffset (rg_base r)) {off. int off < rg_max r}"
    using assms addOffset_inj by (auto simp: range_inv_def)
  have off: "{off. int off < rg_max r} = {..<nat (rg_max r)}" by auto
  show "allocated_addrs r \<subseteq> range_addrs r" using sub by (auto simp: allocated_addrs_def range_addrs_def)
  show "card (allocated_addrs r) = card (allocated_items (rg_alloc r))"
    unfolding allocated_addrs_def by (rule card_image [OF inj_on_subset [OF inj sub]])
  show "card (range_addrs r) = nat (rg_max r)"
    unfolding range_addrs_def card_image [OF inj] by (simp add: off)
  show "finite (range_addrs r)" by (simp add: range_addrs_def off)
qed (simp add: allocated_addrs_def)

section \<open>The operations\<close>

lemma Range_Allocate_ok:
  assumes inv: "range_inv r"
  shows "\<exists>err r'. Range_Allocate pstr ip r = Some (err, r') \<and> range_inv r' \<and> range_addrs r' = range_addrs r \<and>
    rg_prefix r' = rg_prefix r \<and>
    (if ip \<notin> range_addrs r then err = Some (ErrNotInRange (pstr (rg_prefix r))) \<and> allocated_addrs r' = allocated_addrs r
     else if ip \<in> allocated_addrs r then err = Some ErrAllocated \<and> allocated_addrs r' = allocated_addrs r
     else err = None \<and> allocated_addrs r' = insert ip (allocated_addrs r))"
proof -
  obtain ok off where c: "Range_contains r ip = Some (ok, off)" "ok \<longleftrightarrow> ip \<in> range_addrs r"
    "ok \<Longrightarrow> int off < rg_max r \<and> ip = addOffset (rg_base r) off" using Range_contains_iff [OF inv, of ip] by blast
  show ?thesis
  proof (cases ok)
    case True
    obtain fresh a where a: "Bitmap_Allocate off (rg_alloc r) = (fresh, a)" by (rule prod.exhaust)
    have "bitmap_inv (rg_alloc r)" "int off < ab_max (rg_alloc r)" using inv c(3) True by (auto simp: range_inv_def)
    note b = Bitmap_Allocate_ok [OF this a]
    define r' where "r' = r\<lparr>rg_alloc := a\<rparr>"
    have "Range_Allocate pstr ip r = Some (if fresh then None else Some ErrAllocated, r')"
      using c(1) True a by (simp add: Range_Allocate_def r'_def)
    moreover have "range_inv r'" "range_addrs r' = range_addrs r" "rg_prefix r' = rg_prefix r"
      using inv b by (simp_all add: range_inv_def range_addrs_def r'_def)
    moreover have "allocated_addrs r' = insert ip (allocated_addrs r)"
      using b c(3) [OF True] by (simp add: allocated_addrs_def r'_def)
    moreover have "fresh \<longleftrightarrow> ip \<notin> allocated_addrs r" using allocated_iff [OF inv, of off] c(3) [OF True] b by simp
    ultimately show ?thesis using c(2) True by (cases fresh) (simp_all add: insert_absorb)
  qed (use c inv in \<open>auto simp: Range_Allocate_def\<close>)
qed

lemma Range_Release_ok:
  assumes inv: "range_inv r"
  shows "\<exists>r'. Range_Release ip r = Some r' \<and> range_inv r' \<and> range_addrs r' = range_addrs r \<and>
    allocated_addrs r' = allocated_addrs r - {ip} \<and> rg_prefix r' = rg_prefix r"
proof -
  obtain ok off where c: "Range_contains r ip = Some (ok, off)" "ok \<longleftrightarrow> ip \<in> range_addrs r"
    "ok \<Longrightarrow> int off < rg_max r \<and> ip = addOffset (rg_base r) off" using Range_contains_iff [OF inv, of ip] by blast
  show ?thesis
  proof (cases ok)
    case True
    define r' where "r' = r\<lparr>rg_alloc := Bitmap_Release off (rg_alloc r)\<rparr>"
    have "bitmap_inv (rg_alloc r)" using inv by (auto simp: range_inv_def)
    note b = Bitmap_Release_ok [OF this, of off]
    have inj: "inj_on (addOffset (rg_base r)) {off. int off < rg_max r}"
      using inv addOffset_inj by (auto simp: range_inv_def)
    have sub: "allocated_items (rg_alloc r) \<subseteq> {off. int off < rg_max r}"
      using inv by (auto simp: range_inv_def bitmap_inv_def)
    have "allocated_addrs r' = allocated_addrs r - {ip}"
      using b c(3) [OF True] inj_on_image_set_diff [OF inj _ _, of "allocated_items (rg_alloc r)" "{off}"] sub
      by (auto simp: allocated_addrs_def r'_def)
    moreover have "range_inv r'" using inv b by (simp add: r'_def range_inv_def)
    ultimately show ?thesis using c(1) True by (auto simp: Range_Release_def r'_def range_addrs_def)
  next
    case False
    then have "ip \<notin> allocated_addrs r" using c(2) range_cards(1) [OF inv] by auto
    then show ?thesis using False c inv by (auto simp: Range_Release_def)
  qed
qed

lemma Range_AllocateNext_ok:
  assumes inv: "range_inv r" and a: "Range_AllocateNext rnd r = Some (ip, r')"
  shows "ip \<in> free_addrs r \<and> range_inv r' \<and> range_addrs r' = range_addrs r \<and>
    allocated_addrs r' = insert ip (allocated_addrs r) \<and> rg_prefix r' = rg_prefix r"
proof -
  obtain off al where b: "Bitmap_AllocateNext rnd (rg_alloc r) = Some (off, al)"
    and ip: "ip = addOffset (rg_base r) off" "r' = r\<lparr>rg_alloc := al\<rparr>"
    using a by (auto simp: Range_AllocateNext_def split: option.splits)
  have "bitmap_inv (rg_alloc r)" using inv by (simp add: range_inv_def)
  note al = Bitmap_AllocateNext_ok [OF this b]
  then have off: "int off < rg_max r" "off \<notin> allocated_items (rg_alloc r)"
    using inv by (auto simp: free_items_def range_inv_def)
  then have "ip \<in> free_addrs r" using allocated_iff [OF inv off(1)] by (auto simp: free_addrs_def range_addrs_def ip)
  then show ?thesis using al inv by (auto simp: ip range_inv_def range_addrs_def allocated_addrs_def)
qed

interpretation range_pool: pool range_inv free_addrs Range_AllocateNext
proof
  fix r rnd ip r'
  assume "range_inv r" "Range_AllocateNext rnd r = Some (ip, r')"
  from Range_AllocateNext_ok [OF this]
  show "ip \<in> free_addrs r \<and> free_addrs r' = free_addrs r - {ip} \<and> range_inv r'" by (auto simp: free_addrs_def)
next
  fix r rnd
  assume inv: "range_inv r" and none: "Range_AllocateNext rnd r = None"
  have "bitmap_inv (rg_alloc r)" "Bitmap_AllocateNext rnd (rg_alloc r) = None"
    using inv none by (auto simp: range_inv_def Range_AllocateNext_def split: option.splits)
  from Bitmap_AllocateNext_none [OF this] show "free_addrs r = {}"
    using inv by (auto simp: free_addrs_def range_addrs_def allocated_addrs_def free_items_def range_inv_def)
qed (simp add: free_addrs_def range_cards)

section \<open>Reachable ranges\<close>

lemma RangeSize_bound:
  assumes "prefix_valid p"
  shows "0 \<le> RangeSize p \<and> RangeSize p \<le> 2 ^ nat (int (BitLen (pf_ip p)) - pf_bits p) \<and> RangeSize p \<le> 2 ^ 31"
proof -
  have "(2::int) ^ nat (n - pf_bits p) \<le> 2 ^ 31" if "n - pf_bits p < 31" for n
    using that by (intro power_increasing) auto
  moreover have "(2::int) ^ 16 \<le> 2 ^ nat (128 - pf_bits p)" if "128 - pf_bits p \<ge> 16"
    using that by (intro power_increasing) auto
  ultimately show ?thesis
    using assms by (cases "pf_ip p") (auto simp: RangeSize_def Let_def prefix_valid_def)
qed

lemma masked_range_ok:
  assumes "prefix_valid p"
  shows "range_ok (Masked p) (pf_ip (Masked p)) (RangeSize (Masked p))"
proof -
  define n where "n = nat (pf_bits p)"
  note size = RangeSize_bound [OF Masked_valid [OF assms]]
  have off: "off < 2 ^ (BitLen (pf_ip p) - n)" if "int off < RangeSize (Masked p)" for off
  proof -
    have "nat (int (BitLen (pf_ip p)) - pf_bits p) = BitLen (pf_ip p) - n" using assms by (auto simp: prefix_valid_def n_def)
    moreover have "pf_bits (Masked p) = pf_bits p" "BitLen (pf_ip (Masked p)) = BitLen (pf_ip p)"
      using assms by (simp_all add: Masked_def prefix_valid_def)
    ultimately have "RangeSize (Masked p) \<le> 2 ^ (BitLen (pf_ip p) - n)" using size by simp
    from less_le_trans [OF that this] show ?thesis by simp
  qed
  show ?thesis
  proof (cases "pf_ip p")
    case AddrZero
    then show ?thesis using assms by (simp add: prefix_valid_def)
  next
    case (Addr4 a)
    have n: "n \<le> LENGTH(32)" and m: "Masked p = \<lparr>pf_ip = Addr4 (keep_bits n a), pf_bits = pf_bits p\<rparr>" "0 \<le> pf_bits p"
      using assms Addr4 by (auto simp: prefix_valid_def Masked_def n_def)
    have "unat (keep_bits n a) + off < 2 ^ 32 \<and> keep_bits n (keep_bits n a + of_nat off) = keep_bits n (keep_bits n a)"
      if "int off < RangeSize (Masked p)" for off
      using keep_bits_offset [OF n, of off a] keep_bits_keep [of n n a] off [OF that] n Addr4 by simp
    then show ?thesis
      using size m by (auto simp: range_ok_def Prefix_Contains_def addOffset4 n_def [symmetric])
  next
    case (Addr6 a)
    have n: "n \<le> LENGTH(128)" and m: "Masked p = \<lparr>pf_ip = Addr6 (keep_bits n a), pf_bits = pf_bits p\<rparr>" "0 \<le> pf_bits p"
      using assms Addr6 by (auto simp: prefix_valid_def Masked_def n_def)
    have small: "off < 2 ^ 64" if "int off < RangeSize (Masked p)" for off using that size by simp
    have "unat (keep_bits n a) + off < 2 ^ 128 \<and> keep_bits n (keep_bits n a + of_nat off) = keep_bits n (keep_bits n a)"
      if "int off < RangeSize (Masked p)" for off
      using keep_bits_offset [OF n, of off a] keep_bits_keep [of n n a] off [OF that] n Addr6 by simp
    then show ?thesis
      using size m small by (auto simp: range_ok_def Prefix_Contains_def addOffset6 n_def [symmetric])
  qed
qed

lemma range_ok_smaller: "range_ok p base mx \<Longrightarrow> 0 \<le> mx' \<Longrightarrow> mx' \<le> mx \<Longrightarrow> range_ok p base mx'"
  by (auto simp: range_ok_def)

lemma range_ok_next:
  assumes ok: "range_ok p base mx" and "1 < mx"
  shows "range_ok p (Addr_Next base) (mx - 1)"
proof -
  have val: "addr_val base + 1 < 2 ^ BitLen base" using assms by (auto simp: range_ok_def dest: spec [of _ 1])
  have next_ok: "Addr_Next base = addOffset base 1" "Addr_Next base \<noteq> AddrZero"
    "off < 2 ^ 32 \<Longrightarrow> addOffset (Addr_Next base) off = addOffset base (Suc off)" for off
  proof -
    have "Addr_Next base = addOffset base 1 \<and> Addr_Next base \<noteq> AddrZero \<and>
      (off < 2 ^ 32 \<longrightarrow> addOffset (Addr_Next base) off = addOffset base (Suc off))"
    proof (cases base)
      case (Addr4 b)
      then have "b + 1 \<noteq> 0" using val word_offset(1) [of b 1] by (auto simp: word_unat_eq_iff)
      then show ?thesis using Addr4 by (simp add: addOffset4)
    next
      case (Addr6 b)
      then have "b + 1 \<noteq> 0" using val word_offset(1) [of b 1] by (auto simp: word_unat_eq_iff)
      then show ?thesis using Addr6 by (simp add: addOffset6)
    qed (use ok in \<open>simp add: range_ok_def\<close>)
    then show "Addr_Next base = addOffset base 1" "Addr_Next base \<noteq> AddrZero"
      "off < 2 ^ 32 \<Longrightarrow> addOffset (Addr_Next base) off = addOffset base (Suc off)" by blast+
  qed
  have b: "base \<noteq> AddrZero" "(1::nat) < 2 ^ 63" using ok by (auto simp: range_ok_def)
  note v = addOffset_val [OF b val]
  have "addr_val (Addr_Next base) + off < 2 ^ BitLen base \<and> Prefix_Contains p (addOffset (Addr_Next base) off)"
    if "int off < mx - 1" for off
  proof -
    have "int (Suc off) < mx" "off < 2 ^ 32" using that ok by (auto simp: range_ok_def)
    then show ?thesis using ok next_ok v by (auto simp: range_ok_def dest: spec [of _ "Suc off"])
  qed
  then show ?thesis using next_ok(1,2) v ok assms(2) by (auto simp: range_ok_def)
qed

lemma NewCIDRRange_inv:
  assumes "prefix_valid p"
  shows "range_inv (NewCIDRRange pstr p opts) \<and> allocated_addrs (NewCIDRRange pstr p opts) = {}"
  using masked_range_ok [OF assms] range_ok_next [OF masked_range_ok [OF assms]]
  by (auto simp: NewCIDRRange_def Let_def range_inv_def NewAllocationMap_ok allocated_addrs_def
      intro: range_ok_smaller split: if_splits)

text \<open>The operations change only the bitmap.\<close>

definition same_range :: "Range \<Rightarrow> Range \<Rightarrow> bool" where
  "same_range r r' \<longleftrightarrow>
     rg_prefix r' = rg_prefix r \<and> rg_base r' = rg_base r \<and> rg_max r' = rg_max r \<and>
     ab_rangeSpec (rg_alloc r') = ab_rangeSpec (rg_alloc r)"

lemma bitmap_frame:
  "ab_rangeSpec (snd (Bitmap_Allocate off a)) = ab_rangeSpec a"
  "Bitmap_AllocateNext rnd a = Some (off, a') \<Longrightarrow> ab_rangeSpec a' = ab_rangeSpec a"
  "ab_rangeSpec (Bitmap_Release off a) = ab_rangeSpec a"
  by (auto simp: Bitmap_Allocate_def Bitmap_AllocateNext_def Bitmap_Release_def split: option.splits)

lemma Range_Allocate_frame: "Range_Allocate pstr ip r = Some (err, r') \<Longrightarrow> same_range r r'"
  by (auto simp: Range_Allocate_def same_range_def bind_eq_Some_conv case_prod_unfold Let_def bitmap_frame(1) split: if_splits)

lemma Range_AllocateNext_frame: "Range_AllocateNext rnd r = Some (ip, r') \<Longrightarrow> same_range r r'"
  by (auto simp: Range_AllocateNext_def same_range_def bitmap_frame(2) split: option.splits)

lemma Range_Release_frame: "Range_Release ip r = Some r' \<Longrightarrow> same_range r r'"
  by (auto simp: Range_Release_def same_range_def bind_eq_Some_conv case_prod_unfold bitmap_frame(3) split: if_splits)

lemmas range_frame = Range_Allocate_frame Range_AllocateNext_frame Range_Release_frame

text \<open>
  The ranges of a prefix that any sequence of operations builds; a range can be restored from the
  snapshot of another range of the same prefix with the same options.
\<close>

inductive range_reach :: "(Prefix \<Rightarrow> string) \<Rightarrow> Prefix \<Rightarrow> CIDRRangeOption list \<Rightarrow> Range \<Rightarrow> bool"
  for pstr p opts where
  rr_new: "range_reach pstr p opts (NewCIDRRange pstr p opts)"
| rr_allocate: "range_reach pstr p opts r \<Longrightarrow> Range_Allocate pstr ip r = Some (err, r') \<Longrightarrow> range_reach pstr p opts r'"
| rr_next: "range_reach pstr p opts r \<Longrightarrow> Range_AllocateNext rnd r = Some (ip, r') \<Longrightarrow> range_reach pstr p opts r'"
| rr_release: "range_reach pstr p opts r \<Longrightarrow> Range_Release ip r = Some r' \<Longrightarrow> range_reach pstr p opts r'"
| rr_restore: "range_reach pstr p opts r \<Longrightarrow> range_reach pstr p opts q \<Longrightarrow>
    range_reach pstr p opts (snd (Range_Restore pstr (CIDR r) (snd (Range_Snapshot q)) r))"

lemma Range_Restore_ok:
  assumes "range_inv r" "range_inv q" "same_range q r" "ab_rangeSpec (rg_alloc r) = pstr (rg_prefix r)"
    and "Range_Restore pstr (CIDR r) (snd (Range_Snapshot q)) r = (err, r')"
  shows "err = None \<and> range_inv r' \<and> same_range r r' \<and> allocated_addrs r' = allocated_addrs q"
proof -
  define a where "a = (rg_alloc r)\<lparr>ab_allocated := ab_allocated (rg_alloc q), ab_count := ab_count (rg_alloc q)\<rparr>"
  have "Bitmap_Restore (pstr (rg_prefix r)) (snd (Bitmap_Snapshot (rg_alloc q))) (rg_alloc r) = Some a"
    unfolding a_def by (rule Bitmap_Restore_snapshot) (use assms in \<open>simp_all add: range_inv_def\<close>)
  then have "err = None" "r' = r\<lparr>rg_alloc := a\<rparr>"
    using assms(5) by (simp_all add: Range_Restore_def CIDR_def Range_Snapshot_def)
  then show ?thesis
    using assms(1-3) by (auto simp: range_inv_def bitmap_inv_def allocated_items_def allocated_addrs_def same_range_def a_def)
qed

lemma range_reach_inv:
  assumes "range_reach pstr p opts r" "prefix_valid p"
  shows "range_inv r \<and> same_range (NewCIDRRange pstr p opts) r"
  using assms
proof (induction rule: range_reach.induct)
  case rr_new
  then show ?case by (simp add: NewCIDRRange_inv same_range_def)
next
  case (rr_allocate r ip err r')
  then have inv: "range_inv r" and same: "same_range (NewCIDRRange pstr p opts) r" by auto
  show ?case using Range_Allocate_ok [OF inv, of pstr ip] range_frame(1) [OF rr_allocate.hyps(2)] same rr_allocate.hyps(2)
    by (auto simp: same_range_def)
next
  case (rr_next r rnd ip r')
  then have inv: "range_inv r" and same: "same_range (NewCIDRRange pstr p opts) r" by auto
  show ?case using Range_AllocateNext_ok [OF inv rr_next.hyps(2)] range_frame(2) [OF rr_next.hyps(2)] same
    by (auto simp: same_range_def)
next
  case (rr_release r ip r')
  then have inv: "range_inv r" and same: "same_range (NewCIDRRange pstr p opts) r" by auto
  show ?case using Range_Release_ok [OF inv, of ip] range_frame(3) [OF rr_release.hyps(2)] same rr_release.hyps(2)
    by (auto simp: same_range_def)
next
  case (rr_restore r q)
  then have inv: "range_inv r" "range_inv q" and same: "same_range (NewCIDRRange pstr p opts) r" "same_range (NewCIDRRange pstr p opts) q"
    by auto
  have spec: "ab_rangeSpec (rg_alloc r) = pstr (rg_prefix r)"
    using same(1) by (simp add: same_range_def NewCIDRRange_def Let_def NewAllocationMap_def split: if_splits prod.splits)
  obtain err r' where r: "Range_Restore pstr (CIDR r) (snd (Range_Snapshot q)) r = (err, r')" by (rule prod.exhaust)
  have "same_range q r" using same by (simp add: same_range_def)
  from Range_Restore_ok [OF inv this spec r] show ?case using same(1) by (simp add: r same_range_def)
qed

section \<open>Properties\<close>

lemma Range_Has_ok:
  assumes inv: "range_inv r"
  shows "Range_Has ip r = Some (ip \<in> allocated_addrs r)"
proof -
  obtain ok off where c: "Range_contains r ip = Some (ok, off)" "ok \<longleftrightarrow> ip \<in> range_addrs r"
    "ok \<Longrightarrow> int off < rg_max r \<and> ip = addOffset (rg_base r) off" using Range_contains_iff [OF inv, of ip] by blast
  show ?thesis
  proof (cases ok)
    case True
    then show ?thesis using c allocated_iff [OF inv, of off]
      by (simp add: Range_Has_def Bitmap_Has_def bit_items allocated_items_def)
  next
    case False
    then show ?thesis using c range_cards(1) [OF inv] by (auto simp: Range_Has_def)
  qed
qed

lemma Range_ForEach_ok:
  assumes inv: "range_inv r"
  shows "set (Range_ForEach r) = allocated_addrs r \<and> distinct (Range_ForEach r)"
proof -
  have "inj_on (addOffset (rg_base r)) {off. int off < rg_max r}"
    using inv addOffset_inj by (auto simp: range_inv_def)
  moreover have sub: "set (bits_of (ab_allocated (rg_alloc r))) \<subseteq> {off. int off < rg_max r}"
    using inv by (auto simp: range_inv_def bitmap_inv_def allocated_items_def bit_items)
  ultimately have "inj_on (addOffset (rg_base r)) (set (bits_of (ab_allocated (rg_alloc r))))"
    by (rule inj_on_subset)
  then show ?thesis
    by (simp add: Range_ForEach_def ForEach_bits distinct_map allocated_addrs_def allocated_items_def items_def)
qed

lemma Range_Free_card:
  assumes inv: "range_inv r"
  shows "Range_Used r = int (card (allocated_addrs r))" "Range_Free r = int (card (free_addrs r))"
proof -
  note c = range_cards [OF inv]
  have "card (free_addrs r) = nat (rg_max r) - card (allocated_addrs r)"
    unfolding free_addrs_def using c by (simp add: card_Diff_subset)
  moreover have "card (allocated_addrs r) \<le> nat (rg_max r)" using card_mono [OF c(4) c(1)] c(3) by simp
  moreover have "ab_count (rg_alloc r) = int (card (allocated_addrs r))" "ab_max (rg_alloc r) = rg_max r" "0 \<le> rg_max r"
    using inv c(2) by (simp_all add: range_inv_def bitmap_inv_def range_ok_def)
  ultimately show "Range_Used r = int (card (allocated_addrs r))" "Range_Free r = int (card (free_addrs r))"
    by (simp_all add: Range_Used_def Range_Free_def Bitmap_Free_def of_nat_diff)
qed

lemma range_in_prefix: "range_inv r \<Longrightarrow> ip \<in> range_addrs r \<Longrightarrow> Prefix_Contains (CIDR r) ip"
  using range_ok_offset(3) by (auto simp: range_inv_def range_addrs_def CIDR_def)

text \<open>
  C12.  A range implements a set of addresses of its prefix.  After any sequence of operations, an
  allocation of an address of the range succeeds exactly if the address is not allocated; it reports
  \<^verbatim>\<open>ErrAllocated\<close> for an allocated one and \<^verbatim>\<open>ErrNotInRange\<close> for all others, also on a full range, for
  which the documentation of \<^verbatim>\<open>Allocate\<close> announces \<^verbatim>\<open>ErrFull\<close>; a release removes the address; the queries and the iteration show
  exactly the allocated addresses, and the counters their number; a snapshot of a range can be
  restored.  No operation panics.
\<close>

theorem ip_range_refines_set:
  assumes "prefix_valid p" "range_reach pstr p opts r" "range_reach pstr p opts q"
  shows "(\<exists>err r'. Range_Allocate pstr ip r = Some (err, r') \<and>
      err = (if ip \<notin> range_addrs r then Some (ErrNotInRange (pstr (rg_prefix r)))
             else if ip \<in> allocated_addrs r then Some ErrAllocated else None) \<and>
      allocated_addrs r' = (if err = None then insert ip (allocated_addrs r) else allocated_addrs r)) \<and>
    (\<exists>r'. Range_Release ip r = Some r' \<and> allocated_addrs r' = allocated_addrs r - {ip}) \<and>
    Range_Has ip r = Some (ip \<in> allocated_addrs r) \<and>
    set (Range_ForEach r) = allocated_addrs r \<and> distinct (Range_ForEach r) \<and>
    Range_Used r = int (card (allocated_addrs r)) \<and> Range_Free r = int (card (range_addrs r - allocated_addrs r)) \<and>
    (\<exists>r'. Range_Restore pstr (CIDR r) (snd (Range_Snapshot q)) r = (None, r') \<and> allocated_addrs r' = allocated_addrs q) \<and>
    allocated_addrs r \<subseteq> range_addrs r \<and> range_addrs r \<subseteq> {a. Prefix_Contains (CIDR r) a}"
proof -
  have inv: "range_inv r" "range_inv q" and same: "same_range (NewCIDRRange pstr p opts) r" "same_range (NewCIDRRange pstr p opts) q"
    using range_reach_inv assms by blast+
  have spec: "ab_rangeSpec (rg_alloc r) = pstr (rg_prefix r)"
    using same(1) by (simp add: same_range_def NewCIDRRange_def Let_def NewAllocationMap_def split: if_splits prod.splits)
  have qr: "same_range q r" using same by (simp add: same_range_def)
  obtain e r' where "Range_Restore pstr (CIDR r) (snd (Range_Snapshot q)) r = (e, r')" by (rule prod.exhaust)
  with Range_Restore_ok [OF inv qr spec this]
  have "\<exists>r'. Range_Restore pstr (CIDR r) (snd (Range_Snapshot q)) r = (None, r') \<and> allocated_addrs r' = allocated_addrs q"
    by simp
  moreover obtain err r1 where "Range_Allocate pstr ip r = Some (err, r1)"
    "if ip \<notin> range_addrs r then err = Some (ErrNotInRange (pstr (rg_prefix r))) \<and> allocated_addrs r1 = allocated_addrs r
     else if ip \<in> allocated_addrs r then err = Some ErrAllocated \<and> allocated_addrs r1 = allocated_addrs r
     else err = None \<and> allocated_addrs r1 = insert ip (allocated_addrs r)"
    using Range_Allocate_ok [OF inv(1)] by metis
  then have "\<exists>err r'. Range_Allocate pstr ip r = Some (err, r') \<and>
      err = (if ip \<notin> range_addrs r then Some (ErrNotInRange (pstr (rg_prefix r)))
             else if ip \<in> allocated_addrs r then Some ErrAllocated else None) \<and>
      allocated_addrs r' = (if err = None then insert ip (allocated_addrs r) else allocated_addrs r)"
    by (intro exI [of _ err] exI [of _ r1]) (simp split: if_splits)
  moreover have "range_addrs r \<subseteq> {a. Prefix_Contains (CIDR r) a}" using range_in_prefix [OF inv(1)] by blast
  ultimately show ?thesis
    using Range_Release_ok [OF inv(1), of ip] Range_Has_ok [OF inv(1), of ip] Range_ForEach_ok [OF inv(1)]
      Range_Free_card [OF inv(1), unfolded free_addrs_def] range_cards(1) [OF inv(1)] by blast
qed

definition example_prefix :: Prefix where
  "example_prefix = PrefixFrom (Addr4 0x0A000000) 30"

definition example_range :: Range where
  "example_range = NewCIDRRange (\<lambda>p. ''10.0.0.0/30'') example_prefix []"

lemma example_range:
  "prefix_valid example_prefix" "range_reach (\<lambda>p. ''10.0.0.0/30'') example_prefix [] example_range"
  "Range_Free example_range = 2"
  by (simp_all add: example_prefix_def PrefixFrom_valid example_range_def rr_new)
    (simp add: NewCIDRRange_def Let_def RangeSize_def Masked_def PrefixFrom_def Range_Free_def Bitmap_Free_def NewAllocationMap_def)

theorem ip_range_refines_set_witness:
  "Range_Has (Addr4 0x0A000001) example_range = Some False \<and> Range_Used example_range = 0 \<and>
   (\<exists>r'. Range_Allocate (\<lambda>p. ''10.0.0.0/30'') (Addr4 0x0B000001) example_range =
      Some (Some (ErrNotInRange ''10.0.0.0/30''), r') \<and> allocated_addrs r' = {})"
proof -
  have none: "allocated_addrs example_range = {}"
    using NewCIDRRange_inv [OF example_range(1)] by (simp add: example_range_def)
  note spec = ip_range_refines_set [OF example_range(1,2,2)]
  have "\<not> Prefix_Contains (CIDR example_range) (Addr4 0x0B000001)" by code_simp
  then have "Addr4 0x0B000001 \<notin> range_addrs example_range" using spec [of "Addr4 0x0B000001"] by blast
  then have "\<exists>r'. Range_Allocate (\<lambda>p. ''10.0.0.0/30'') (Addr4 0x0B000001) example_range =
      Some (Some (ErrNotInRange ''10.0.0.0/30''), r') \<and> allocated_addrs r' = {}"
    using spec [of "Addr4 0x0B000001", THEN conjunct1] none by auto
  moreover have "Range_Has (Addr4 0x0A000001) example_range = Some False" "Range_Used example_range = 0"
    using spec [of "Addr4 0x0A000001"] none by simp_all
  ultimately show ?thesis by blast
qed

text \<open>
  C13.  The allocator always makes progress.  From any reachable state, exactly as many allocations of
  a next address succeed one after the other as the number of free addresses says, whatever the random
  choices are: they give different addresses of the prefix that were not allocated; one more
  allocation reports a full range.
\<close>

theorem ip_range_progress:
  assumes "prefix_valid p" "range_reach pstr p opts r"
  shows "(int (length rs) \<le> Range_Free r \<longrightarrow>
      (\<exists>ips r'. allocateMany Range_AllocateNext rs r = Some (ips, r') \<and> length ips = length rs \<and> distinct ips \<and>
         set ips \<subseteq> range_addrs r - allocated_addrs r \<and> (\<forall>a \<in> set ips. Prefix_Contains (CIDR r) a) \<and>
         Range_Free r' = Range_Free r - int (length rs))) \<and>
    (int (length rs) > Range_Free r \<longrightarrow> allocateMany Range_AllocateNext rs r = None)"
proof -
  have inv: "range_inv r" using range_reach_inv assms by blast
  note free = Range_Free_card(2) [OF inv]
  have "\<exists>ips r'. allocateMany Range_AllocateNext rs r = Some (ips, r') \<and> length ips = length rs \<and> distinct ips \<and>
      set ips \<subseteq> range_addrs r - allocated_addrs r \<and> (\<forall>a \<in> set ips. Prefix_Contains (CIDR r) a) \<and>
      Range_Free r' = Range_Free r - int (length rs)" if le: "int (length rs) \<le> Range_Free r"
  proof -
    have "length rs \<le> card (free_addrs r)" using le free by simp
    from range_pool.allocateMany_progress [OF inv this] obtain ips r' where
      a: "allocateMany Range_AllocateNext rs r = Some (ips, r')" "length ips = length rs" "distinct ips"
        "set ips \<subseteq> free_addrs r" "free_addrs r' = free_addrs r - set ips" "range_inv r'" by blast
    have "card (free_addrs r') = card (free_addrs r) - length rs" "length rs \<le> card (free_addrs r)"
      using a distinct_card [OF a(3)] \<open>length rs \<le> card (free_addrs r)\<close> by (simp_all add: card_Diff_subset)
    then have "Range_Free r' = Range_Free r - int (length rs)" using free Range_Free_card(2) [OF a(6)] by simp
    then show ?thesis using a range_in_prefix [OF inv] by (auto simp: free_addrs_def)
  qed
  moreover have "allocateMany Range_AllocateNext rs r = None" if "int (length rs) > Range_Free r"
    by (rule range_pool.allocateMany_full [OF inv]) (use that free in simp)
  ultimately show ?thesis by blast
qed

theorem ip_range_progress_witness:
  "Range_Free example_range = 2 \<and>
   (\<exists>ips r'. allocateMany Range_AllocateNext [7, 3] example_range = Some (ips, r') \<and> distinct ips \<and> Range_Free r' = 0) \<and>
   allocateMany Range_AllocateNext [7, 3, 5] example_range = None"
  using ip_range_progress [OF example_range(1,2), of "[7, 3]"] ip_range_progress [OF example_range(1,2), of "[7, 3, 5]"]
    example_range(3) by auto

end
