(* ===== verification/CidrTrie.thy ===== *)
theory CidrTrie
  imports BitlpmKeys NetipBits
begin

text \<open>
  The trie over IP prefixes (\<^verbatim>\<open>pkg/container/bitlpm/cidr.go\<close>): one bit trie per address family.
  The keys read the two words of an address in memory, where an IPv4 address is stored in its
  IPv4-mapped form.
\<close>

section \<open>Keys\<close>

text \<open>A shift by \<^verbatim>\<open>n - idx\<close>, where the unsigned difference wraps around if the index is larger.\<close>

definition shr_sub :: "u64 \<Rightarrow> nat \<Rightarrow> nat \<Rightarrow> u64" where
  "shr_sub word n idx = (if idx \<le> n then drop_bit (n - idx) word else 0)"

definition cidrKey_BitValueAt :: "Prefix \<Rightarrow> nat \<Rightarrow> u8" where
  "cidrKey_BitValueAt k idx =
     (let addr = pf_ip k in
      if Is4 addr then ucast (shr_sub (lower64 (As16 addr)) 31 idx AND 1)
      else if idx < 64 then ucast (shr_sub (upper64 (As16 addr)) 63 idx AND 1)
      else ucast (shr_sub (lower64 (As16 addr)) 127 idx AND 1))"

definition cidrKey_CommonPrefix :: "Prefix \<Rightarrow> Prefix \<Rightarrow> nat" where
  "cidrKey_CommonPrefix k k2 =
     (let addr1 = As16 (pf_ip k); addr2 = As16 (pf_ip k2) in
      if Is4 (pf_ip k) then
        LeadingZeros ((ucast (lower64 addr1) :: u32) XOR ucast (lower64 addr2))
      else
        let v = LeadingZeros (upper64 addr1 XOR upper64 addr2) in
        if v = 64 then v + LeadingZeros (lower64 addr1 XOR lower64 addr2) else v)"

definition cidr_ops :: "Prefix KeyOps" where
  "cidr_ops = \<lparr>CommonPrefix = cidrKey_CommonPrefix, BitValueAt = cidrKey_BitValueAt\<rparr>"

section \<open>The trie\<close>

record 'v CIDRTrie =
  ct_v4 :: "(Prefix, 'v) trie"
  ct_v6 :: "(Prefix, 'v) trie"

definition NewCIDRTrie :: "'v CIDRTrie" where
  "NewCIDRTrie = \<lparr>ct_v4 = NewTrie 32, ct_v6 = NewTrie 128\<rparr>"

definition treeForFamily :: "'v CIDRTrie \<Rightarrow> Prefix \<Rightarrow> (Prefix, 'v) trie" where
  "treeForFamily c cidr = (if Is6 (pf_ip cidr) then ct_v6 c else ct_v4 c)"

text \<open>The trie of a family is a pointer: its operations change the trie in place.\<close>

definition setTreeForFamily :: "Prefix \<Rightarrow> (Prefix, 'v) trie \<Rightarrow> 'v CIDRTrie \<Rightarrow> 'v CIDRTrie" where
  "setTreeForFamily cidr t c = (if Is6 (pf_ip cidr) then c\<lparr>ct_v6 := t\<rparr> else c\<lparr>ct_v4 := t\<rparr>)"

definition uint_bits :: "Prefix \<Rightarrow> nat" where
  "uint_bits cidr = nat (pf_bits cidr mod 2 ^ 64)"

definition CIDRTrie_ExactLookup :: "'v CIDRTrie \<Rightarrow> Prefix \<Rightarrow> 'v option" where
  "CIDRTrie_ExactLookup c cidr = ExactLookup cidr_ops (treeForFamily c cidr) (uint_bits cidr) cidr"

definition CIDRTrie_LongestPrefixMatch :: "'v CIDRTrie \<Rightarrow> Addr \<Rightarrow> (Prefix \<times> 'v) option" where
  "CIDRTrie_LongestPrefixMatch c addr =
     (if addr = AddrZero then None
      else
        let prefix = PrefixFrom addr (int (BitLen addr))
        in LongestPrefixMatch cidr_ops (treeForFamily c prefix) prefix)"

definition CIDRTrie_Ancestors :: "'v CIDRTrie \<Rightarrow> Prefix \<Rightarrow> (Prefix \<times> 'v \<Rightarrow> 's \<Rightarrow> bool \<times> 's) \<Rightarrow> 's \<Rightarrow> 's" where
  "CIDRTrie_Ancestors c cidr fn s =
     Ancestors cidr_ops (treeForFamily c cidr) (uint_bits cidr) cidr (\<lambda>(p, k, v). fn (k, v)) s"

definition CIDRTrie_AncestorIterator :: "'v CIDRTrie \<Rightarrow> Prefix \<Rightarrow> (Prefix, 'v) ancestorIterator" where
  "CIDRTrie_AncestorIterator c cidr = AncestorIterator (treeForFamily c cidr) (uint_bits cidr) cidr"

definition CIDRTrie_AncestorsLongestPrefixFirst ::
  "'v CIDRTrie \<Rightarrow> Prefix \<Rightarrow> (Prefix \<times> 'v \<Rightarrow> 's \<Rightarrow> bool \<times> 's) \<Rightarrow> 's \<Rightarrow> 's"
where
  "CIDRTrie_AncestorsLongestPrefixFirst c cidr fn s =
     AncestorsLongestPrefixFirst cidr_ops (treeForFamily c cidr) (uint_bits cidr) cidr (\<lambda>(p, k, v). fn (k, v)) s"

definition CIDRTrie_AncestorLongestPrefixFirstIterator :: "'v CIDRTrie \<Rightarrow> Prefix \<Rightarrow> (nat \<times> Prefix \<times> 'v) list" where
  "CIDRTrie_AncestorLongestPrefixFirstIterator c cidr =
     AncestorLongestPrefixFirstIterator cidr_ops (treeForFamily c cidr) (uint_bits cidr) cidr"

definition CIDRTrie_Descendants :: "'v CIDRTrie \<Rightarrow> Prefix \<Rightarrow> (Prefix \<times> 'v \<Rightarrow> 's \<Rightarrow> bool \<times> 's) \<Rightarrow> 's \<Rightarrow> 's" where
  "CIDRTrie_Descendants c cidr fn s =
     Descendants cidr_ops (treeForFamily c cidr) (uint_bits cidr) cidr (\<lambda>(p, k, v). fn (k, v)) s"

definition CIDRTrie_DescendantIterator :: "'v CIDRTrie \<Rightarrow> Prefix \<Rightarrow> (Prefix, 'v) node list" where
  "CIDRTrie_DescendantIterator c cidr = DescendantIterator cidr_ops (treeForFamily c cidr) (uint_bits cidr) cidr"

definition CIDRTrie_Upsert :: "'v CIDRTrie \<Rightarrow> Prefix \<Rightarrow> 'v \<Rightarrow> 'v CIDRTrie \<times> bool" where
  "CIDRTrie_Upsert c cidr v =
     (case Upsert cidr_ops (treeForFamily c cidr) (uint_bits cidr) cidr v of
        (t, isNew) \<Rightarrow> (setTreeForFamily cidr t c, isNew))"

definition CIDRTrie_Delete :: "'v CIDRTrie \<Rightarrow> Prefix \<Rightarrow> 'v CIDRTrie \<times> bool" where
  "CIDRTrie_Delete c cidr =
     (case Delete cidr_ops (treeForFamily c cidr) (uint_bits cidr) cidr of
        (t, found) \<Rightarrow> (setTreeForFamily cidr t c, found))"

definition CIDRTrie_Len :: "'v CIDRTrie \<Rightarrow> nat" where
  "CIDRTrie_Len c = trie_Len (ct_v4 c) + trie_Len (ct_v6 c)"

definition CIDRTrie_ForEach :: "'v CIDRTrie \<Rightarrow> (Prefix \<times> 'v \<Rightarrow> 's \<Rightarrow> bool \<times> 's) \<Rightarrow> 's \<Rightarrow> 's" where
  "CIDRTrie_ForEach c fn s =
     (let (v4Break, s') =
            ForEach (ct_v4 c)
              (\<lambda>(p, k, v) (brk, s).
                 case fn (k, v) s of (cont, s') \<Rightarrow> if \<not> cont then (False, (True, s')) else (True, (brk, s')))
              (False, s)
      in if \<not> v4Break then ForEach (ct_v6 c) (\<lambda>(p, k, v). fn (k, v)) s' else s')"

section \<open>Tries over part of the keys\<close>

text \<open>
  A trie of one family has only keys of that family.  It is the image of a trie over a smaller key
  type, for which the laws of the bit trie hold without restriction.
\<close>

definition pull :: "('k \<Rightarrow> 'j) \<Rightarrow> 'j KeyOps \<Rightarrow> 'k KeyOps" where
  "pull f ops = \<lparr>CommonPrefix = \<lambda>a b. CommonPrefix ops (f a) (f b), BitValueAt = \<lambda>a. BitValueAt ops (f a)\<rparr>"

definition map_trie :: "('k \<Rightarrow> 'j) \<Rightarrow> ('k, 'v) trie \<Rightarrow> ('j, 'v) trie" where
  "map_trie f t = \<lparr>trie_root = map_node f id (trie_root t), trie_maxPrefix = trie_maxPrefix t, trie_entries = trie_entries t\<rparr>"

lemma pull_sel [simp]:
  "CommonPrefix (pull f ops) a b = CommonPrefix ops (f a) (f b)" "BitValueAt (pull f ops) a = BitValueAt ops (f a)"
  by (simp_all add: pull_def)

lemma map_trie_sel [simp]:
  "trie_root (map_trie f t) = map_node f id (trie_root t)" "trie_maxPrefix (map_trie f t) = trie_maxPrefix t"
  "trie_entries (map_trie f t) = trie_entries t"
  by (simp_all add: map_trie_def)

lemma prefixMatch_pull: "prefixMatch ops np (f nk) p (f k) = prefixMatch (pull f ops) np nk p k"
  by (simp add: prefixMatch_def)

lemma node_Upsert_pull:
  "node_Upsert ops m p (f k) v (map_node f id n) = map_prod (map_node f id) id (node_Upsert (pull f ops) m p k v n)"
  by (induction n) (auto simp: node_Upsert.simps prefixMatch_pull Let_def option.map_ident split: prod.splits)

lemma map_node_Nil [simp]: "map_node f g n = NilNode \<longleftrightarrow> n = NilNode"
  by (cases n) auto

lemma node_Delete_pull:
  "node_Delete ops p (f k) (map_node f id n) = map_option (map_prod id (map_node f id)) (node_Delete (pull f ops) p k n)"
  by (induction n) (auto simp: node_Delete.simps prefixMatch_pull Let_def option.map_ident split: option.splits prod.splits)

lemma node_traverse_pull:
  "node_traverse ops m p (f k) fn (map_node f id n) s = node_traverse (pull f ops) m p k (\<lambda>(np, nk, v). fn (np, f nk, v)) n s"
  by (induction n arbitrary: s) (auto simp: prefixMatch_pull Let_def split: option.splits prod.splits)

lemma Upsert_pull:
  "Upsert ops (map_trie f t) p (f k) v = map_prod (map_trie f) id (Upsert (pull f ops) t p k v)"
  by (simp add: Upsert_def Let_def node_Upsert_pull map_trie_def split: prod.splits)

lemma Delete_pull:
  "Delete ops (map_trie f t) p (f k) = map_prod (map_trie f) id (Delete (pull f ops) t p k)"
  by (auto simp: Delete_def Let_def node_Delete_pull map_trie_def split: prod.splits option.splits)

lemma ExactLookup_pull:
  "ExactLookup ops (map_trie f t) p (f k) = ExactLookup (pull f ops) t p k"
  by (simp add: ExactLookup_def traverse_def node_traverse_pull case_prod_unfold Let_def cong: if_cong)

lemma node_traverse_sim:
  assumes "\<And>x r. fn1 x (g r) = map_prod id g (fn2 x r)"
  shows "node_traverse ops m p k fn1 n (g r) = g (node_traverse ops m p k fn2 n r)"
  by (induction n arbitrary: r) (auto simp: Let_def assms split: option.splits prod.splits)

lemma LongestPrefixMatch_pull:
  "LongestPrefixMatch ops (map_trie f t) (f k) = map_option (map_prod f id) (LongestPrefixMatch (pull f ops) t k)"
proof -
  let ?g = "map_option (map_prod f id)"
  have "node_traverse (pull f ops) m p k (\<lambda>(np, nk, v) r. (True, Some (f nk, v))) n (?g None) =
      ?g (node_traverse (pull f ops) m p k (\<lambda>(np, nk, v) r. (True, Some (nk, v))) n None)" for m p n
    by (rule node_traverse_sim) auto
  then show ?thesis by (simp add: LongestPrefixMatch_def traverse_def node_traverse_pull case_prod_unfold)
qed

section \<open>The keys of a family\<close>

fun emb4 :: "u32 \<times> int \<Rightarrow> Prefix" where
  "emb4 (a, b) = \<lparr>pf_ip = Addr4 a, pf_bits = b\<rparr>"

fun emb6 :: "u128 \<times> int \<Rightarrow> Prefix" where
  "emb6 (a, b) = \<lparr>pf_ip = Addr6 a, pf_bits = b\<rparr>"

lemma shr_sub_bit: "idx \<le> n \<Longrightarrow> (ucast (shr_sub w n idx AND 1) :: u8) = (if bit w (n - idx) then 1 else 0)"
  by (simp add: shr_sub_def and_one_eq bit_iff_odd_drop_bit mod_2_eq_odd)

lemma bit_upper: "n < 64 \<Longrightarrow> bit (upper64 a) n \<longleftrightarrow> bit a (64 + n)"
  by (simp add: upper64_def bit_ucast_iff bit_drop_bit_eq)

lemma bit_lower: "n < 64 \<Longrightarrow> bit (lower64 a) n \<longleftrightarrow> bit a n"
  by (simp add: lower64_def bit_ucast_iff)

lemma bit_mapped: "n < 32 \<Longrightarrow> bit (As16 (Addr4 a)) n \<longleftrightarrow> bit a n"
proof -
  assume n: "n < 32"
  have "(0xffff00000000 :: u128) = push_bit 32 0xffff" by simp
  then have "\<not> bit (0xffff00000000 :: u128) n" using n by (simp only: bit_push_bit_iff) simp
  then show ?thesis using n by (simp add: bit_or_iff bit_ucast_iff)
qed

lemma mapped_word: "(ucast (lower64 (As16 (Addr4 a))) :: u32) = a"
proof (rule bit_word_eqI)
  fix n assume "n < LENGTH(32)"
  then have "n < 32" by simp
  then show "bit (ucast (lower64 (As16 (Addr4 a))) :: u32) n = bit a n"
    using bit_lower [of n "As16 (Addr4 a)"] bit_mapped [of n a] by (simp add: bit_ucast_iff del: As16.simps)
qed

lemma LeadingZeros_unique:
  fixes w :: "'a::len word"
  assumes "n \<le> LENGTH('a)" "\<And>i. i < n \<Longrightarrow> \<not> bit w (LENGTH('a) - 1 - i)" "n < LENGTH('a) \<Longrightarrow> bit w (LENGTH('a) - 1 - n)"
  shows "LeadingZeros w = n"
proof (rule ccontr)
  assume ne: "LeadingZeros w \<noteq> n"
  show False
  proof (cases "LeadingZeros w < n")
    case True
    then have "bit w (LENGTH('a) - 1 - LeadingZeros w)" using LeadingZeros_bit [of w] assms(1) by simp
    then show False using assms(2) [OF True] by simp
  next
    case False
    then have "n < LeadingZeros w" using ne by simp
    moreover then have "n < LENGTH('a)" using LeadingZeros_le [of w] by simp
    ultimately show False using LeadingZeros_not_bit [of n w] assms(3) by simp
  qed
qed

lemma LeadingZeros_halves:
  "LeadingZeros (a :: u128) =
     (if LeadingZeros (upper64 a) = 64 then 64 + LeadingZeros (lower64 a) else LeadingZeros (upper64 a))"
proof (rule LeadingZeros_unique)
  let ?u = "LeadingZeros (upper64 a)" and ?l = "LeadingZeros (lower64 a)"
  have le: "?u \<le> 64" "?l \<le> 64" using LeadingZeros_le [of "upper64 a"] LeadingZeros_le [of "lower64 a"] by simp_all
  show "(if ?u = 64 then 64 + ?l else ?u) \<le> LENGTH(128)" using le by simp
  have hi: "\<not> bit a (127 - i)" if "i < ?u" for i
  proof -
    have "64 + (63 - i) = 127 - i" using le(1) that by simp
    then show ?thesis using LeadingZeros_not_bit [OF that] bit_upper [of "63 - i" a] by simp
  qed
  have lo: "\<not> bit a (63 - i)" if "i < ?l" for i
    using LeadingZeros_not_bit [OF that] bit_lower [of "63 - i" a] by simp
  show "\<not> bit a (LENGTH(128) - 1 - i)" if "i < (if ?u = 64 then 64 + ?l else ?u)" for i
  proof (cases "i < ?u")
    case False
    then have "?u = 64" "i - 64 < ?l" "64 \<le> i" using that le by (auto split: if_splits)
    then show ?thesis using lo [of "i - 64"] by simp
  qed (use hi in simp)
  show "bit a (LENGTH(128) - 1 - (if ?u = 64 then 64 + ?l else ?u))" if "(if ?u = 64 then 64 + ?l else ?u) < LENGTH(128)"
  proof (cases "?u = 64")
    case True
    then have "?l < 64" using that by simp
    then show ?thesis using True LeadingZeros_bit [of "lower64 a"] bit_lower [of "63 - ?l" a] by simp
  next
    case False
    then have "?u < 64" "64 + (63 - ?u) = 127 - ?u" using le by simp_all
    then show ?thesis using False LeadingZeros_bit [of "upper64 a"] bit_upper [of "63 - ?u" a] by simp
  qed
qed

lemma halves_xor: "upper64 (a XOR b) = upper64 a XOR upper64 b" "lower64 (a XOR b) = lower64 a XOR lower64 b"
  by (rule bit_word_eqI, simp add: bit_upper bit_lower bit_xor_iff)+

lemma emb4_ops:
  "CommonPrefix cidr_ops (emb4 k) (emb4 k') = LeadingZeros (fst k XOR fst k')"
  "i < 32 \<Longrightarrow> BitValueAt cidr_ops (emb4 k) i = (if bit (fst k) (31 - i) then 1 else 0)"
  by (cases k; cases k'; simp add: cidr_ops_def cidrKey_CommonPrefix_def mapped_word del: As16.simps)
    (cases k, simp add: cidr_ops_def cidrKey_BitValueAt_def shr_sub_bit bit_lower bit_mapped del: As16.simps)

lemma emb6_ops:
  "CommonPrefix cidr_ops (emb6 k) (emb6 k') = LeadingZeros (fst k XOR fst k')"
  "i < 128 \<Longrightarrow> BitValueAt cidr_ops (emb6 k) i = (if bit (fst k) (127 - i) then 1 else 0)"
proof -
  show "CommonPrefix cidr_ops (emb6 k) (emb6 k') = LeadingZeros (fst k XOR fst k')"
    by (cases k; cases k'; simp add: cidr_ops_def cidrKey_CommonPrefix_def LeadingZeros_halves [of "_ XOR _"] halves_xor Let_def)
  show "BitValueAt cidr_ops (emb6 k) i = (if bit (fst k) (127 - i) then 1 else 0)" if "i < 128"
  proof (cases "i < 64")
    case True
    then have "64 + (63 - i) = 127 - i" by simp
    then show ?thesis using True bit_upper [of "63 - i" "fst k"] shr_sub_bit [of i 63 "upper64 (fst k)"]
      by (cases k) (simp add: cidr_ops_def cidrKey_BitValueAt_def)
  next
    case False
    then show ?thesis using that bit_lower [of "127 - i" "fst k"] shr_sub_bit [of i 127 "lower64 (fst k)"]
      by (cases k) (simp add: cidr_ops_def cidrKey_BitValueAt_def)
  qed
qed

lemma word_key_laws:
  fixes f :: "'k \<Rightarrow> 'a::len word"
  assumes cp: "\<And>a b. CommonPrefix ops a b = LeadingZeros (f a XOR f b)"
    and bv: "\<And>a i. i < LENGTH('a) \<Longrightarrow> BitValueAt ops a i = (if bit (f a) (LENGTH('a) - 1 - i) then 1 else 0)"
  shows "bitlpm_key ops LENGTH('a)"
proof
  fix a b :: 'k and i
  show le: "CommonPrefix ops a b \<le> LENGTH('a)" unfolding cp by (rule LeadingZeros_le)
  show "agree ops (CommonPrefix ops a b) a b"
    using le LeadingZeros_xor_agree [of _ "f a" "f b"] by (simp add: agree_def cp bv)
  show "CommonPrefix ops a b < LENGTH('a) \<Longrightarrow> BitValueAt ops a (CommonPrefix ops a b) \<noteq> BitValueAt ops b (CommonPrefix ops a b)"
    using LeadingZeros_xor_differ [of "f a" "f b"] by (auto simp: cp bv)
  show "i < LENGTH('a) \<Longrightarrow> BitValueAt ops a i = 0 \<or> BitValueAt ops a i = 1" by (simp add: bv)
qed

lemma word_key_agree:
  fixes f :: "'k \<Rightarrow> 'a::len word"
  assumes bv: "\<And>a i. i < LENGTH('a) \<Longrightarrow> BitValueAt ops a i = (if bit (f a) (LENGTH('a) - 1 - i) then 1 else 0)"
    and m: "m \<le> LENGTH('a)"
  shows "agree ops m a b \<longleftrightarrow> keep_bits m (f a) = keep_bits m (f b)"
proof -
  have "agree ops m a b \<longleftrightarrow> (\<forall>i < m. bit (f a) (LENGTH('a) - 1 - i) = bit (f b) (LENGTH('a) - 1 - i))"
    using m by (auto simp: agree_def bv)
  also have "\<dots> \<longleftrightarrow> (\<forall>i. LENGTH('a) - m \<le> i \<longrightarrow> bit (f a) i = bit (f b) i)"
  proof safe
    fix i assume *: "\<forall>i < m. bit (f a) (LENGTH('a) - 1 - i) = bit (f b) (LENGTH('a) - 1 - i)" "LENGTH('a) - m \<le> i"
    have "bit (f a) i = bit (f b) i" if "i < LENGTH('a)"
      using *(1) [rule_format, of "LENGTH('a) - 1 - i"] *(2) that m by simp
    then have "bit (f a) i = bit (f b) i" by (cases "i < LENGTH('a)") (auto dest: bit_imp_le_length)
    then show "bit (f a) i \<Longrightarrow> bit (f b) i" "bit (f b) i \<Longrightarrow> bit (f a) i" by simp_all
  qed (use m in \<open>auto dest: spec [of _ "LENGTH('a) - 1 - _"]\<close>)
  finally show ?thesis by (simp add: keep_bits_eq_iff [OF m])
qed

text \<open>
  The contract of the keys of a family: they obey the laws of the bit trie, and agree on a prefix
  length exactly if their masked addresses are the same.
\<close>

locale cidr_family = bitlpm_key "pull emb cidr_ops" w for emb :: "'k \<Rightarrow> Prefix" and w :: nat +
  assumes agree_mask: "m \<le> w \<Longrightarrow> agree (pull emb cidr_ops) m a b \<longleftrightarrow> mask_addr m (pf_ip (emb a)) = mask_addr m (pf_ip (emb b))"
    and contains_emb: "prefix_valid p \<and> Prefix_Contains p (pf_ip (emb k)) \<longleftrightarrow>
      (\<exists>k' m. p = emb k' \<and> pf_bits p = int m \<and> m \<le> w \<and> mask_addr m (pf_ip p) = mask_addr m (pf_ip (emb k)))"

text \<open>What a longest prefix match promises: the best of the stored prefixes that contain the address.\<close>

definition best_match :: "(Prefix \<Rightarrow> 'v option) \<Rightarrow> Addr \<Rightarrow> (Prefix \<times> 'v) option \<Rightarrow> bool" where
  "best_match lookup addr r \<longleftrightarrow>
     (case r of
        None \<Rightarrow> \<forall>p. prefix_valid p \<and> Prefix_Contains p addr \<longrightarrow> lookup p = None
      | Some (q, v) \<Rightarrow>
          prefix_valid q \<and> Prefix_Contains q addr \<and> lookup q = Some v \<and>
          (\<forall>p. prefix_valid p \<and> Prefix_Contains p addr \<and> lookup p \<noteq> None \<longrightarrow> pf_bits p \<le> pf_bits q))"

lemma best_match_cong:
  assumes "\<And>p. prefix_valid p \<Longrightarrow> Prefix_Contains p addr \<Longrightarrow> f p = g p"
  shows "best_match f addr r \<longleftrightarrow> best_match g addr r"
  using assms by (fastforce simp: best_match_def split: option.splits)

definition family_ok :: "('k \<Rightarrow> Prefix) \<Rightarrow> nat \<Rightarrow> (Prefix, 'v) trie \<Rightarrow> bool" where
  "family_ok emb w T \<longleftrightarrow>
     (\<exists>t. T = map_trie emb t \<and> wf_trie (pull emb cidr_ops) w t \<and>
        (\<forall>(p, k, v) \<in> set (trie_entry_list t). pf_bits (emb k) = int p))"

context cidr_family begin

lemma family_Upsert:
  assumes T: "family_ok emb w T" and p: "p \<le> w" "pf_bits (emb k) = int p"
  shows "family_ok emb w (fst (Upsert cidr_ops T p (emb k) v)) \<and>
    (p' \<le> w \<longrightarrow> ExactLookup cidr_ops (fst (Upsert cidr_ops T p (emb k) v)) p' (emb k') =
      (if p' = p \<and> mask_addr p (pf_ip (emb k)) = mask_addr p (pf_ip (emb k')) then Some v
       else ExactLookup cidr_ops T p' (emb k')))"
proof -
  obtain t where t: "T = map_trie emb t" "wf_trie (pull emb cidr_ops) w t"
    "\<forall>(p, k, v) \<in> set (trie_entry_list t). pf_bits (emb k) = int p" using T by (auto simp: family_ok_def)
  have "\<forall>(p, k, v) \<in> set (trie_entry_list (fst (Upsert (pull emb cidr_ops) t p k v))). pf_bits (emb k) = int p"
    unfolding Upsert_entries [OF t(2) p(1)] using t(3) p(2) by (auto simp: others_def)
  then have "family_ok emb w (map_trie emb (fst (Upsert (pull emb cidr_ops) t p k v)))"
    using Upsert_wf [OF t(2) p(1)] unfolding family_ok_def by blast
  then show ?thesis
    using ExactLookup_Upsert [OF t(2) p(1)] agree_mask [OF p(1)]
    by (simp add: t(1) Upsert_pull ExactLookup_pull)
qed

lemma family_Delete:
  assumes T: "family_ok emb w T" and p: "p \<le> w"
  shows "family_ok emb w (fst (Delete cidr_ops T p (emb k))) \<and>
    (snd (Delete cidr_ops T p (emb k)) \<longleftrightarrow> ExactLookup cidr_ops T p (emb k) \<noteq> None) \<and>
    (p' \<le> w \<longrightarrow> ExactLookup cidr_ops (fst (Delete cidr_ops T p (emb k))) p' (emb k') =
      (if p' = p \<and> mask_addr p (pf_ip (emb k)) = mask_addr p (pf_ip (emb k')) then None
       else ExactLookup cidr_ops T p' (emb k')))"
proof -
  obtain t where t: "T = map_trie emb t" "wf_trie (pull emb cidr_ops) w t"
    "\<forall>(p, k, v) \<in> set (trie_entry_list t). pf_bits (emb k) = int p" using T by (auto simp: family_ok_def)
  note spec = Delete_spec [OF t(2) p, of k]
  have "\<forall>(p, k, v) \<in> set (trie_entry_list (fst (Delete (pull emb cidr_ops) t p k))). pf_bits (emb k) = int p"
    using t(3) spec by (auto simp: others_def)
  then have "family_ok emb w (map_trie emb (fst (Delete (pull emb cidr_ops) t p k)))"
    using spec unfolding family_ok_def by blast
  then show ?thesis
    using ExactLookup_Delete [OF t(2) p] Delete_found [OF t(2) p] agree_mask [OF p]
    by (simp add: t(1) Delete_pull ExactLookup_pull)
qed

lemma family_lookup_entry:
  assumes "wf_trie (pull emb cidr_ops) w t" "(p, k, v) \<in> set (trie_entry_list t)"
  shows "p \<le> w" "ExactLookup cidr_ops (map_trie emb t) p (emb k) = Some v"
  using trie_entry_le [OF assms] ExactLookup_iff [OF assms(1), of p k v] assms(2)
  by (auto simp: ExactLookup_pull)

lemma family_LongestPrefixMatch:
  assumes T: "family_ok emb w T"
  shows "best_match (\<lambda>p. ExactLookup cidr_ops T (nat (pf_bits p)) p) (pf_ip (emb k)) (LongestPrefixMatch cidr_ops T (emb k))"
proof -
  obtain t where t: "T = map_trie emb t" "wf_trie (pull emb cidr_ops) w t"
    "\<forall>(p, k, v) \<in> set (trie_entry_list t). pf_bits (emb k) = int p" using T by (auto simp: family_ok_def)
  have entry: "\<exists>k1 v. (nat (pf_bits p), k1, v) \<in> set (trie_entry_list t) \<and> agree (pull emb cidr_ops) (nat (pf_bits p)) k1 k"
    if pv: "prefix_valid p" "Prefix_Contains p (pf_ip (emb k))" and l: "ExactLookup cidr_ops T (nat (pf_bits p)) p \<noteq> None" for p
  proof -
    obtain k' m where p: "p = emb k'" "pf_bits p = int m" "m \<le> w" "mask_addr m (pf_ip p) = mask_addr m (pf_ip (emb k))"
      using contains_emb [of p k] pv by blast
    obtain v where "ExactLookup (pull emb cidr_ops) t m k' = Some v"
      using l unfolding t(1) p(2) nat_int unfolding p(1) ExactLookup_pull by blast
    then obtain k1 where "(m, k1, v) \<in> set (trie_entry_list t)" "agree (pull emb cidr_ops) m k1 k'"
      using ExactLookup_iff [OF t(2) p(3)] by blast
    moreover have "agree (pull emb cidr_ops) m k' k" using p agree_mask [OF p(3)] by simp
    ultimately show ?thesis using agree_trans p(2) by (metis nat_int)
  qed
  show ?thesis
  proof (cases "LongestPrefixMatch (pull emb cidr_ops) t k")
    case None
    then have no: "\<not> agree (pull emb cidr_ops) m k1 k" if "(m, k1, v) \<in> set (trie_entry_list t)" for m k1 v
      using LongestPrefixMatch_None [OF t(2), of k] that by blast
    have "LongestPrefixMatch cidr_ops T (emb k) = None" using None by (simp add: t(1) LongestPrefixMatch_pull)
    then show ?thesis using entry no unfolding best_match_def by (simp del: not_None_eq) blast
  next
    case (Some r)
    obtain kq v where r: "r = (kq, v)" by force
    obtain m where m: "(m, kq, v) \<in> set (trie_entry_list t)" "agree (pull emb cidr_ops) m kq k"
      "\<And>q k2 v2. (q, k2, v2) \<in> set (trie_entry_list t) \<Longrightarrow> agree (pull emb cidr_ops) q k2 k \<Longrightarrow> q \<le> m"
      using LongestPrefixMatch_Some [OF t(2) Some [unfolded r]] by blast
    note e = family_lookup_entry [OF t(2) m(1)]
    have bits: "pf_bits (emb kq) = int m" using t(3) m(1) by fastforce
    have "mask_addr m (pf_ip (emb kq)) = mask_addr m (pf_ip (emb k))" using m(2) agree_mask [OF e(1)] by simp
    then have "prefix_valid (emb kq) \<and> Prefix_Contains (emb kq) (pf_ip (emb k))"
      using contains_emb [of "emb kq" k] bits e(1) by blast
    moreover have "ExactLookup cidr_ops T (nat (pf_bits (emb kq))) (emb kq) = Some v" using e(2) bits by (simp add: t(1))
    moreover have "pf_bits p \<le> pf_bits (emb kq)"
      if p: "prefix_valid p" "Prefix_Contains p (pf_ip (emb k))" "ExactLookup cidr_ops T (nat (pf_bits p)) p \<noteq> None" for p
    proof -
      have "nat (pf_bits p) \<le> m" using entry [OF p] m(3) by blast
      then show ?thesis using bits p(1) by (simp add: prefix_valid_def nat_le_iff)
    qed
    moreover have "LongestPrefixMatch cidr_ops T (emb k) = Some (emb kq, v)" using Some r by (simp add: t(1) LongestPrefixMatch_pull)
    ultimately show ?thesis unfolding best_match_def by simp
  qed
qed

end

lemma emb_sel [simp]:
  "pf_ip (emb4 (a, b)) = Addr4 a" "pf_bits (emb4 (a, b)) = b" "pf_ip (emb6 (a6, b)) = Addr6 a6" "pf_bits (emb6 (a6, b)) = b"
  by simp_all

declare emb4.simps [simp del] emb6.simps [simp del]

lemma valid_prefix_cases:
  assumes "prefix_valid p"
  obtains a b where "p = emb4 (a, int b)" "b \<le> 32" | a b where "p = emb6 (a, int b)" "b \<le> 128"
proof (cases "pf_ip p")
  case (Addr4 a)
  then show ?thesis using assms that(1) [of a "nat (pf_bits p)"] by (cases p) (simp add: prefix_valid_def nat_le_iff emb4.simps emb6.simps)
next
  case (Addr6 a)
  then show ?thesis using assms that(2) [of a "nat (pf_bits p)"] by (cases p) (simp add: prefix_valid_def nat_le_iff emb4.simps emb6.simps)
qed (use assms in \<open>simp add: prefix_valid_def\<close>)

lemma contains4:
  "prefix_valid p \<and> Prefix_Contains p (pf_ip (emb4 k)) \<longleftrightarrow>
     (\<exists>k' m. p = emb4 k' \<and> pf_bits p = int m \<and> m \<le> 32 \<and> mask_addr m (pf_ip p) = mask_addr m (pf_ip (emb4 k)))"
proof
  assume l: "prefix_valid p \<and> Prefix_Contains p (pf_ip (emb4 k))"
  then have "prefix_valid p" by simp
  then show "\<exists>k' m. p = emb4 k' \<and> pf_bits p = int m \<and> m \<le> 32 \<and> mask_addr m (pf_ip p) = mask_addr m (pf_ip (emb4 k))"
  proof (cases rule: valid_prefix_cases)
    case (1 a b)
    then show ?thesis using l by (intro exI [of _ "(a, int b)"] exI [of _ b]) (simp add: Prefix_Contains_def)
  next
    case (2 a b)
    then show ?thesis using l by (cases k) (simp add: Prefix_Contains_def)
  qed
qed (cases k; auto simp: Prefix_Contains_def prefix_valid_def)

lemma contains6:
  "prefix_valid p \<and> Prefix_Contains p (pf_ip (emb6 k)) \<longleftrightarrow>
     (\<exists>k' m. p = emb6 k' \<and> pf_bits p = int m \<and> m \<le> 128 \<and> mask_addr m (pf_ip p) = mask_addr m (pf_ip (emb6 k)))"
proof
  assume l: "prefix_valid p \<and> Prefix_Contains p (pf_ip (emb6 k))"
  then have "prefix_valid p" by simp
  then show "\<exists>k' m. p = emb6 k' \<and> pf_bits p = int m \<and> m \<le> 128 \<and> mask_addr m (pf_ip p) = mask_addr m (pf_ip (emb6 k))"
  proof (cases rule: valid_prefix_cases)
    case (1 a b)
    then show ?thesis using l by (cases k) (simp add: Prefix_Contains_def)
  next
    case (2 a b)
    then show ?thesis using l by (intro exI [of _ "(a, int b)"] exI [of _ b]) (simp add: Prefix_Contains_def)
  qed
qed (cases k; auto simp: Prefix_Contains_def prefix_valid_def)

interpretation family4: cidr_family emb4 32
proof -
  have bv: "i < LENGTH(32) \<Longrightarrow> BitValueAt (pull emb4 cidr_ops) a i = (if bit (fst a) (LENGTH(32) - 1 - i) then 1 else 0)" for a i
    by (simp add: emb4_ops)
  have "bitlpm_key (pull emb4 cidr_ops) LENGTH(32)" by (rule word_key_laws [where f = fst]) (simp_all add: emb4_ops)
  moreover have "agree (pull emb4 cidr_ops) m a b \<longleftrightarrow> mask_addr m (pf_ip (emb4 a)) = mask_addr m (pf_ip (emb4 b))" if "m \<le> 32" for m a b
    using word_key_agree [of "pull emb4 cidr_ops" fst m a b, OF bv] that by (cases a; cases b) simp
  ultimately show "cidr_family emb4 32" using contains4 unfolding cidr_family_def cidr_family_axioms_def by simp
qed

interpretation family6: cidr_family emb6 128
proof -
  have bv: "i < LENGTH(128) \<Longrightarrow> BitValueAt (pull emb6 cidr_ops) a i = (if bit (fst a) (LENGTH(128) - 1 - i) then 1 else 0)" for a i
    by (simp add: emb6_ops)
  have "bitlpm_key (pull emb6 cidr_ops) LENGTH(128)" by (rule word_key_laws [where f = fst]) (simp_all add: emb6_ops)
  moreover have "agree (pull emb6 cidr_ops) m a b \<longleftrightarrow> mask_addr m (pf_ip (emb6 a)) = mask_addr m (pf_ip (emb6 b))" if "m \<le> 128" for m a b
    using word_key_agree [of "pull emb6 cidr_ops" fst m a b, OF bv] that by (cases a; cases b) simp
  ultimately show "cidr_family emb6 128" using contains6 unfolding cidr_family_def cidr_family_axioms_def by simp
qed

section \<open>Properties\<close>

definition wf_cidr :: "'v CIDRTrie \<Rightarrow> bool" where
  "wf_cidr c \<longleftrightarrow> family_ok emb4 32 (ct_v4 c) \<and> family_ok emb6 128 (ct_v6 c)"

lemma NewCIDRTrie_wf: "wf_cidr NewCIDRTrie"
proof -
  have "family_ok emb4 32 (NewTrie 32 :: (Prefix, 'v) trie)" unfolding family_ok_def
    by (rule exI [of _ "NewTrie 32"]) (use family4.wf_NewTrie [of 32] in \<open>simp add: map_trie_def NewTrie_def trie_entry_list_def\<close>)
  moreover have "family_ok emb6 128 (NewTrie 128 :: (Prefix, 'v) trie)" unfolding family_ok_def
    by (rule exI [of _ "NewTrie 128"]) (use family6.wf_NewTrie [of 128] in \<open>simp add: map_trie_def NewTrie_def trie_entry_list_def\<close>)
  ultimately show ?thesis by (simp add: wf_cidr_def NewCIDRTrie_def)
qed

lemma emb_lookup:
  "b \<le> 128 \<Longrightarrow> CIDRTrie_ExactLookup c (emb4 (a, int b)) = ExactLookup cidr_ops (ct_v4 c) b (emb4 (a, int b))"
  "b \<le> 128 \<Longrightarrow> CIDRTrie_ExactLookup c (emb6 (a6, int b)) = ExactLookup cidr_ops (ct_v6 c) b (emb6 (a6, int b))"
  by (simp_all add: CIDRTrie_ExactLookup_def treeForFamily_def uint_bits_def)

lemma emb_Upsert:
  "b \<le> 128 \<Longrightarrow> fst (CIDRTrie_Upsert c (emb4 (a, int b)) v) = c\<lparr>ct_v4 := fst (Upsert cidr_ops (ct_v4 c) b (emb4 (a, int b)) v)\<rparr>"
  "b \<le> 128 \<Longrightarrow> fst (CIDRTrie_Upsert c (emb6 (a6, int b)) v) = c\<lparr>ct_v6 := fst (Upsert cidr_ops (ct_v6 c) b (emb6 (a6, int b)) v)\<rparr>"
  by (simp_all add: CIDRTrie_Upsert_def treeForFamily_def setTreeForFamily_def uint_bits_def split_beta)

lemma emb_Delete:
  "b \<le> 128 \<Longrightarrow> CIDRTrie_Delete c (emb4 (a, int b)) =
     (c\<lparr>ct_v4 := fst (Delete cidr_ops (ct_v4 c) b (emb4 (a, int b)))\<rparr>, snd (Delete cidr_ops (ct_v4 c) b (emb4 (a, int b))))"
  "b \<le> 128 \<Longrightarrow> CIDRTrie_Delete c (emb6 (a6, int b)) =
     (c\<lparr>ct_v6 := fst (Delete cidr_ops (ct_v6 c) b (emb6 (a6, int b)))\<rparr>, snd (Delete cidr_ops (ct_v6 c) b (emb6 (a6, int b))))"
  by (simp_all add: CIDRTrie_Delete_def treeForFamily_def setTreeForFamily_def uint_bits_def split_beta)

lemma emb_Masked:
  "Masked (emb4 (a, int b)) = Masked (emb4 (a', int b')) \<longleftrightarrow> b' = b \<and> mask_addr b (Addr4 a) = mask_addr b (Addr4 a')"
  "Masked (emb6 (a6, int b)) = Masked (emb6 (a6', int b')) \<longleftrightarrow> b' = b \<and> mask_addr b (Addr6 a6) = mask_addr b (Addr6 a6')"
  "Masked (emb4 (a, int b)) \<noteq> Masked (emb6 (a6, int b'))" "Masked (emb6 (a6, int b)) \<noteq> Masked (emb4 (a, int b'))"
  by (auto simp: Masked_def)

lemmas emb_ops = emb_lookup emb_Upsert emb_Delete emb_Masked

lemma CIDRTrie_Upsert_ok:
  assumes c: "wf_cidr c" and p: "prefix_valid p" and q: "prefix_valid q"
  shows "wf_cidr (fst (CIDRTrie_Upsert c p v)) \<and>
    CIDRTrie_ExactLookup (fst (CIDRTrie_Upsert c p v)) q = (if Masked p = Masked q then Some v else CIDRTrie_ExactLookup c q)"
proof -
  have c4: "family_ok emb4 32 (ct_v4 c)" and c6: "family_ok emb6 128 (ct_v6 c)" using c by (simp_all add: wf_cidr_def)
  show ?thesis
  proof (rule valid_prefix_cases [OF p])
    fix a b assume P: "p = emb4 (a, int b)" "b \<le> 32"
    have "pf_bits (emb4 (a, int b)) = int b" by simp
    note up = family4.family_Upsert [OF c4 P(2) this, of v]
    show ?thesis
      by (rule valid_prefix_cases [OF q])
        (use up c6 P(2) in \<open>simp_all add: P(1) emb_ops wf_cidr_def\<close>)
  next
    fix a b assume P: "p = emb6 (a, int b)" "b \<le> 128"
    have "pf_bits (emb6 (a, int b)) = int b" by simp
    note up = family6.family_Upsert [OF c6 P(2) this, of v]
    show ?thesis
      by (rule valid_prefix_cases [OF q])
        (use up c4 P(2) in \<open>simp_all add: P(1) emb_ops wf_cidr_def\<close>)
  qed
qed

lemma CIDRTrie_Delete_ok:
  assumes c: "wf_cidr c" and p: "prefix_valid p" and q: "prefix_valid q"
  shows "wf_cidr (fst (CIDRTrie_Delete c p)) \<and> (snd (CIDRTrie_Delete c p) \<longleftrightarrow> CIDRTrie_ExactLookup c p \<noteq> None) \<and>
    CIDRTrie_ExactLookup (fst (CIDRTrie_Delete c p)) q = (if Masked p = Masked q then None else CIDRTrie_ExactLookup c q)"
proof -
  have c4: "family_ok emb4 32 (ct_v4 c)" and c6: "family_ok emb6 128 (ct_v6 c)" using c by (simp_all add: wf_cidr_def)
  show ?thesis
  proof (rule valid_prefix_cases [OF p])
    fix a b assume P: "p = emb4 (a, int b)" "b \<le> 32"
    note del = family4.family_Delete [OF c4 P(2), of "(a, int b)"]
    show ?thesis
      by (rule valid_prefix_cases [OF q]) (use del c6 P(2) in \<open>simp_all add: P(1) emb_ops wf_cidr_def\<close>)
  next
    fix a b assume P: "p = emb6 (a, int b)" "b \<le> 128"
    note del = family6.family_Delete [OF c6 P(2), of "(a, int b)"]
    show ?thesis
      by (rule valid_prefix_cases [OF q]) (use del c4 P(2) in \<open>simp_all add: P(1) emb_ops wf_cidr_def\<close>)
  qed
qed

lemma CIDRTrie_LongestPrefixMatch_ok:
  assumes "wf_cidr c"
  shows "best_match (CIDRTrie_ExactLookup c) addr (CIDRTrie_LongestPrefixMatch c addr)"
proof (cases addr)
  case AddrZero
  then show ?thesis by (auto simp: best_match_def CIDRTrie_LongestPrefixMatch_def Prefix_Contains_def)
next
  case (Addr4 a)
  have eq: "CIDRTrie_ExactLookup c p = ExactLookup cidr_ops (ct_v4 c) (nat (pf_bits p)) p"
    if pv: "prefix_valid p" "Prefix_Contains p (pf_ip (emb4 (a, 32)))" for p
  proof -
    obtain k' m where "p = emb4 k'" "pf_bits p = int m" "m \<le> 32" using contains4 [of p "(a, 32)"] pv by blast
    then show ?thesis by (cases k') (simp add: CIDRTrie_ExactLookup_def treeForFamily_def uint_bits_def)
  qed
  have ok: "family_ok emb4 32 (ct_v4 c)" using assms by (simp add: wf_cidr_def)
  have "best_match (CIDRTrie_ExactLookup c) (pf_ip (emb4 (a, 32))) (LongestPrefixMatch cidr_ops (ct_v4 c) (emb4 (a, 32)))"
    by (rule iffD2 [OF best_match_cong family4.family_LongestPrefixMatch [OF ok]]) (rule eq)
  then show ?thesis
    by (simp add: Addr4 CIDRTrie_LongestPrefixMatch_def PrefixFrom_def treeForFamily_def emb4.simps)
next
  case (Addr6 a)
  have eq: "CIDRTrie_ExactLookup c p = ExactLookup cidr_ops (ct_v6 c) (nat (pf_bits p)) p"
    if pv: "prefix_valid p" "Prefix_Contains p (pf_ip (emb6 (a, 128)))" for p
  proof -
    obtain k' m where "p = emb6 k'" "pf_bits p = int m" "m \<le> 128" using contains6 [of p "(a, 128)"] pv by blast
    then show ?thesis by (cases k') (simp add: CIDRTrie_ExactLookup_def treeForFamily_def uint_bits_def)
  qed
  have ok: "family_ok emb6 128 (ct_v6 c)" using assms by (simp add: wf_cidr_def)
  have "best_match (CIDRTrie_ExactLookup c) (pf_ip (emb6 (a, 128))) (LongestPrefixMatch cidr_ops (ct_v6 c) (emb6 (a, 128)))"
    by (rule iffD2 [OF best_match_cong family6.family_LongestPrefixMatch [OF ok]]) (rule eq)
  then show ?thesis
    by (simp add: Addr6 CIDRTrie_LongestPrefixMatch_def PrefixFrom_def treeForFamily_def emb6.simps)
qed

text \<open>
  C16.  The trie of prefixes is a map from networks of both families to values.  An upsert changes the
  value of exactly the networks equal to the prefix up to host bits, a delete removes it and tells
  whether it was there, both keep the trie well formed, and the longest prefix match of an address
  returns the stored network with the longest prefix that contains the address, or nothing if no
  stored network contains it.
\<close>

theorem cidr_trie_refines_map:
  assumes "wf_cidr c" "prefix_valid p" "prefix_valid q"
  shows "wf_cidr (fst (CIDRTrie_Upsert c p v)) \<and>
    CIDRTrie_ExactLookup (fst (CIDRTrie_Upsert c p v)) q = (if Masked p = Masked q then Some v else CIDRTrie_ExactLookup c q) \<and>
    wf_cidr (fst (CIDRTrie_Delete c p)) \<and> (snd (CIDRTrie_Delete c p) \<longleftrightarrow> CIDRTrie_ExactLookup c p \<noteq> None) \<and>
    CIDRTrie_ExactLookup (fst (CIDRTrie_Delete c p)) q = (if Masked p = Masked q then None else CIDRTrie_ExactLookup c q) \<and>
    best_match (CIDRTrie_ExactLookup c) addr (CIDRTrie_LongestPrefixMatch c addr)"
  using CIDRTrie_Upsert_ok [OF assms] CIDRTrie_Delete_ok [OF assms] CIDRTrie_LongestPrefixMatch_ok [OF assms(1)] by blast

theorem cidr_trie_refines_map_witness:
  "CIDRTrie_ExactLookup (fst (CIDRTrie_Upsert NewCIDRTrie (PrefixFrom (Addr4 0x0A000000) 8) (7::nat)))
     (PrefixFrom (Addr4 0x0A010203) 8) = Some 7"
proof -
  have "Masked (PrefixFrom (Addr4 0x0A000000) 8) = Masked (PrefixFrom (Addr4 0x0A010203) 8)" by code_simp
  then show ?thesis
    using cidr_trie_refines_map [OF NewCIDRTrie_wf PrefixFrom_valid PrefixFrom_valid, of "Addr4 0x0A000000" 8 "Addr4 0x0A010203" 8 "7::nat"]
    by simp
qed

end
