(* ===== verification/CidrSets.thy ===== *)
theory CidrSets
  imports Bitmap NetipBits "HOL-Library.Monad_Syntax"
begin

text \<open>
  The allocator of the blocks of a cluster prefix (\<^verbatim>\<open>pkg/ipam/cidrset\<close>).  Conversions of a signed
  difference to an unsigned shift count wrap around.  A conversion of an IPv6 address to four bytes
  panics: the result \<^verbatim>\<open>None\<close>.
\<close>

section \<open>The last address of a prefix\<close>

text \<open>
  The set of all bits from a position on, counted from the most significant bit, and the last address
  of a prefix (\<^verbatim>\<open>vendor/go4.org/netipx\<close>).
\<close>

definition bitsSetFrom :: "nat \<Rightarrow> u128 \<Rightarrow> u128" where
  "bitsSetFrom n u = u OR NOT (push_bit (128 - n) (NOT 0))"

definition PrefixLastIP :: "Prefix \<Rightarrow> Addr" where
  "PrefixLastIP p =
     (if \<not> prefix_valid p then AddrZero
      else if pf_bits p = int (BitLen (pf_ip p)) then pf_ip p
      else
        let u = As16 (pf_ip p) in
        if Is4 (pf_ip p) then Addr4 (ucast (bitsSetFrom (nat ((96 + pf_bits p) mod 256)) u))
        else Addr6 (bitsSetFrom (nat (pf_bits p mod 256)) u))"

section \<open>The block allocator\<close>

datatype cidrError =
    ErrCIDRRangeNoCIDRsRemaining
  | ErrCIDRSetSubNetTooBig
  | ErrSubNetMaskSizeInvalid
  | ErrOutOfClusterCIDR Prefix
  | ErrOutOfAllocator Addr
  | ErrCIDRCollision string Prefix
  | ErrParsePrefix string
  | ErrFamily Prefix

record CidrSet =
  cs_clusterPrefix :: Prefix
  cs_nodeMaskSize :: int
  cs_maxCIDRs :: int
  cs_unavailableCIDRs :: int
  cs_nextCandidate :: nat
  cs_used :: nat
  cs_reserved :: nat

definition uint32_count :: "int \<Rightarrow> nat" where
  "uint32_count n = nat (n mod 2 ^ 32)"

definition uint64_count :: "int \<Rightarrow> nat" where
  "uint64_count n = nat (n mod 2 ^ 64)"

definition shl_one :: "nat \<Rightarrow> int" where
  "shl_one n = (if n < 64 then sint (push_bit n (1 :: u64)) else 0)"

definition NewCIDRSet :: "Prefix \<Rightarrow> int \<Rightarrow> cidrError + CidrSet" where
  "NewCIDRSet prefix subNetMaskSize =
     (let clusterPrefix = Masked prefix; clusterMaskSize = pf_bits clusterPrefix in
      if Is6 (pf_ip clusterPrefix) \<and> subNetMaskSize > 128 then Inl ErrSubNetMaskSizeInvalid
      else if Is6 (pf_ip clusterPrefix) \<and> subNetMaskSize - clusterMaskSize > 16 then Inl ErrCIDRSetSubNetTooBig
      else if \<not> Is6 (pf_ip clusterPrefix) \<and> subNetMaskSize > 32 then Inl ErrSubNetMaskSizeInvalid
      else Inr
        \<lparr>cs_clusterPrefix = clusterPrefix, cs_nodeMaskSize = subNetMaskSize,
         cs_maxCIDRs = shl_one (uint32_count (subNetMaskSize - clusterMaskSize)),
         cs_unavailableCIDRs = 0, cs_nextCandidate = 0, cs_used = 0, cs_reserved = 0\<rparr>)"

definition indexToCIDRBlock :: "CidrSet \<Rightarrow> nat \<Rightarrow> Prefix" where
  "indexToCIDRBlock s index =
     (case pf_ip (cs_clusterPrefix s) of
        Addr4 a \<Rightarrow>
          let j = push_bit (uint32_count (32 - cs_nodeMaskSize s)) (of_nat index :: u32)
          in PrefixFrom (Addr4 (a OR j)) (cs_nodeMaskSize s)
      | _ \<Rightarrow>
          let a = As16 (pf_ip (cs_clusterPrefix s)); left = upper64 a; right = lower64 a; i = of_nat index :: u64;
              (left, right) =
                (if cs_nodeMaskSize s \<le> 64 then
                   (left OR push_bit (uint64_count (64 - cs_nodeMaskSize s)) i, right)
                 else
                   (if pf_bits (cs_clusterPrefix s) < 64 \<and> 64 - LeadingZeros i > uint64_count (cs_nodeMaskSize s - 64)
                    then left OR drop_bit (uint64_count (cs_nodeMaskSize s - 64)) i else left,
                    right OR push_bit (uint64_count (128 - cs_nodeMaskSize s)) i))
          in PrefixFrom (Addr6 (join64 left right)) (cs_nodeMaskSize s))"

definition IsFull :: "CidrSet \<Rightarrow> bool" where
  "IsFull s \<longleftrightarrow> cs_unavailableCIDRs s = cs_maxCIDRs s"

text \<open>The search for a free block, at most as often as there are blocks.\<close>

fun nextFree :: "nat \<Rightarrow> CidrSet \<Rightarrow> nat \<Rightarrow> nat" where
  "nextFree 0 s candidate = candidate"
| "nextFree (Suc n) s candidate =
     (if \<not> bit (cs_used s) candidate \<and> \<not> bit (cs_reserved s) candidate then candidate
      else nextFree n s ((candidate + 1) mod nat (cs_maxCIDRs s)))"

definition CidrSet_AllocateNext :: "CidrSet \<Rightarrow> cidrError + Prefix \<times> CidrSet" where
  "CidrSet_AllocateNext s =
     (if cs_unavailableCIDRs s = cs_maxCIDRs s then Inl ErrCIDRRangeNoCIDRsRemaining
      else
        let candidate = nextFree (nat (cs_maxCIDRs s)) s (cs_nextCandidate s);
            s' = s\<lparr>cs_nextCandidate := (candidate + 1) mod nat (cs_maxCIDRs s),
                   cs_used := set_bit candidate (cs_used s), cs_unavailableCIDRs := cs_unavailableCIDRs s + 1\<rparr>
        in Inr (indexToCIDRBlock s candidate, s'))"

definition InRange :: "CidrSet \<Rightarrow> Prefix \<Rightarrow> bool" where
  "InRange s prefix \<longleftrightarrow>
     Prefix_Contains (cs_clusterPrefix s) (pf_ip prefix) \<or> Prefix_Contains prefix (pf_ip (cs_clusterPrefix s))"

definition IsClusterCIDR :: "CidrSet \<Rightarrow> Prefix \<Rightarrow> bool" where
  "IsClusterCIDR s prefix \<longleftrightarrow> prefix = cs_clusterPrefix s"

definition getIndexForAddr :: "CidrSet \<Rightarrow> Addr \<Rightarrow> (cidrError + nat) option" where
  "getIndexForAddr s addr =
     (case addr of
        Addr4 a \<Rightarrow>
          do {
            c \<leftarrow> As4 (pf_ip (cs_clusterPrefix s));
            let cidrIndex = drop_bit (uint32_count (32 - cs_nodeMaskSize s)) (c XOR a);
            if cidrIndex \<ge> word_of_int (cs_maxCIDRs s) then Some (Inl (ErrOutOfAllocator addr))
            else Some (Inr (unat cidrIndex))
          }
      | _ \<Rightarrow>
          let bigIP = unat (As16 (pf_ip (cs_clusterPrefix s)) XOR As16 addr);
              cidrIndex = (of_nat (drop_bit (uint64_count (128 - cs_nodeMaskSize s)) bigIP) :: u64)
          in if cidrIndex \<ge> word_of_int (cs_maxCIDRs s) then Some (Inl (ErrOutOfAllocator addr))
             else Some (Inr (unat cidrIndex)))"

definition getBeginningAndEndIndices :: "CidrSet \<Rightarrow> Prefix \<Rightarrow> (cidrError + int \<times> int) option" where
  "getBeginningAndEndIndices s prefix =
     (if \<not> InRange s prefix then Some (Inl (ErrOutOfClusterCIDR prefix))
      else if pf_bits (cs_clusterPrefix s) < pf_bits prefix then
        do {
          b \<leftarrow> getIndexForAddr s (pf_ip (Masked (PrefixFrom (pf_ip prefix) (cs_nodeMaskSize s))));
          case b of
            Inl err \<Rightarrow> Some (Inl err)
          | Inr begin' \<Rightarrow>
              do {
                e \<leftarrow> getIndexForAddr s (pf_ip (Masked (PrefixFrom (PrefixLastIP prefix) (cs_nodeMaskSize s))));
                case e of Inl err \<Rightarrow> Some (Inl err) | Inr end' \<Rightarrow> Some (Inr (int begin', int end'))
              }
        }
      else Some (Inr (0, cs_maxCIDRs s - 1)))"

definition CidrSet_IsAllocated :: "Prefix \<Rightarrow> CidrSet \<Rightarrow> (cidrError + bool) option" where
  "CidrSet_IsAllocated prefix s = do {
     r \<leftarrow> getBeginningAndEndIndices s prefix;
     case r of
       Inl err \<Rightarrow> Some (Inl err)
     | Inr (begin', end') \<Rightarrow> Some (Inr (list_all (\<lambda>i. bit (cs_used s) (nat i)) [begin'..end']))
   }"

definition releaseIndex :: "nat \<Rightarrow> CidrSet \<Rightarrow> CidrSet" where
  "releaseIndex i s =
     (if bit (cs_used s) i then
        let s' = s\<lparr>cs_used := unset_bit i (cs_used s)\<rparr> in
        if \<not> bit (cs_reserved s) i then s'\<lparr>cs_unavailableCIDRs := cs_unavailableCIDRs s - 1\<rparr> else s'
      else s)"

definition CidrSet_Release :: "Prefix \<Rightarrow> CidrSet \<Rightarrow> (cidrError + CidrSet) option" where
  "CidrSet_Release prefix s = do {
     r \<leftarrow> getBeginningAndEndIndices s prefix;
     case r of
       Inl err \<Rightarrow> Some (Inl err)
     | Inr (begin', end') \<Rightarrow> Some (Inr (fold (\<lambda>i. releaseIndex (nat i)) [begin'..end'] s))
   }"

definition occupyIndex :: "nat \<Rightarrow> CidrSet \<Rightarrow> CidrSet" where
  "occupyIndex i s =
     (if \<not> bit (cs_used s) i then
        let s' = s\<lparr>cs_used := set_bit i (cs_used s)\<rparr> in
        if \<not> bit (cs_reserved s) i then s'\<lparr>cs_unavailableCIDRs := cs_unavailableCIDRs s + 1\<rparr> else s'
      else s)"

definition CidrSet_Occupy :: "Prefix \<Rightarrow> CidrSet \<Rightarrow> (cidrError + CidrSet) option" where
  "CidrSet_Occupy prefix s = do {
     r \<leftarrow> getBeginningAndEndIndices s prefix;
     case r of
       Inl err \<Rightarrow> Some (Inl err)
     | Inr (begin', end') \<Rightarrow> Some (Inr (fold (\<lambda>i. occupyIndex (nat i)) [begin'..end'] s))
   }"

text \<open>The words of both bitmaps are combined; a missing word counts as zero.\<close>

definition word_or :: "u64 list \<Rightarrow> u64 list \<Rightarrow> nat \<Rightarrow> u64" where
  "word_or usedWords reservedWords i =
     (if i < length usedWords then usedWords ! i else 0) OR (if i < length reservedWords then reservedWords ! i else 0)"

definition countUnavailableCIDRs :: "nat \<Rightarrow> nat \<Rightarrow> int" where
  "countUnavailableCIDRs used reserved =
     (let usedWords = Bits used; reservedWords = Bits reserved in
      foldl (\<lambda>count i. count + int (OnesCount64 (word_or usedWords reservedWords i))) 0
        [0..<max (length usedWords) (length reservedWords)])"

text \<open>Ranges of addresses are pairs of their first and last address.\<close>

fun ComputeRangesToReserve :: "CidrSet \<Rightarrow> (Addr \<times> Addr) list \<Rightarrow> nat \<Rightarrow> (cidrError + nat) option" where
  "ComputeRangesToReserve s [] bitmap = Some (Inr bitmap)"
| "ComputeRangesToReserve s ((from', to') # ranges) bitmap =
     do {
       b \<leftarrow> getIndexForAddr s from';
       case b of
         Inl err \<Rightarrow> Some (Inl err)
       | Inr begin' \<Rightarrow>
           do {
             e \<leftarrow> getIndexForAddr s to';
             case e of
               Inl err \<Rightarrow> Some (Inl err)
             | Inr end' \<Rightarrow> ComputeRangesToReserve s ranges (fold set_bit [begin'..<Suc end'] bitmap)
           }
     }"

definition SetReservedRanges :: "nat \<Rightarrow> CidrSet \<Rightarrow> CidrSet" where
  "SetReservedRanges toReserveBitmap s =
     s\<lparr>cs_unavailableCIDRs := countUnavailableCIDRs (cs_used s) toReserveBitmap, cs_reserved := toReserveBitmap\<rparr>"

text \<open>The sets for a list of prefixes in text form; the parser of prefixes is an argument.\<close>

fun NewCIDRSets_loop ::
  "(string \<Rightarrow> Prefix option) \<Rightarrow> bool \<Rightarrow> string list \<Rightarrow> int \<Rightarrow> CidrSet list \<Rightarrow> cidrError + CidrSet list"
where
  "NewCIDRSets_loop parse isV6 [] maskSize sets = Inr sets"
| "NewCIDRSets_loop parse isV6 (str # strs) maskSize sets =
     (case parse str of
        None \<Rightarrow> Inl (ErrParsePrefix str)
      | Some prefix \<Rightarrow>
          (case find (\<lambda>s. InRange s prefix) sets of
             Some s \<Rightarrow> Inl (ErrCIDRCollision str (cs_clusterPrefix s))
           | None \<Rightarrow>
               if isV6 \<and> Is4 (pf_ip prefix) then Inl (ErrFamily prefix)
               else if \<not> isV6 \<and> \<not> Is4 (pf_ip prefix) then Inl (ErrFamily prefix)
               else
                 (case NewCIDRSet prefix maskSize of
                    Inl err \<Rightarrow> Inl err
                  | Inr s \<Rightarrow> NewCIDRSets_loop parse isV6 strs maskSize (sets @ [s]))))"

definition NewCIDRSets :: "(string \<Rightarrow> Prefix option) \<Rightarrow> bool \<Rightarrow> string list \<Rightarrow> int \<Rightarrow> cidrError + CidrSet list" where
  "NewCIDRSets parse isV6 strCIDRs maskSize = NewCIDRSets_loop parse isV6 strCIDRs maskSize []"

section \<open>Blocks of a masked word\<close>

text \<open>
  The address of a block: the index shifted above the \<^verbatim>\<open>h\<close> host bits.  The word \<^verbatim>\<open>a\<close> is
  masked to \<^verbatim>\<open>c\<close> bits, the block to \<^verbatim>\<open>n\<close> bits.
\<close>

definition block_word :: "nat \<Rightarrow> 'a::len word \<Rightarrow> nat \<Rightarrow> 'a word" where
  "block_word h a i = a OR push_bit h (of_nat i)"

lemma bit_index: "i < 2 ^ k \<Longrightarrow> bit (of_nat i :: 'a::len word) n \<Longrightarrow> n < k"
  using bit_nat_bound [of i n k] by (simp add: bit_of_nat_iff_bit bit_simps)

lemma bit_masked: "keep_bits c a = a \<Longrightarrow> c \<le> LENGTH('a) \<Longrightarrow> bit a n \<Longrightarrow> LENGTH('a) - c \<le> n" for a :: "'a::len word"
  using bit_keep_bits [of c a n] by simp

lemma block_word_ok:
  fixes a :: "'a::len word"
  assumes a: "keep_bits c a = a" and cn: "c \<le> n" "n \<le> LENGTH('a)" and i: "i < 2 ^ (n - c)"
  shows "keep_bits c (block_word (LENGTH('a) - n) a i) = a"
    and "keep_bits n (block_word (LENGTH('a) - n) a i) = block_word (LENGTH('a) - n) a i"
    and "drop_bit (LENGTH('a) - n) (a XOR block_word (LENGTH('a) - n) a i) = of_nat i"
    and "keep_bits n (block_word (LENGTH('a) - n) a i OR mask (LENGTH('a) - n)) = block_word (LENGTH('a) - n) a i"
proof -
  define h where "h = LENGTH('a) - n"
  have b: "bit (block_word h a i) m \<longleftrightarrow> bit a m \<or> h \<le> m \<and> m < LENGTH('a) \<and> bit (of_nat i :: 'a word) (m - h)" for m
    by (auto simp: block_word_def bit_or_iff bit_push_bit_iff)
  have ia: "m < LENGTH('a) - c" if "bit (of_nat i :: 'a word) (m - h)" "h \<le> m" for m
    using bit_index [OF i that(1)] that(2) cn by (simp add: h_def)
  have am: "bit a m \<Longrightarrow> LENGTH('a) - c \<le> m" for m using bit_masked [OF a] cn by simp
  have hc: "LENGTH('a) - n = h" "h \<le> LENGTH('a) - c" using cn by (simp_all add: h_def)
  have kc: "bit (keep_bits c w) m \<longleftrightarrow> LENGTH('a) - c \<le> m \<and> bit w m" for w :: "'a word" and m using cn by (simp add: bit_keep_bits)
  have kn: "bit (keep_bits n w) m \<longleftrightarrow> h \<le> m \<and> bit w m" for w :: "'a word" and m using cn by (simp add: bit_keep_bits h_def)
  have "keep_bits c (block_word h a i) = a"
    by (rule bit_word_eqI) (use ia am in \<open>auto simp: kc b dest: leD\<close>)
  moreover have "keep_bits n (block_word h a i) = block_word h a i"
    by (rule bit_word_eqI) (use am hc in \<open>auto simp: kn b dest: order_trans\<close>)
  moreover have "drop_bit h (a XOR block_word h a i) = of_nat i"
  proof (rule bit_word_eqI)
    fix m assume m: "m < LENGTH('a)"
    have "\<not> (bit a (h + m) \<and> bit (of_nat i :: 'a word) m)" using am [of "h + m"] ia [of "h + m"] by auto
    moreover have "bit (of_nat i :: 'a word) m \<Longrightarrow> h + m < LENGTH('a)" using ia [of "h + m"] by simp
    ultimately show "bit (drop_bit h (a XOR block_word h a i)) m = bit (of_nat i :: 'a word) m"
      by (auto simp: bit_drop_bit_eq bit_xor_iff b dest: bit_imp_le_length)
  qed
  moreover have "keep_bits n (block_word h a i OR mask h) = block_word h a i"
    by (rule bit_word_eqI) (use am hc in \<open>auto simp: kn b bit_or_iff bit_mask_iff dest: order_trans\<close>)
  ultimately show "keep_bits c (block_word (LENGTH('a) - n) a i) = a"
    "keep_bits n (block_word (LENGTH('a) - n) a i) = block_word (LENGTH('a) - n) a i"
    "drop_bit (LENGTH('a) - n) (a XOR block_word (LENGTH('a) - n) a i) = of_nat i"
    "keep_bits n (block_word (LENGTH('a) - n) a i OR mask (LENGTH('a) - n)) = block_word (LENGTH('a) - n) a i"
    unfolding hc(1) by blast+
qed

lemma block_word_inj:
  fixes a :: "'a::len word"
  assumes "keep_bits c a = a" "c \<le> n" "n \<le> LENGTH('a)" "i < 2 ^ (n - c)" "j < 2 ^ (n - c)"
    and "block_word (LENGTH('a) - n) a i = block_word (LENGTH('a) - n) a j"
  shows "i = j"
proof -
  have "(of_nat i :: 'a word) = of_nat j"
    using block_word_ok(3) [OF assms(1-4)] block_word_ok(3) [OF assms(1-3,5)] assms(6) by simp
  then have "unat (of_nat i :: 'a word) = unat (of_nat j :: 'a word)" by simp
  moreover have le: "(2::nat) ^ (n - c) \<le> 2 ^ LENGTH('a)" using assms(2,3) by (intro power_increasing) auto
  ultimately show ?thesis
    using less_le_trans [OF assms(4) le] less_le_trans [OF assms(5) le] by (simp add: unat_of_nat)
qed

section \<open>Blocks of a set\<close>

text \<open>
  The blocks of a set: the prefix of the cluster is masked, and the blocks are at least as small as
  the prefix.
\<close>

definition blocks_ok :: "CidrSet \<Rightarrow> bool" where
  "blocks_ok s \<longleftrightarrow>
     prefix_valid (cs_clusterPrefix s) \<and> Masked (cs_clusterPrefix s) = cs_clusterPrefix s \<and>
     pf_bits (cs_clusterPrefix s) \<le> cs_nodeMaskSize s \<and>
     cs_nodeMaskSize s \<le> int (BitLen (pf_ip (cs_clusterPrefix s))) \<and>
     cs_nodeMaskSize s - pf_bits (cs_clusterPrefix s) < 32 \<and>
     cs_maxCIDRs s = 2 ^ nat (cs_nodeMaskSize s - pf_bits (cs_clusterPrefix s))"

fun block_addr :: "nat \<Rightarrow> Addr \<Rightarrow> nat \<Rightarrow> Addr" where
  "block_addr n AddrZero i = AddrZero"
| "block_addr n (Addr4 a) i = Addr4 (block_word (32 - n) a i)"
| "block_addr n (Addr6 a) i = Addr6 (block_word (128 - n) a i)"

definition block_of :: "CidrSet \<Rightarrow> nat \<Rightarrow> Prefix" where
  "block_of s i = \<lparr>pf_ip = block_addr (nat (cs_nodeMaskSize s)) (pf_ip (cs_clusterPrefix s)) i, pf_bits = cs_nodeMaskSize s\<rparr>"

lemma bit_join: "bit (join64 l r) n \<longleftrightarrow> (if n < 64 then bit r n else n < 128 \<and> bit l (n - 64))"
  by (auto simp: join64_def bit_or_iff bit_push_bit_iff bit_ucast_iff dest: bit_imp_le_length)

lemma bits_upper: "bit (upper64 a) n \<longleftrightarrow> n < 64 \<and> bit a (64 + n)"
  by (auto simp: upper64_def bit_ucast_iff bit_drop_bit_eq)

lemma bits_lower: "bit (lower64 a) n \<longleftrightarrow> n < 64 \<and> bit a n"
  by (auto simp: lower64_def bit_ucast_iff)

lemma length_bound: "bit w n \<Longrightarrow> n < 64 - LeadingZeros w" for w :: u64
proof (rule ccontr)
  assume b: "bit w n" and "\<not> n < 64 - LeadingZeros w"
  then have "63 - n < LeadingZeros w" "n < 64" using bit_imp_le_length [OF b] by simp_all
  then have "\<not> bit w (63 - (63 - n))" using LeadingZeros_not_bit [of "63 - n" w] by simp
  then show False using b \<open>n < 64\<close> by simp
qed

lemma blocks_ok_cases:
  assumes "blocks_ok s"
  obtains (v4) a c n where "cs_clusterPrefix s = \<lparr>pf_ip = Addr4 a, pf_bits = int c\<rparr>" "cs_nodeMaskSize s = int n"
      "keep_bits c a = a" "c \<le> n" "n \<le> 32" "n - c < 32" "cs_maxCIDRs s = 2 ^ (n - c)"
    | (v6) a c n where "cs_clusterPrefix s = \<lparr>pf_ip = Addr6 a, pf_bits = int c\<rparr>" "cs_nodeMaskSize s = int n"
      "keep_bits c a = a" "c \<le> n" "n \<le> 128" "n - c < 32" "cs_maxCIDRs s = 2 ^ (n - c)"
proof -
  let ?p = "cs_clusterPrefix s" and ?c = "nat (pf_bits (cs_clusterPrefix s))" and ?n = "nat (cs_nodeMaskSize s)"
  have pos: "0 \<le> pf_bits ?p" "pf_bits ?p \<le> cs_nodeMaskSize s" using assms by (simp_all add: blocks_ok_def prefix_valid_def)
  have n: "cs_nodeMaskSize s = int ?n" "pf_bits ?p = int ?c" "?c \<le> ?n" using pos by simp_all
  have diff: "nat (cs_nodeMaskSize s - pf_bits ?p) = ?n - ?c" using pos by (simp add: nat_diff_distrib)
  have *: "cs_maxCIDRs s = 2 ^ (?n - ?c)" "?n - ?c < 32" using assms pos by (auto simp: blocks_ok_def diff)
  show ?thesis
  proof (cases "pf_ip ?p")
    case AddrZero
    then show ?thesis using assms by (simp add: blocks_ok_def prefix_valid_def)
  next
    case (Addr4 a)
    have "pf_ip (Masked ?p) = pf_ip ?p" using assms by (simp add: blocks_ok_def)
    then have keep: "keep_bits ?c a = a" using Addr4 pos(1) by (simp add: Masked_def)
    have le: "?n \<le> 32" using assms Addr4 by (simp add: blocks_ok_def nat_le_iff)
    have "?p = \<lparr>pf_ip = Addr4 a, pf_bits = int ?c\<rparr>" using Addr4 pos(1) by (cases ?p) simp
    from v4 [OF this n(1) keep n(3) le *(2,1)] show ?thesis .
  next
    case (Addr6 a)
    have "pf_ip (Masked ?p) = pf_ip ?p" using assms by (simp add: blocks_ok_def)
    then have keep: "keep_bits ?c a = a" using Addr6 pos(1) by (simp add: Masked_def)
    have le: "?n \<le> 128" using assms Addr6 by (simp add: blocks_ok_def nat_le_iff)
    have "?p = \<lparr>pf_ip = Addr6 a, pf_bits = int ?c\<rparr>" using Addr6 pos(1) by (cases ?p) simp
    from v6 [OF this n(1) keep n(3) le *(2,1)] show ?thesis .
  qed
qed

lemma counts:
  assumes "n \<le> m"
  shows "m < 2 ^ 32 \<Longrightarrow> uint32_count (int m - int n) = m - n" "m < 2 ^ 64 \<Longrightarrow> uint64_count (int m - int n) = m - n"
proof -
  have d: "int m - int n = int (m - n)" using assms by (simp add: of_nat_diff)
  show "m < 2 ^ 32 \<Longrightarrow> uint32_count (int m - int n) = m - n"
    unfolding d uint32_count_def by (subst mod_pos_pos_trivial) simp_all
  show "m < 2 ^ 64 \<Longrightarrow> uint64_count (int m - int n) = m - n"
    unfolding d uint64_count_def by (subst mod_pos_pos_trivial) simp_all
qed

lemma join_block:
  assumes a: "keep_bits c a = a" and cn: "c \<le> n" "n \<le> 128" "n - c < 32" and i: "i < 2 ^ (n - c)"
  shows "n \<le> 64 \<Longrightarrow> join64 (upper64 a OR push_bit (64 - n) (of_nat i)) (lower64 a) = block_word (128 - n) a i"
    and "64 < n \<Longrightarrow> join64
      (if int c < 64 \<and> 64 - LeadingZeros (of_nat i :: u64) > n - 64 then upper64 a OR drop_bit (n - 64) (of_nat i) else upper64 a)
      (lower64 a OR push_bit (128 - n) (of_nat i)) = block_word (128 - n) a i"
proof -
  have bi: "bit (of_nat i :: u64) m \<longleftrightarrow> bit i m" "bit (of_nat i :: u128) m \<longleftrightarrow> bit i m" for m
    using bit_nat_bound [OF _ i, of m] cn(3) by (auto simp: bit_simps)
  have lt: "bit i m \<Longrightarrow> m < n - c" for m by (rule bit_nat_bound [OF _ i])
  have blk: "bit (block_word (128 - n) a i) m \<longleftrightarrow> bit a m \<or> 128 - n \<le> m \<and> m < 128 \<and> bit i (m - (128 - n))" for m
    by (auto simp: block_word_def bit_or_iff bit_push_bit_iff bi)
  show "join64 (upper64 a OR push_bit (64 - n) (of_nat i)) (lower64 a) = block_word (128 - n) a i" if n: "n \<le> 64"
  proof (rule bit_word_eqI)
    fix m assume "m < LENGTH(128)"
    moreover have "m - 64 - (64 - n) = m - (128 - n)" using n by simp
    ultimately show "bit (join64 (upper64 a OR push_bit (64 - n) (of_nat i)) (lower64 a)) m = bit (block_word (128 - n) a i) m"
      using n by (auto simp: bit_join blk bit_or_iff bits_upper bits_lower bit_push_bit_iff bi)
  qed
  show "join64
      (if int c < 64 \<and> 64 - LeadingZeros (of_nat i :: u64) > n - 64 then upper64 a OR drop_bit (n - 64) (of_nat i) else upper64 a)
      (lower64 a OR push_bit (128 - n) (of_nat i)) = block_word (128 - n) a i" if n: "64 < n"
  proof (rule bit_word_eqI)
    fix m assume m: "m < LENGTH(128)"
    let ?on = "int c < 64 \<and> 64 - LeadingZeros (of_nat i :: u64) > n - 64"
    have off: "\<not> bit i (n - 64 + k)" if "\<not> ?on" for k
    proof
      assume b: "bit i (n - 64 + k)"
      then have "c < 64" using lt [OF b] n by linarith
      moreover have "n - 64 + k < 64 - LeadingZeros (of_nat i :: u64)" using length_bound [of "of_nat i"] b by (simp add: bi)
      ultimately show False using that by simp
    qed
    have hi: "bit (if ?on then upper64 a OR drop_bit (n - 64) (of_nat i) else upper64 a) k \<longleftrightarrow> bit (upper64 a) k \<or> bit i (n - 64 + k)" for k
      using off [of k] by (simp add: bit_or_iff bit_drop_bit_eq bi)
    have "n - 64 + (m - 64) = m - (128 - n)" if "\<not> m < 64" using n cn(2) that by simp
    moreover have "\<not> m < 64 \<Longrightarrow> 128 - n \<le> m" using n by simp
    ultimately show "bit (join64
      (if ?on then upper64 a OR drop_bit (n - 64) (of_nat i) else upper64 a) (lower64 a OR push_bit (128 - n) (of_nat i))) m =
      bit (block_word (128 - n) a i) m"
      unfolding bit_join hi blk using m by (auto simp: bit_or_iff bits_upper bits_lower bit_push_bit_iff bi)
  qed
qed

lemma index_block:
  assumes ok: "blocks_ok s" and i: "int i < cs_maxCIDRs s"
  shows "indexToCIDRBlock s i = block_of s i"
  using ok
proof (cases rule: blocks_ok_cases)
  case (v4 a c n)
  then show ?thesis using counts(1) [of n 32] by (simp add: indexToCIDRBlock_def block_of_def block_word_def PrefixFrom_def)
next
  case (v6 a c n)
  have "i < 2 ^ (n - c)" using i v6(7) by simp
  note j = join_block [OF v6(3-6) this]
  show ?thesis
  proof (cases "n \<le> 64")
    case True
    then show ?thesis using v6 j(1) counts(2) [of n 64] by (simp add: indexToCIDRBlock_def block_of_def PrefixFrom_def)
  next
    case False
    then show ?thesis using v6 j(2) counts(2) [of n 128] counts(2) [of 64 n]
      by (auto simp: indexToCIDRBlock_def block_of_def PrefixFrom_def Let_def split: if_splits)
  qed
qed

lemma block_of_valid:
  assumes "blocks_ok s"
  shows "prefix_valid (block_of s i)" "pf_bits (block_of s i) = cs_nodeMaskSize s"
  using assms by (cases rule: blocks_ok_cases; simp add: block_of_def prefix_valid_def)+

lemma block_of_masked:
  assumes ok: "blocks_ok s" and i: "int i < cs_maxCIDRs s"
  shows "Masked (block_of s i) = block_of s i"
  using ok
proof (cases rule: blocks_ok_cases)
  case (v4 a c n)
  then show ?thesis using block_word_ok(2) [of c a n i] i by (simp add: block_of_def Masked_def)
next
  case (v6 a c n)
  then show ?thesis using block_word_ok(2) [of c a n i] i by (simp add: block_of_def Masked_def)
qed

lemma block_of_contained:
  assumes ok: "blocks_ok s" and i: "int i < cs_maxCIDRs s"
  shows "Prefix_Contains (cs_clusterPrefix s) (pf_ip (block_of s i))"
  using ok
proof (cases rule: blocks_ok_cases)
  case (v4 a c n)
  then show ?thesis using block_word_ok(1) [of c a n i] i by (simp add: block_of_def Prefix_Contains_def)
next
  case (v6 a c n)
  then show ?thesis using block_word_ok(1) [of c a n i] i by (simp add: block_of_def Prefix_Contains_def)
qed

lemma bitsSetFrom_mask: "n \<le> 128 \<Longrightarrow> bitsSetFrom n u = u OR mask (128 - n)"
  by (rule bit_word_eqI) (auto simp: bitsSetFrom_def bit_or_iff bit_not_iff bit_push_bit_iff bit_mask_iff)

lemma last_masked4: "n \<le> 32 \<Longrightarrow> ucast (bitsSetFrom (96 + n) (As16 (Addr4 a))) = a OR mask (32 - n)"
proof (rule bit_word_eqI)
  fix m assume n: "n \<le> 32" and m: "m < LENGTH(32)"
  have "(0xffff00000000 :: u128) = push_bit 32 0xffff" by simp
  then have "\<not> bit (0xffff00000000 :: u128) m" using m by (simp only: bit_push_bit_iff) simp
  then show "bit (ucast (bitsSetFrom (96 + n) (As16 (Addr4 a))) :: u32) m = bit (a OR mask (32 - n)) m"
    using n m by (simp add: bitsSetFrom_mask bit_ucast_iff bit_or_iff bit_mask_iff)
qed

lemma unat_of_exp: "k < LENGTH('a) \<Longrightarrow> unat (word_of_int (2 ^ k) :: 'a::len word) = 2 ^ k"
proof -
  assume k: "k < LENGTH('a)"
  have "(word_of_int (2 ^ k) :: 'a word) = of_nat (2 ^ k)" by simp
  moreover have "(2::nat) ^ k < 2 ^ LENGTH('a)" using k by simp
  ultimately show ?thesis by (simp only: unat_of_nat mod_less)
qed

lemma index_of_block_addr:
  assumes ok: "blocks_ok s" and i: "int i < cs_maxCIDRs s"
  shows "getIndexForAddr s (pf_ip (block_of s i)) = Some (Inr i)"
  using ok
proof (cases rule: blocks_ok_cases)
  case (v4 a c n)
  have i': "i < 2 ^ (n - c)" using i v4(7) by simp
  have "(2::nat) ^ (n - c) \<le> 2 ^ 31" using v4(6) by (intro power_increasing) auto
  then have small: "i < 2 ^ 31" using i' by simp
  have "drop_bit (32 - n) (a XOR block_word (32 - n) a i) = of_nat i" using block_word_ok(3) [of c a n i] v4 i' by simp
  moreover have "\<not> (of_nat i :: u32) \<ge> word_of_int (2 ^ (n - c))"
  proof -
    have "unat (word_of_int (2 ^ (n - c)) :: u32) = 2 ^ (n - c)" by (rule unat_of_exp) (use v4(6) in simp)
    moreover have "unat (of_nat i :: u32) = i" using small by (simp add: unat_of_nat)
    ultimately show ?thesis using i' by (simp only: word_le_nat_alt not_le)
  qed
  moreover have "unat (of_nat i :: u32) = i" using small by (simp add: unat_of_nat)
  ultimately show ?thesis using v4 counts(1) [of n 32] by (simp add: getIndexForAddr_def block_of_def)
next
  case (v6 a c n)
  have i': "i < 2 ^ (n - c)" using i v6(7) by simp
  have "(2::nat) ^ (n - c) \<le> 2 ^ 31" using v6(6) by (intro power_increasing) auto
  then have small: "i < 2 ^ 31" using i' by simp
  have "drop_bit (128 - n) (a XOR block_word (128 - n) a i) = of_nat i" using block_word_ok(3) [of c a n i] v6 i' by simp
  moreover have "drop_bit k (unat w) = unat (drop_bit k w)" for k and w :: u128
  proof -
    have "unat w < 2 ^ 128" using unsigned_less [of w] by simp
    then show ?thesis by (simp only: unsigned_drop_bit_eq) (simp add: take_bit_eq_mod)
  qed
  ultimately have "drop_bit (128 - n) (unat (a XOR block_word (128 - n) a i)) = unat (of_nat i :: u128)" by simp
  then have "drop_bit (128 - n) (unat (a XOR block_word (128 - n) a i)) = i"
    using small by (simp add: unat_of_nat)
  moreover have "\<not> (of_nat i :: u64) \<ge> word_of_int (2 ^ (n - c))"
  proof -
    have "unat (word_of_int (2 ^ (n - c)) :: u64) = 2 ^ (n - c)" by (rule unat_of_exp) (use v6(6) in simp)
    moreover have "unat (of_nat i :: u64) = i" using small by (simp add: unat_of_nat)
    ultimately show ?thesis using i' by (simp only: word_le_nat_alt not_le)
  qed
  moreover have "unat (of_nat i :: u64) = i" using small by (simp add: unat_of_nat)
  ultimately show ?thesis using v6 counts(2) [of n 128] by (simp add: getIndexForAddr_def block_of_def)
qed

lemma last_of_block:
  assumes ok: "blocks_ok s" and i: "int i < cs_maxCIDRs s"
  shows "Masked (PrefixFrom (PrefixLastIP (block_of s i)) (cs_nodeMaskSize s)) = block_of s i"
  using ok
proof (cases rule: blocks_ok_cases)
  case (v4 a c n)
  have i': "i < 2 ^ (n - c)" using i v4(7) by simp
  note w = block_word_ok(2,4) [of c a n i]
  show ?thesis
  proof (cases "n = 32")
    case True
    then show ?thesis using v4 w i' by (simp add: block_of_def PrefixLastIP_def prefix_valid_def Masked_def PrefixFrom_def)
  next
    case False
    have "nat ((96 + int n) mod 256) = 96 + n" using v4(5) by (simp add: nat_mod_distrib nat_add_distrib)
    then have "PrefixLastIP (block_of s i) = Addr4 (block_word (32 - n) a i OR mask (32 - n))"
      using v4 False last_masked4 [of n] by (simp add: block_of_def PrefixLastIP_def prefix_valid_def del: As16.simps)
    then show ?thesis using v4 w i' by (simp add: block_of_def Masked_def PrefixFrom_def)
  qed
next
  case (v6 a c n)
  have i': "i < 2 ^ (n - c)" using i v6(7) by simp
  note w = block_word_ok(2,4) [of c a n i]
  show ?thesis
  proof (cases "n = 128")
    case True
    then show ?thesis using v6 w i' by (simp add: block_of_def PrefixLastIP_def prefix_valid_def Masked_def PrefixFrom_def)
  next
    case False
    then have "PrefixLastIP (block_of s i) = Addr6 (block_word (128 - n) a i OR mask (128 - n))"
      using v6 bitsSetFrom_mask [of n] by (simp add: block_of_def PrefixLastIP_def prefix_valid_def nat_mod_distrib)
    then show ?thesis using v6 w i' by (simp add: block_of_def Masked_def PrefixFrom_def)
  qed
qed

lemma block_indices:
  assumes ok: "blocks_ok s" and i: "int i < cs_maxCIDRs s"
  shows "getBeginningAndEndIndices s (block_of s i) = Some (Inr (int i, int i))"
proof (cases "pf_bits (cs_clusterPrefix s) < cs_nodeMaskSize s")
  case True
  have "PrefixFrom (pf_ip (block_of s i)) (cs_nodeMaskSize s) = block_of s i"
    using block_of_valid [OF ok, of i] by (cases "block_of s i") (simp add: PrefixFrom_def prefix_valid_def)
  then show ?thesis
    using True block_of_masked [OF assms] block_of_contained [OF assms] index_of_block_addr [OF assms] last_of_block [OF assms]
      block_of_valid(2) [OF ok, of i]
    by (simp add: getBeginningAndEndIndices_def InRange_def)
next
  case False
  then have "cs_nodeMaskSize s = pf_bits (cs_clusterPrefix s)" "cs_maxCIDRs s = 1" using ok by (auto simp: blocks_ok_def)
  then show ?thesis using False i block_of_contained [OF assms] block_of_valid(2) [OF ok, of i]
    by (simp add: getBeginningAndEndIndices_def InRange_def)
qed

lemma block_of_disjoint:
  assumes ok: "blocks_ok s" and ij: "int i < cs_maxCIDRs s" "int j < cs_maxCIDRs s" "i \<noteq> j"
  shows "\<not> (Prefix_Contains (block_of s i) x \<and> Prefix_Contains (block_of s j) x)"
proof
  assume c: "Prefix_Contains (block_of s i) x \<and> Prefix_Contains (block_of s j) x"
  show False using ok
  proof (cases rule: blocks_ok_cases)
    case (v4 a c n)
    have ij': "i < 2 ^ (n - c)" "j < 2 ^ (n - c)" using ij v4(7) by simp_all
    have "keep_bits n (block_word (32 - n) a i) = keep_bits n (block_word (32 - n) a j)"
      using c v4 by (cases x) (auto simp: Prefix_Contains_def block_of_def)
    then show False
      using block_word_ok(2) [of c a n i] block_word_ok(2) [of c a n j] block_word_inj [of c a n i j] v4 ij' ij(3) by simp
  next
    case (v6 a c n)
    have ij': "i < 2 ^ (n - c)" "j < 2 ^ (n - c)" using ij v6(7) by simp_all
    have "keep_bits n (block_word (128 - n) a i) = keep_bits n (block_word (128 - n) a j)"
      using c v6 by (cases x) (auto simp: Prefix_Contains_def block_of_def)
    then show False
      using block_word_ok(2) [of c a n i] block_word_ok(2) [of c a n j] block_word_inj [of c a n i j] v6 ij' ij(3) by simp
  qed
qed

lemma block_contains_self: "blocks_ok s \<Longrightarrow> Prefix_Contains (block_of s i) (pf_ip (block_of s i))"
  using block_of_valid [of s i] by (auto simp: Prefix_Contains_def prefix_valid_def) (cases "pf_ip (block_of s i)"; simp)+

lemma block_of_inj: "blocks_ok s \<Longrightarrow> inj_on (block_of s) {i. int i < cs_maxCIDRs s}"
  using block_of_disjoint block_contains_self by (metis (mono_tags, lifting) inj_onI mem_Collect_eq)

section \<open>Counting\<close>

lemma word_at: "(if i < length (Bits n) then Bits n ! i else 0) = of_nat (drop_bit (64 * i) n)"
proof (induction n arbitrary: i rule: Bits.induct)
  case (1 n)
  show ?case
  proof (cases "n = 0")
    case False
    show ?thesis
    proof (cases i)
      case 0
      then show ?thesis using False by (simp add: Bits.simps [of n])
    next
      case (Suc k)
      have "n div 2 ^ 64 = drop_bit 64 n" by (simp add: drop_bit_eq_div)
      then have "drop_bit (64 * k) (n div 2 ^ 64) = drop_bit (64 * i) n" by (simp only: Suc drop_bit_drop_bit) (simp add: add.commute)
      then show ?thesis using 1 [OF False, of k] False Suc by (simp add: Bits.simps [of n] split: if_splits)
    qed
  qed (simp add: Bits.simps)
qed

lemma word_or_at: "word_or (Bits a) (Bits b) i = of_nat (drop_bit (64 * i) (a OR b))"
  unfolding word_or_def word_at by (simp add: of_nat_or_eq drop_bit_or)

lemma count_words:
  "foldl (\<lambda>count i. count + int (OnesCount64 (of_nat (drop_bit (64 * i) n)))) 0 [0..<m] =
     int (length (filter (bit n) [0..<64 * m]))"
proof (induction m)
  case (Suc m)
  have "filter (bit n) (map (\<lambda>i. i + 64 * m) [0..<64]) = map (\<lambda>i. i + 64 * m) (filter (bit (of_nat (drop_bit (64 * m) n) :: u64)) [0..<64])"
  proof -
    have "filter (bit n \<circ> (\<lambda>i. i + 64 * m)) [0..<64] = filter (bit (of_nat (drop_bit (64 * m) n) :: u64)) [0..<64]"
      by (rule filter_cong) (auto simp: bit_simps add.commute)
    then show ?thesis by (simp add: filter_map)
  qed
  then have "length (filter (bit n) [0..<64 * m + 64]) =
      length (filter (bit n) [0..<64 * m]) + OnesCount64 (of_nat (drop_bit (64 * m) n))"
    by (simp add: upt_shift [of "64 * m" 64] OnesCount64_def)
  then show ?case using Suc by (simp add: add.commute)
qed simp

lemma countUnavailable_card: "countUnavailableCIDRs used reserved = int (card (items used \<union> items reserved))"
proof -
  let ?m = "max (length (Bits used)) (length (Bits reserved))"
  have "bit (used OR reserved) i \<Longrightarrow> i < 64 * ?m" for i
    using bit_nat_bound [OF _ Bits_bound, of used i] bit_nat_bound [OF _ Bits_bound, of reserved i] by (auto simp: bit_or_iff)
  then have "set (filter (bit (used OR reserved)) [0..<64 * ?m]) = items used \<union> items reserved"
    by (auto simp: items_def bit_or_iff)
  then have "length (filter (bit (used OR reserved)) [0..<64 * ?m]) = card (items used \<union> items reserved)"
    using distinct_card [of "filter (bit (used OR reserved)) [0..<64 * ?m]"] by simp
  then show ?thesis unfolding countUnavailableCIDRs_def Let_def word_or_at count_words by simp
qed

section \<open>The invariant\<close>

definition unavailable :: "CidrSet \<Rightarrow> nat set" where
  "unavailable s = items (cs_used s) \<union> items (cs_reserved s)"

definition cidr_inv :: "CidrSet \<Rightarrow> bool" where
  "cidr_inv s \<longleftrightarrow>
     blocks_ok s \<and> cs_unavailableCIDRs s = int (card (unavailable s)) \<and> (\<forall>i \<in> unavailable s. int i < cs_maxCIDRs s) \<and>
     int (cs_nextCandidate s) < cs_maxCIDRs s"

definition same_blocks :: "CidrSet \<Rightarrow> CidrSet \<Rightarrow> bool" where
  "same_blocks s s' \<longleftrightarrow>
     cs_clusterPrefix s' = cs_clusterPrefix s \<and> cs_nodeMaskSize s' = cs_nodeMaskSize s \<and> cs_maxCIDRs s' = cs_maxCIDRs s"

lemma same_blocks_refl [simp]: "same_blocks s s"
  by (simp add: same_blocks_def)

lemma same_blocks_trans: "same_blocks s s' \<Longrightarrow> same_blocks s' s'' \<Longrightarrow> same_blocks s s''"
  by (simp add: same_blocks_def)

lemma same_blocks_ok: "same_blocks s s' \<Longrightarrow> blocks_ok s' \<longleftrightarrow> blocks_ok s"
  by (simp add: same_blocks_def blocks_ok_def)

lemma same_block_of: "same_blocks s s' \<Longrightarrow> block_of s' = block_of s"
  by (simp add: same_blocks_def block_of_def fun_eq_iff)

lemma finite_unavailable [simp]: "finite (unavailable s)"
  by (simp add: unavailable_def)

lemma sint_exp: "n < 63 \<Longrightarrow> sint (push_bit n (1 :: u64)) = 2 ^ n"
proof -
  assume n: "n < 63"
  have e: "push_bit n (1 :: u64) = word_of_int (2 ^ n)" by (simp add: push_bit_eq_mult)
  have "uint (push_bit n (1 :: u64)) = 2 ^ n"
    using n unat_of_exp [of n, where 'a = 64] unfolding e uint_nat by simp
  moreover have "(2::int) ^ n < 2 ^ 63" using n by (intro power_strict_increasing) auto
  moreover have "- (2 ^ 63) \<le> (2::int) ^ n" by (rule order_trans [of _ 0]) simp_all
  ultimately show ?thesis unfolding sint_uint using signed_take_bit_int_eq_self [of 63 "2 ^ n"] by simp
qed

lemma mask_mask: "n \<le> BitLen a \<Longrightarrow> mask_addr n (mask_addr n a) = mask_addr n a"
  by (cases a) (simp_all add: keep_bits_keep)

lemma Masked_props:
  assumes "prefix_valid p"
  shows "pf_bits (Masked p) = pf_bits p" "BitLen (pf_ip (Masked p)) = BitLen (pf_ip p)" "Is6 (pf_ip (Masked p)) = Is6 (pf_ip p)"
    "Masked (Masked p) = Masked p"
proof -
  have p: "Masked p = \<lparr>pf_ip = mask_addr (nat (pf_bits p)) (pf_ip p), pf_bits = pf_bits p\<rparr>" "pf_ip p \<noteq> AddrZero" "0 \<le> pf_bits p"
    "nat (pf_bits p) \<le> BitLen (pf_ip p)"
    using assms by (auto simp: Masked_def prefix_valid_def nat_le_iff)
  show "pf_bits (Masked p) = pf_bits p" "BitLen (pf_ip (Masked p)) = BitLen (pf_ip p)" by (simp_all add: p(1))
  show "Is6 (pf_ip (Masked p)) = Is6 (pf_ip p)" by (cases "pf_ip p") (simp_all add: p(1))
  show "Masked (Masked p) = Masked p" unfolding p(1) using p by (simp add: Masked_def mask_mask)
qed

lemma NewCIDRSet_inv:
  assumes "prefix_valid p" "pf_bits p \<le> sz" "sz - pf_bits p < 32" "NewCIDRSet p sz = Inr s"
  shows "cidr_inv s \<and> cs_clusterPrefix s = Masked p \<and> cs_nodeMaskSize s = sz \<and> cs_used s = 0 \<and> cs_reserved s = 0"
proof -
  note m = Masked_props [OF assms(1)]
  have "uint32_count (sz - pf_bits p) = nat (sz - pf_bits p)" using assms(2,3) by (simp add: uint32_count_def)
  then have "shl_one (uint32_count (sz - pf_bits p)) = 2 ^ nat (sz - pf_bits p)"
    using assms(2,3) sint_exp [of "nat (sz - pf_bits p)"] by (simp add: shl_one_def nat_less_iff)
  moreover have "sz \<le> int (BitLen (pf_ip p))" using assms(1,4) m by (cases "pf_ip p") (auto simp: NewCIDRSet_def Let_def prefix_valid_def split: if_splits)
  ultimately show ?thesis
    using assms m Masked_valid [OF assms(1)]
    by (auto simp: NewCIDRSet_def Let_def cidr_inv_def blocks_ok_def unavailable_def split: if_splits)
qed

section \<open>Operations\<close>

lemma releaseIndex_ok:
  assumes "cidr_inv s"
  shows "cidr_inv (releaseIndex i s) \<and> same_blocks s (releaseIndex i s) \<and>
    items (cs_used (releaseIndex i s)) = items (cs_used s) - {i} \<and> cs_reserved (releaseIndex i s) = cs_reserved s"
proof (cases "i \<in> items (cs_used s)")
  case True
  have u: "unavailable (releaseIndex i s) = (if i \<in> items (cs_reserved s) then unavailable s else unavailable s - {i})"
    using True by (auto simp: releaseIndex_def Let_def bit_items unavailable_def)
  have "i \<in> unavailable s" using True by (simp add: unavailable_def)
  then have "int (card (unavailable s - {i})) = int (card (unavailable s)) - 1"
    by (metis card_Suc_Diff1 finite_unavailable of_nat_Suc add_diff_cancel_left')
  then show ?thesis
    using assms True u
    by (auto simp: cidr_inv_def blocks_ok_def same_blocks_def releaseIndex_def Let_def bit_items)
qed (use assms in \<open>simp add: releaseIndex_def bit_items\<close>)

lemma occupyIndex_ok:
  assumes "cidr_inv s" "int i < cs_maxCIDRs s"
  shows "cidr_inv (occupyIndex i s) \<and> same_blocks s (occupyIndex i s) \<and>
    items (cs_used (occupyIndex i s)) = insert i (items (cs_used s)) \<and> cs_reserved (occupyIndex i s) = cs_reserved s"
proof (cases "i \<in> items (cs_used s)")
  case False
  have u: "unavailable (occupyIndex i s) = insert i (unavailable s)"
    using False by (auto simp: occupyIndex_def Let_def bit_items unavailable_def)
  have "i \<in> unavailable s \<longleftrightarrow> i \<in> items (cs_reserved s)" using False by (simp add: unavailable_def)
  then have "int (card (insert i (unavailable s))) = (if i \<in> items (cs_reserved s) then int (card (unavailable s)) else int (card (unavailable s)) + 1)"
    by (simp add: insert_absorb)
  then show ?thesis
    using assms False u
    by (auto simp: cidr_inv_def blocks_ok_def same_blocks_def occupyIndex_def Let_def bit_items)
qed (use assms in \<open>simp add: occupyIndex_def bit_items insert_absorb\<close>)

lemma release_range:
  assumes "cidr_inv s"
  shows "cidr_inv (fold (\<lambda>i. releaseIndex (nat i)) is s) \<and> same_blocks s (fold (\<lambda>i. releaseIndex (nat i)) is s) \<and>
    items (cs_used (fold (\<lambda>i. releaseIndex (nat i)) is s)) = items (cs_used s) - nat ` set is \<and>
    cs_reserved (fold (\<lambda>i. releaseIndex (nat i)) is s) = cs_reserved s"
  using assms
proof (induction "is" arbitrary: s)
  case (Cons i "is")
  note r = releaseIndex_ok [OF Cons.prems, of "nat i"]
  show ?case using Cons.IH [of "releaseIndex (nat i) s"] r by (auto intro: same_blocks_trans)
qed simp

lemma occupy_range:
  assumes "cidr_inv s" "\<forall>i \<in> set is. int (nat i) < cs_maxCIDRs s"
  shows "cidr_inv (fold (\<lambda>i. occupyIndex (nat i)) is s) \<and> same_blocks s (fold (\<lambda>i. occupyIndex (nat i)) is s) \<and>
    items (cs_used (fold (\<lambda>i. occupyIndex (nat i)) is s)) = items (cs_used s) \<union> nat ` set is \<and>
    cs_reserved (fold (\<lambda>i. occupyIndex (nat i)) is s) = cs_reserved s"
  using assms
proof (induction "is" arbitrary: s)
  case (Cons i "is")
  have "int (nat i) < cs_maxCIDRs s" using Cons.prems(2) by simp
  note r = occupyIndex_ok [OF Cons.prems(1) this]
  have "cs_maxCIDRs (occupyIndex (nat i) s) = cs_maxCIDRs s" using r by (simp add: same_blocks_def)
  then show ?case using Cons.IH [of "occupyIndex (nat i) s"] r Cons.prems(2) by (auto intro: same_blocks_trans)
qed simp

lemma blocks_ok_max: "blocks_ok s \<Longrightarrow> 0 < cs_maxCIDRs s \<and> cs_maxCIDRs s \<le> 2 ^ 31"
proof -
  assume "blocks_ok s"
  then have "cs_maxCIDRs s = 2 ^ nat (cs_nodeMaskSize s - pf_bits (cs_clusterPrefix s))"
    "nat (cs_nodeMaskSize s - pf_bits (cs_clusterPrefix s)) \<le> 31" by (auto simp: blocks_ok_def)
  then show ?thesis using power_increasing [of _ 31 "2::int"] by simp
qed

lemma index_less:
  assumes "blocks_ok s" "getIndexForAddr s addr = Some (Inr i)"
  shows "int i < cs_maxCIDRs s"
proof -
  have m: "0 < cs_maxCIDRs s" "cs_maxCIDRs s \<le> 2 ^ 31" using blocks_ok_max [OF assms(1)] by auto
  have "int i < cs_maxCIDRs s" if "\<not> word_of_int (cs_maxCIDRs s) \<le> w" "i = unat w" for w :: u32
  proof -
    have "unat (word_of_int (cs_maxCIDRs s) :: u32) = nat (cs_maxCIDRs s)" using m by (simp add: unsigned_of_int take_bit_eq_mod)
    then have "i < nat (cs_maxCIDRs s)" using that by (simp only: word_le_nat_alt not_le)
    then show ?thesis by linarith
  qed
  moreover have "int i < cs_maxCIDRs s" if "\<not> word_of_int (cs_maxCIDRs s) \<le> w" "i = unat w" for w :: u64
  proof -
    have "unat (word_of_int (cs_maxCIDRs s) :: u64) = nat (cs_maxCIDRs s)" using m by (simp add: unsigned_of_int take_bit_eq_mod)
    then have "i < nat (cs_maxCIDRs s)" using that by (simp only: word_le_nat_alt not_le)
    then show ?thesis by linarith
  qed
  ultimately show ?thesis
    using assms(2) by (auto simp: getIndexForAddr_def Let_def bind_eq_Some_conv split: Addr.splits if_splits)
qed

text \<open>The indices of a prefix smaller than the cluster are those of its first and last address.\<close>

lemma indices_cases:
  assumes "getBeginningAndEndIndices s p = Some (Inr (b, e))"
  obtains (all) "b = 0" "e = cs_maxCIDRs s - 1" "\<not> pf_bits (cs_clusterPrefix s) < pf_bits p"
  | (part) b' e' where "b = int b'" "e = int e'"
      "getIndexForAddr s (pf_ip (Masked (PrefixFrom (pf_ip p) (cs_nodeMaskSize s)))) = Some (Inr b')"
      "getIndexForAddr s (pf_ip (Masked (PrefixFrom (PrefixLastIP p) (cs_nodeMaskSize s)))) = Some (Inr e')"
proof (cases "pf_bits (cs_clusterPrefix s) < pf_bits p")
  case True
  let ?B = "getIndexForAddr s (pf_ip (Masked (PrefixFrom (pf_ip p) (cs_nodeMaskSize s))))"
    and ?E = "getIndexForAddr s (pf_ip (Masked (PrefixFrom (PrefixLastIP p) (cs_nodeMaskSize s))))"
  have "InRange s p" using assms by (auto simp: getBeginningAndEndIndices_def split: if_splits)
  then obtain rb where rb: "?B = Some rb"
    "(case rb of Inl err \<Rightarrow> Some (Inl err) | Inr begin' \<Rightarrow>
       do { e \<leftarrow> ?E; case e of Inl err \<Rightarrow> Some (Inl err) | Inr end' \<Rightarrow> Some (Inr (int begin', int end')) }) = Some (Inr (b, e))"
    using assms True by (auto simp: getBeginningAndEndIndices_def bind_eq_Some_conv)
  then obtain b' where b': "rb = Inr b'" by (cases rb) auto
  with rb(2) obtain re where re: "?E = Some re"
    "(case re of Inl err \<Rightarrow> Some (Inl err) | Inr end' \<Rightarrow> Some (Inr (int b', int end'))) = Some (Inr (b, e))"
    by (auto simp: bind_eq_Some_conv)
  then obtain e' where "re = Inr e'" by (cases re) auto
  then show ?thesis using part rb(1) b' re by auto
next
  case False
  then show ?thesis using assms all by (auto simp: getBeginningAndEndIndices_def split: if_splits)
qed

lemma indices_range:
  assumes "blocks_ok s" "getBeginningAndEndIndices s p = Some (Inr (b, e))"
  shows "0 \<le> b \<and> e < cs_maxCIDRs s"
  using assms(2) by (cases rule: indices_cases) (use index_less [OF assms(1)] in auto)

lemma InRange_family: "InRange s p \<Longrightarrow> BitLen (pf_ip p) = BitLen (pf_ip (cs_clusterPrefix s))"
  by (auto simp: InRange_def Prefix_Contains_def)

lemma getIndex_no_panic: "BitLen addr = BitLen (pf_ip (cs_clusterPrefix s)) \<or> \<not> Is4 addr \<Longrightarrow> getIndexForAddr s addr \<noteq> None"
  by (cases addr; cases "pf_ip (cs_clusterPrefix s)") (auto simp: getIndexForAddr_def Let_def)

lemma family_kept:
  "Is4 (pf_ip (Masked (PrefixFrom a n))) \<Longrightarrow> Is4 a" "Is4 (PrefixLastIP p) \<Longrightarrow> Is4 (pf_ip p)"
  by (cases a; auto simp: Masked_def PrefixFrom_def zeroPrefix_def split: if_splits)
    (cases "pf_ip p"; auto simp: PrefixLastIP_def Let_def split: if_splits)

lemma Is4_BitLen: "Is4 a \<Longrightarrow> BitLen a = 32"
  by (cases a) auto

lemma indices_no_panic: "getBeginningAndEndIndices s p \<noteq> None"
proof (cases "InRange s p \<and> pf_bits (cs_clusterPrefix s) < pf_bits p")
  case True
  let ?b = "pf_ip (Masked (PrefixFrom (pf_ip p) (cs_nodeMaskSize s)))"
    and ?e = "pf_ip (Masked (PrefixFrom (PrefixLastIP p) (cs_nodeMaskSize s)))"
  have fam: "Is4 (pf_ip p) \<Longrightarrow> BitLen (pf_ip (cs_clusterPrefix s)) = 32" using InRange_family True Is4_BitLen by metis
  have "getIndexForAddr s ?b \<noteq> None" "getIndexForAddr s ?e \<noteq> None"
    by (rule getIndex_no_panic, use fam family_kept Is4_BitLen in metis)+
  then show ?thesis using True by (auto simp: getBeginningAndEndIndices_def split: sum.splits)
qed (auto simp: getBeginningAndEndIndices_def)

lemma nextFree_ok:
  assumes "c < m" "m = nat (cs_maxCIDRs s)"
  shows "nextFree n s c < m \<and> ((\<exists>j < n. (c + j) mod m \<notin> unavailable s) \<longrightarrow> nextFree n s c \<notin> unavailable s)"
  using assms(1)
proof (induction n arbitrary: c)
  case (Suc n)
  show ?case
  proof (cases "c \<in> unavailable s")
    case True
    have IH: "nextFree n s ((c + 1) mod m) < m"
      "(\<exists>j < n. ((c + 1) mod m + j) mod m \<notin> unavailable s) \<Longrightarrow> nextFree n s ((c + 1) mod m) \<notin> unavailable s"
      using Suc.IH [of "(c + 1) mod m"] Suc.prems by auto
    have step: "nextFree (Suc n) s c = nextFree n s ((c + 1) mod m)"
      using True assms(2) by (auto simp: unavailable_def bit_items)
    have "\<exists>j < n. ((c + 1) mod m + j) mod m \<notin> unavailable s" if free: "\<exists>j < Suc n. (c + j) mod m \<notin> unavailable s"
    proof -
      obtain j where j: "j < Suc n" "(c + j) mod m \<notin> unavailable s" using free by blast
      then obtain k where "j = Suc k" using True Suc.prems by (cases j) auto
      then show ?thesis using j by (intro exI [of _ k]) (simp add: mod_add_left_eq)
    qed
    then show ?thesis using IH step by simp
  next
    case False
    then show ?thesis using Suc.prems by (simp add: unavailable_def bit_items)
  qed
qed simp

lemma free_exists:
  assumes "cidr_inv s" "cs_unavailableCIDRs s \<noteq> cs_maxCIDRs s"
  shows "nextFree (nat (cs_maxCIDRs s)) s (cs_nextCandidate s) \<notin> unavailable s \<and>
    int (nextFree (nat (cs_maxCIDRs s)) s (cs_nextCandidate s)) < cs_maxCIDRs s"
proof -
  let ?m = "nat (cs_maxCIDRs s)"
  have m: "0 < cs_maxCIDRs s" using assms(1) blocks_ok_max by (auto simp: cidr_inv_def)
  have c: "cs_nextCandidate s < ?m" using assms(1) by (simp add: cidr_inv_def zless_nat_eq_int_zless)
  have "unavailable s \<subseteq> {..<?m}" "unavailable s \<noteq> {..<?m}"
    using assms m by (auto simp: cidr_inv_def zless_nat_eq_int_zless)
  then obtain i where "i < ?m" "i \<notin> unavailable s" by blast
  moreover obtain j where "j < ?m" "(cs_nextCandidate s mod ?m + j) mod ?m = i" using cover_mod [OF \<open>i < ?m\<close>] by blast
  ultimately have "\<exists>j < ?m. (cs_nextCandidate s + j) mod ?m \<notin> unavailable s" using c by auto
  then show ?thesis using nextFree_ok [OF c refl, of ?m] m by (simp add: zless_nat_eq_int_zless)
qed

lemma AllocateNext_ok:
  assumes inv: "cidr_inv s"
  shows "if IsFull s then CidrSet_AllocateNext s = Inl ErrCIDRRangeNoCIDRsRemaining \<and> unavailable s = {i. int i < cs_maxCIDRs s}
    else \<exists>i s'. CidrSet_AllocateNext s = Inr (block_of s i, s') \<and> int i < cs_maxCIDRs s \<and> i \<notin> unavailable s \<and>
      cidr_inv s' \<and> same_blocks s s' \<and> items (cs_used s') = insert i (items (cs_used s)) \<and> cs_reserved s' = cs_reserved s"
proof (cases "IsFull s")
  case True
  have "{i. int i < cs_maxCIDRs s} = {..<nat (cs_maxCIDRs s)}" by auto
  moreover have "unavailable s \<subseteq> {i. int i < cs_maxCIDRs s}" using inv by (auto simp: cidr_inv_def)
  moreover have "card (unavailable s) = nat (cs_maxCIDRs s)" using inv True by (simp add: cidr_inv_def IsFull_def)
  ultimately have "unavailable s = {i. int i < cs_maxCIDRs s}" by (metis card_lessThan card_subset_eq finite_lessThan)
  then show ?thesis using True by (simp add: CidrSet_AllocateNext_def IsFull_def)
next
  case False
  define i where "i = nextFree (nat (cs_maxCIDRs s)) s (cs_nextCandidate s)"
  define s' where "s' = s\<lparr>cs_nextCandidate := (i + 1) mod nat (cs_maxCIDRs s), cs_used := set_bit i (cs_used s),
    cs_unavailableCIDRs := cs_unavailableCIDRs s + 1\<rparr>"
  have i: "i \<notin> unavailable s" "int i < cs_maxCIDRs s"
    using free_exists [OF inv] False by (simp_all add: i_def IsFull_def)
  have ok: "blocks_ok s" and m: "0 < cs_maxCIDRs s" using inv blocks_ok_max by (auto simp: cidr_inv_def)
  have "unavailable s' = insert i (unavailable s)" by (simp add: unavailable_def s'_def)
  moreover have "int ((i + 1) mod nat (cs_maxCIDRs s)) < cs_maxCIDRs s" using m by (simp add: zmod_int)
  ultimately have "cidr_inv s'" using inv i by (auto simp: cidr_inv_def s'_def blocks_ok_def)
  moreover have "CidrSet_AllocateNext s = Inr (block_of s i, s')"
    using False index_block [OF ok i(2)] by (simp add: CidrSet_AllocateNext_def IsFull_def i_def [symmetric] s'_def Let_def)
  ultimately show ?thesis using False i by (auto simp: s'_def same_blocks_def)
qed

lemma bind_sum_Inr:
  "(m \<bind> (\<lambda>r. case r of Inl err \<Rightarrow> Some (Inl (g err)) | Inr x \<Rightarrow> f x)) = Some (Inr y) \<longleftrightarrow>
   (\<exists>x. m = Some (Inr x) \<and> f x = Some (Inr y))"
  by (cases m; cases "the m") auto

lemma ComputeRanges_bits:
  assumes "blocks_ok s" "ComputeRangesToReserve s ranges bm = Some (Inr bm')" "\<forall>i \<in> items bm. int i < cs_maxCIDRs s"
  shows "\<forall>i \<in> items bm'. int i < cs_maxCIDRs s"
  using assms(2,3)
proof (induction ranges arbitrary: bm)
  case (Cons r ranges)
  obtain f t where r: "r = (f, t)" by force
  have items_fold: "items (fold set_bit is b) = items b \<union> set is" for "is" :: "nat list" and b
    by (induction "is" arbitrary: b) auto
  obtain b e where be: "getIndexForAddr s t = Some (Inr e)"
    "ComputeRangesToReserve s ranges (fold set_bit [b..<Suc e] bm) = Some (Inr bm')"
    using Cons.prems(1) unfolding r
    by (auto simp del: upt_Suc simp: bind_sum_Inr)
  have "int e < cs_maxCIDRs s" by (rule index_less [OF assms(1) be(1)])
  then have "\<forall>i \<in> items (fold set_bit [b..<Suc e] bm). int i < cs_maxCIDRs s" using Cons.prems(2) by (auto simp: items_fold)
  then show ?case by (rule Cons.IH [OF be(2)])
qed auto

lemma SetReservedRanges_ok:
  assumes "cidr_inv s" "\<forall>i \<in> items bm. int i < cs_maxCIDRs s"
  shows "cidr_inv (SetReservedRanges bm s) \<and> same_blocks s (SetReservedRanges bm s) \<and>
    cs_used (SetReservedRanges bm s) = cs_used s \<and> cs_reserved (SetReservedRanges bm s) = bm"
  using assms
  by (auto simp: SetReservedRanges_def cidr_inv_def same_blocks_def blocks_ok_def unavailable_def countUnavailable_card)

lemma Release_ok:
  assumes "cidr_inv s" "CidrSet_Release p s = Some (Inr s')"
  shows "cidr_inv s' \<and> same_blocks s s' \<and> cs_reserved s' = cs_reserved s \<and>
    (\<exists>b e. getBeginningAndEndIndices s p = Some (Inr (b, e)) \<and> items (cs_used s') = items (cs_used s) - nat ` {b..e})"
proof -
  obtain b e where "getBeginningAndEndIndices s p = Some (Inr (b, e))" "s' = fold (\<lambda>i. releaseIndex (nat i)) [b..e] s"
    using assms(2) by (auto simp: CidrSet_Release_def bind_sum_Inr)
  then show ?thesis using release_range [OF assms(1), of "[b..e]"] by auto
qed

lemma Occupy_ok:
  assumes "cidr_inv s" "CidrSet_Occupy p s = Some (Inr s')"
  shows "cidr_inv s' \<and> same_blocks s s' \<and> cs_reserved s' = cs_reserved s \<and>
    (\<exists>b e. getBeginningAndEndIndices s p = Some (Inr (b, e)) \<and> items (cs_used s') = items (cs_used s) \<union> nat ` {b..e})"
proof -
  obtain b e where be: "getBeginningAndEndIndices s p = Some (Inr (b, e))" "s' = fold (\<lambda>i. occupyIndex (nat i)) [b..e] s"
    using assms(2) by (auto simp: CidrSet_Occupy_def bind_sum_Inr)
  have "0 \<le> b \<and> e < cs_maxCIDRs s" using indices_range [OF _ be(1)] assms(1) by (simp add: cidr_inv_def)
  then have "\<forall>i \<in> set [b..e]. int (nat i) < cs_maxCIDRs s" by auto
  from occupy_range [OF assms(1) this] show ?thesis using be by auto
qed

lemma block_operations:
  assumes ok: "blocks_ok s" and i: "int i < cs_maxCIDRs s"
  shows "CidrSet_IsAllocated (block_of s i) s = Some (Inr (i \<in> items (cs_used s)))"
    "CidrSet_Release (block_of s i) s = Some (Inr (releaseIndex i s))"
    "CidrSet_Occupy (block_of s i) s = Some (Inr (occupyIndex i s))"
  using block_indices [OF assms] by (simp_all add: CidrSet_IsAllocated_def CidrSet_Release_def CidrSet_Occupy_def bit_items)

section \<open>Reachable sets\<close>

inductive cidr_reach :: "Prefix \<Rightarrow> int \<Rightarrow> CidrSet \<Rightarrow> bool" for p sz where
  cr_new: "NewCIDRSet p sz = Inr s \<Longrightarrow> cidr_reach p sz s"
| cr_allocate: "cidr_reach p sz s \<Longrightarrow> CidrSet_AllocateNext s = Inr (b, s') \<Longrightarrow> cidr_reach p sz s'"
| cr_release: "cidr_reach p sz s \<Longrightarrow> CidrSet_Release q s = Some (Inr s') \<Longrightarrow> cidr_reach p sz s'"
| cr_occupy: "cidr_reach p sz s \<Longrightarrow> CidrSet_Occupy q s = Some (Inr s') \<Longrightarrow> cidr_reach p sz s'"
| cr_reserve: "cidr_reach p sz s \<Longrightarrow> ComputeRangesToReserve s ranges 0 = Some (Inr bm) \<Longrightarrow>
    cidr_reach p sz (SetReservedRanges bm s)"

lemma cidr_reach_inv:
  assumes "cidr_reach p sz s" "prefix_valid p" "pf_bits p \<le> sz" "sz - pf_bits p < 32"
  shows "cidr_inv s \<and> cs_clusterPrefix s = Masked p \<and> cs_nodeMaskSize s = sz"
  using assms
proof (induction rule: cidr_reach.induct)
  case (cr_new s)
  then show ?case using NewCIDRSet_inv by blast
next
  case (cr_allocate s b s')
  then have "cidr_inv s" by simp
  from AllocateNext_ok [OF this] show ?case using cr_allocate by (auto simp: same_blocks_def split: if_splits)
next
  case (cr_release s q s')
  then show ?case using Release_ok [of s q s'] by (simp add: same_blocks_def)
next
  case (cr_occupy s q s')
  then show ?case using Occupy_ok [of s q s'] by (simp add: same_blocks_def)
next
  case (cr_reserve s ranges bm)
  then have inv: "cidr_inv s" by simp
  then have "\<forall>i \<in> items bm. int i < cs_maxCIDRs s" using ComputeRanges_bits [OF _ cr_reserve.hyps(2)] by (simp add: cidr_inv_def)
  from SetReservedRanges_ok [OF inv this] show ?case using cr_reserve by (simp add: same_blocks_def)
qed

definition free_blocks :: "CidrSet \<Rightarrow> Prefix set" where
  "free_blocks s = block_of s ` ({i. int i < cs_maxCIDRs s} - unavailable s)"

definition alloc_block :: "unit \<Rightarrow> CidrSet \<Rightarrow> (Prefix \<times> CidrSet) option" where
  "alloc_block u s = (case CidrSet_AllocateNext s of Inl err \<Rightarrow> None | Inr r \<Rightarrow> Some r)"

interpretation cidr_pool: pool cidr_inv free_blocks alloc_block
proof
  fix s :: CidrSet
  have "{i. int i < cs_maxCIDRs s} = {..<nat (cs_maxCIDRs s)}" by auto
  then show "finite (free_blocks s)" by (simp add: free_blocks_def)
next
  fix s u b s'
  assume inv: "cidr_inv s" and a: "alloc_block u s = Some (b, s')"
  obtain i where i: "b = block_of s i" "int i < cs_maxCIDRs s" "i \<notin> unavailable s" "cidr_inv s'" "same_blocks s s'"
    "items (cs_used s') = insert i (items (cs_used s))" "cs_reserved s' = cs_reserved s"
    using AllocateNext_ok [OF inv] a by (auto simp: alloc_block_def split: if_splits)
  have ok: "blocks_ok s" using inv by (simp add: cidr_inv_def)
  have u: "unavailable s' = insert i (unavailable s)" using i(6,7) by (simp add: unavailable_def)
  have "{j. int j < cs_maxCIDRs s'} - unavailable s' = ({j. int j < cs_maxCIDRs s} - unavailable s) - {i}"
    using i(5) u by (auto simp: same_blocks_def)
  moreover have "block_of s ` (({j. int j < cs_maxCIDRs s} - unavailable s) - {i}) = free_blocks s - {b}"
    unfolding free_blocks_def i(1) using block_of_inj [OF ok] i(2)
    by (subst inj_on_image_set_diff [of _ "{i. int i < cs_maxCIDRs s}"]) auto
  ultimately have "free_blocks s' = free_blocks s - {b}" by (simp add: free_blocks_def same_block_of [OF i(5)])
  then show "b \<in> free_blocks s \<and> free_blocks s' = free_blocks s - {b} \<and> cidr_inv s'"
    using i by (auto simp: free_blocks_def)
next
  fix s u
  assume inv: "cidr_inv s" and "alloc_block u s = None"
  then have "IsFull s" using AllocateNext_ok [OF inv] by (auto simp: alloc_block_def split: if_splits)
  then show "free_blocks s = {}" using AllocateNext_ok [OF inv] by (simp add: free_blocks_def)
qed

text \<open>The blocks that a set has handed out.\<close>

definition allocated_blocks :: "CidrSet \<Rightarrow> Prefix set" where
  "allocated_blocks s = block_of s ` items (cs_used s)"

lemma block_fresh:
  assumes inv: "cidr_inv s" and i: "int i < cs_maxCIDRs s" "i \<notin> unavailable s" and c: "c \<in> allocated_blocks s"
  shows "\<not> (Prefix_Contains (block_of s i) a \<and> Prefix_Contains c a)"
proof -
  obtain j where j: "c = block_of s j" "j \<in> items (cs_used s)" using c by (auto simp: allocated_blocks_def)
  then have "int j < cs_maxCIDRs s" "i \<noteq> j" using inv i(2) by (auto simp: cidr_inv_def unavailable_def)
  then show ?thesis using block_of_disjoint [OF _ i(1), of j a] inv j(1) by (auto simp: cidr_inv_def)
qed

lemma release_allocated:
  assumes inv: "cidr_inv s'" and sb: "same_blocks s s'" and i: "int i < cs_maxCIDRs s" "i \<notin> items (cs_used s)"
    and u: "items (cs_used s') = insert i (items (cs_used s))"
  shows "\<exists>s''. CidrSet_Release (block_of s i) s' = Some (Inr s'') \<and> allocated_blocks s'' = allocated_blocks s"
proof (intro exI conjI)
  have ok: "blocks_ok s'" "int i < cs_maxCIDRs s'" using inv sb i(1) by (simp_all add: cidr_inv_def same_blocks_def)
  show "CidrSet_Release (block_of s i) s' = Some (Inr (releaseIndex i s'))"
    using block_operations(2) [OF ok] by (simp add: same_block_of [OF sb])
  have r: "same_blocks s (releaseIndex i s')" "items (cs_used (releaseIndex i s')) = items (cs_used s)"
    using releaseIndex_ok [OF inv, of i] sb u i(2) by (auto intro: same_blocks_trans)
  show "allocated_blocks (releaseIndex i s') = allocated_blocks s"
    by (simp add: allocated_blocks_def r(2) same_block_of [OF r(1)])
qed

lemma AllocateNext_blocks:
  assumes inv: "cidr_inv s" and a: "CidrSet_AllocateNext s = Inr (b, s')"
  shows "\<not> IsFull s \<and> prefix_valid b \<and> Masked b = b \<and> pf_bits b = cs_nodeMaskSize s \<and>
    Prefix_Contains (cs_clusterPrefix s) (pf_ip b) \<and>
    CidrSet_IsAllocated b s = Some (Inr False) \<and> CidrSet_IsAllocated b s' = Some (Inr True) \<and>
    allocated_blocks s' = insert b (allocated_blocks s) \<and> cs_reserved s' = cs_reserved s \<and>
    (\<forall>c \<in> allocated_blocks s. \<forall>x. \<not> (Prefix_Contains b x \<and> Prefix_Contains c x)) \<and>
    (\<exists>s''. CidrSet_Release b s' = Some (Inr s'') \<and> allocated_blocks s'' = allocated_blocks s)"
proof -
  have full: "\<not> IsFull s" using AllocateNext_ok [OF inv] a by auto
  then obtain i where b: "b = block_of s i" and i: "int i < cs_maxCIDRs s" "i \<notin> unavailable s"
    and inv': "cidr_inv s'" and sb: "same_blocks s s'"
    and u: "items (cs_used s') = insert i (items (cs_used s))" "cs_reserved s' = cs_reserved s"
    using AllocateNext_ok [OF inv] a by auto
  have ok: "blocks_ok s" "blocks_ok s'" "int i < cs_maxCIDRs s'"
    using inv inv' sb i(1) by (simp_all add: cidr_inv_def same_blocks_def)
  have free: "i \<notin> items (cs_used s)" using i(2) by (simp add: unavailable_def)
  have "CidrSet_IsAllocated b s = Some (Inr False)" "CidrSet_IsAllocated b s' = Some (Inr True)"
    using block_operations(1) [OF ok(1) i(1)] block_operations(1) [OF ok(2,3)] free u(1)
    by (simp_all add: b same_block_of [OF sb])
  moreover have "allocated_blocks s' = insert b (allocated_blocks s)"
    by (simp add: allocated_blocks_def u(1) same_block_of [OF sb] b)
  ultimately show ?thesis
    using full block_of_valid [OF ok(1), of i] block_of_masked [OF ok(1) i(1)] block_of_contained [OF ok(1) i(1)] u(2)
      block_fresh [OF inv i] release_allocated [OF inv' sb i(1) free u(1)]
    by (simp add: b)
qed

text \<open>
  C14.  The block allocator of a cluster prefix with fewer than $2^{32}$ blocks.  In every set reached from a new one by allocations,
  releases, occupations and reservations: allocation fails exactly when the set is full, and then no
  block is free; otherwise it hands out an aligned block of the node mask size inside the cluster
  prefix that was not allocated, is allocated afterwards, and shares no address with a block handed
  out before, and releasing it gives the set of allocated blocks back.  Any number of consecutive
  allocations up to the number of free blocks succeeds, with different blocks.
\<close>

theorem cidr_set_allocation:
  assumes "prefix_valid p" "pf_bits p \<le> sz" "sz - pf_bits p < 32" "cidr_reach p sz s"
  shows "(case CidrSet_AllocateNext s of
      Inl err \<Rightarrow> err = ErrCIDRRangeNoCIDRsRemaining \<and> IsFull s \<and> free_blocks s = {}
    | Inr (b, s') \<Rightarrow>
        \<not> IsFull s \<and> prefix_valid b \<and> Masked b = b \<and> pf_bits b = sz \<and> Prefix_Contains (Masked p) (pf_ip b) \<and>
        CidrSet_IsAllocated b s = Some (Inr False) \<and> CidrSet_IsAllocated b s' = Some (Inr True) \<and>
        allocated_blocks s' = insert b (allocated_blocks s) \<and>
        (\<forall>c \<in> allocated_blocks s. \<forall>x. \<not> (Prefix_Contains b x \<and> Prefix_Contains c x)) \<and>
        (\<exists>s''. CidrSet_Release b s' = Some (Inr s'') \<and> allocated_blocks s'' = allocated_blocks s)) \<and>
    (\<forall>us. length us \<le> card (free_blocks s) \<longrightarrow>
       (\<exists>bs s'. allocateMany alloc_block us s = Some (bs, s') \<and> length bs = length us \<and> distinct bs \<and>
          set bs \<subseteq> free_blocks s \<and> free_blocks s' = free_blocks s - set bs))"
proof -
  have inv: "cidr_inv s" and c: "cs_clusterPrefix s = Masked p" "cs_nodeMaskSize s = sz"
    using cidr_reach_inv [OF assms(4,1,2,3)] by simp_all
  have full: "err = ErrCIDRRangeNoCIDRsRemaining \<and> IsFull s \<and> free_blocks s = {}"
    if "CidrSet_AllocateNext s = Inl err" for err
    using AllocateNext_ok [OF inv] that by (auto simp: free_blocks_def split: if_splits)
  have many: "\<exists>bs s'. allocateMany alloc_block us s = Some (bs, s') \<and> length bs = length us \<and> distinct bs \<and>
      set bs \<subseteq> free_blocks s \<and> free_blocks s' = free_blocks s - set bs" if "length us \<le> card (free_blocks s)" for us
    using cidr_pool.allocateMany_progress [OF inv that] by blast
  show ?thesis
  proof (cases "CidrSet_AllocateNext s")
    case (Inl err)
    then show ?thesis using full [OF Inl] many by simp
  next
    case (Inr r)
    obtain b s' where r: "r = (b, s')" by force
    show ?thesis using AllocateNext_blocks [OF inv Inr [unfolded r]] many by (simp add: Inr r c)
  qed
qed

text \<open>
  A cluster prefix of four blocks, of which the first is allocated and the second reserved: the third is
  handed out.
\<close>

definition demo_cluster :: Prefix where
  "demo_cluster = \<lparr>pf_ip = Addr4 0x0A000000, pf_bits = 22\<rparr>"

theorem cidr_set_allocation_witness:
  "\<exists>s. cidr_reach demo_cluster 24 s \<and>
     (case CidrSet_AllocateNext s of
        Inl err \<Rightarrow> False
      | Inr (b, s') \<Rightarrow>
          b = \<lparr>pf_ip = Addr4 0x0A000200, pf_bits = 24\<rparr> \<and> CidrSet_IsAllocated b s = Some (Inr False) \<and>
          (\<exists>s''. CidrSet_Release b s' = Some (Inr s'') \<and> allocated_blocks s'' = allocated_blocks s))"
proof -
  define s0 where "s0 = \<lparr>cs_clusterPrefix = demo_cluster, cs_nodeMaskSize = 24, cs_maxCIDRs = 4,
    cs_unavailableCIDRs = 0, cs_nextCandidate = 0, cs_used = 0, cs_reserved = 0\<rparr>"
  define s1 where "s1 = s0\<lparr>cs_unavailableCIDRs := 1, cs_reserved := 2\<rparr>"
  define s2 where "s2 = s1\<lparr>cs_unavailableCIDRs := 2, cs_nextCandidate := 1, cs_used := 1\<rparr>"
  have "NewCIDRSet demo_cluster 24 = Inr s0" unfolding s0_def by code_simp
  then have r0: "cidr_reach demo_cluster 24 s0" by (rule cr_new)
  have "set_bit 1 (0 :: nat) = 2" by (simp add: set_bit_eq_or)
  then have "items 2 = {1}" using items(3) [of 1 0] by (simp only: items(2))
  then have "SetReservedRanges 2 s0 = s1" by (simp add: SetReservedRanges_def countUnavailable_card s0_def s1_def)
  moreover have "ComputeRangesToReserve s0 [(Addr4 0x0A000100, Addr4 0x0A000105)] 0 = Some (Inr 2)" unfolding s0_def by code_simp
  ultimately have r1: "cidr_reach demo_cluster 24 s1" by (metis cr_reserve [OF r0])
  have "CidrSet_AllocateNext s1 = Inr (\<lparr>pf_ip = Addr4 0x0A000000, pf_bits = 24\<rparr>, s2)"
    unfolding s2_def s1_def s0_def by code_simp
  then have r2: "cidr_reach demo_cluster 24 s2" by (rule cr_allocate [OF r1])
  have "case CidrSet_AllocateNext s2 of Inl _ \<Rightarrow> False | Inr (b, s') \<Rightarrow> b = \<lparr>pf_ip = Addr4 0x0A000200, pf_bits = 24\<rparr>"
    unfolding s2_def s1_def s0_def by code_simp
  moreover have "prefix_valid demo_cluster" "pf_bits demo_cluster \<le> 24" "24 - pf_bits demo_cluster < 32" by code_simp+
  ultimately show ?thesis using cidr_set_allocation [OF _ _ _ r2] r2
    by (intro exI [of _ s2]) (auto split: sum.split_asm)
qed

end
