(* ===== verification/MultiPool.thy ===== *)
theory MultiPool
  imports CidrSets GoStrings "HOL-Library.Product_Lexorder"
begin

text \<open>
  The allocator of CIDRs from several pools to nodes (\<^verbatim>\<open>operator/pkg/ipam/allocator/multipool\<close>).
  Maps are association lists, sets of prefixes are lists without duplicates, and a set that can be nil
  is optional.  An allocator of a pool is referred to by this pool only, so a pool holds its value.  A
  loop over a map deletes at most the entry it visits, so it runs over the entries at its start.  The
  result \<^verbatim>\<open>None\<close> is a panic; errors are collected in a list, which is empty for nil.  The
  printing and the parsing of prefixes and addresses are arguments.
\<close>

section \<open>Loops\<close>

fun foldM :: "('a \<Rightarrow> 's \<Rightarrow> 's option) \<Rightarrow> 'a list \<Rightarrow> 's \<Rightarrow> 's option" where
  "foldM f [] s = Some s"
| "foldM f (x # xs) s = do { s' \<leftarrow> f x s; foldM f xs s' }"

lemma foldM_inv:
  assumes "foldM f xs s = Some s'" "I s" "\<And>x s s'. x \<in> set xs \<Longrightarrow> I s \<Longrightarrow> f x s = Some s' \<Longrightarrow> I s'"
  shows "I s'"
  using assms by (induction xs arbitrary: s) (auto simp: bind_eq_Some_conv)

lemma foldM_returns:
  assumes "I s" "\<And>x s. x \<in> set xs \<Longrightarrow> I s \<Longrightarrow> \<exists>s'. f x s = Some s' \<and> I s'"
  shows "\<exists>s'. foldM f xs s = Some s' \<and> I s'"
  using assms by (induction xs arbitrary: s) (simp, fastforce)

section \<open>The allocators of one pool\<close>

datatype poolError =
    ErrPoolEmpty
  | ErrCidr cidrError
  | ErrCidrAllocated Prefix
  | ErrCidrNotInPool Prefix
  | ErrReleasedNotInPool Prefix
  | ErrInvalidFamily string
  | ErrChangeIPv4Mask string
  | ErrChangeIPv6Mask string
  | ErrChangeAllowFirstIP string
  | ErrChangeAllowLastIP string
  | ErrReserve Prefix cidrError
  | ErrDeleteNoPool string
  | ErrInvalidCIDR Prefix string
  | ErrOrphaned string Prefix
  | ErrAllocatorNotReady
  | ErrAllocateNoPool string
  | ErrReuseNoPool string
  | ErrReleaseNoPool string
  | ErrReservedStart string Prefix
  | ErrReservedEnd string Prefix
  | ErrReservedRange Addr Addr Prefix
  | ErrReservedOutside Addr Addr Prefix

fun allocFirstFreeCIDR :: "CidrSet list \<Rightarrow> poolError + Prefix \<times> CidrSet list" where
  "allocFirstFreeCIDR [] = Inl ErrPoolEmpty"
| "allocFirstFreeCIDR (alloc # allocators) =
     (if IsFull alloc then
        (case allocFirstFreeCIDR allocators of
           Inl err \<Rightarrow> Inl err
         | Inr (cidr, allocators') \<Rightarrow> Inr (cidr, alloc # allocators'))
      else
        (case CidrSet_AllocateNext alloc of
           Inl err \<Rightarrow> Inl (ErrCidr err)
         | Inr (cidr, alloc') \<Rightarrow> Inr (cidr, alloc' # allocators)))"

text \<open>An operation on the first allocator whose range the CIDR meets.\<close>

fun occupyCIDR :: "CidrSet list \<Rightarrow> Prefix \<Rightarrow> (poolError + CidrSet list) option" where
  "occupyCIDR [] cidr = Some (Inl (ErrCidrNotInPool cidr))"
| "occupyCIDR (alloc # allocators) cidr =
     (if \<not> InRange alloc cidr then map_option (map_sum id ((#) alloc)) (occupyCIDR allocators cidr)
      else do {
        allocated \<leftarrow> CidrSet_IsAllocated cidr alloc;
        case allocated of
          Inl err \<Rightarrow> Some (Inl (ErrCidr err))
        | Inr True \<Rightarrow> Some (Inl (ErrCidrAllocated cidr))
        | Inr False \<Rightarrow> map_option (map_sum ErrCidr (\<lambda>alloc'. alloc' # allocators)) (CidrSet_Occupy cidr alloc)
      })"

fun releaseCIDR :: "CidrSet list \<Rightarrow> Prefix \<Rightarrow> (poolError + CidrSet list) option" where
  "releaseCIDR [] cidr = Some (Inl (ErrReleasedNotInPool cidr))"
| "releaseCIDR (alloc # allocators) cidr =
     (if \<not> InRange alloc cidr then map_option (map_sum id ((#) alloc)) (releaseCIDR allocators cidr)
      else do {
        allocated \<leftarrow> CidrSet_IsAllocated cidr alloc;
        case allocated of
          Inl err \<Rightarrow> Some (Inl (ErrCidr err))
        | Inr False \<Rightarrow> Some (Inr (alloc # allocators))
        | Inr True \<Rightarrow> map_option (map_sum ErrCidr (\<lambda>alloc'. alloc' # allocators)) (CidrSet_Release cidr alloc)
      })"

definition hasCIDR :: "CidrSet list \<Rightarrow> Prefix \<Rightarrow> bool" where
  "hasCIDR allocators cidr \<longleftrightarrow> list_ex (\<lambda>alloc. IsClusterCIDR alloc cidr) allocators"

definition containsCIDR :: "CidrSet list \<Rightarrow> Prefix \<Rightarrow> bool" where
  "containsCIDR allocators cidr \<longleftrightarrow> list_ex (\<lambda>alloc. InRange alloc cidr) allocators"

record cidrPool =
  cp_v4 :: "CidrSet list"
  cp_v6 :: "CidrSet list"
  cp_v4MaskSize :: int
  cp_v6MaskSize :: int
  cp_allowFirstIP :: bool
  cp_allowLastIP :: bool

type_synonym Family = string

definition FamilyIPv4 :: Family where "FamilyIPv4 = ''ipv4''"
definition FamilyIPv6 :: Family where "FamilyIPv6 = ''ipv6''"

definition cidrPool_allocCIDR :: "Family \<Rightarrow> cidrPool \<Rightarrow> poolError + Prefix \<times> cidrPool" where
  "cidrPool_allocCIDR family c =
     (if family = FamilyIPv4 then map_sum id (map_prod id (\<lambda>v4. c\<lparr>cp_v4 := v4\<rparr>)) (allocFirstFreeCIDR (cp_v4 c))
      else if family = FamilyIPv6 then map_sum id (map_prod id (\<lambda>v6. c\<lparr>cp_v6 := v6\<rparr>)) (allocFirstFreeCIDR (cp_v6 c))
      else Inl (ErrInvalidFamily family))"

definition cidrPool_occupyCIDR :: "Prefix \<Rightarrow> cidrPool \<Rightarrow> (poolError + cidrPool) option" where
  "cidrPool_occupyCIDR cidr c =
     (if Is4 (pf_ip cidr) then map_option (map_sum id (\<lambda>v4. c\<lparr>cp_v4 := v4\<rparr>)) (occupyCIDR (cp_v4 c) cidr)
      else map_option (map_sum id (\<lambda>v6. c\<lparr>cp_v6 := v6\<rparr>)) (occupyCIDR (cp_v6 c) cidr))"

definition cidrPool_releaseCIDR :: "Prefix \<Rightarrow> cidrPool \<Rightarrow> (poolError + cidrPool) option" where
  "cidrPool_releaseCIDR cidr c =
     (if Is4 (pf_ip cidr) then map_option (map_sum id (\<lambda>v4. c\<lparr>cp_v4 := v4\<rparr>)) (releaseCIDR (cp_v4 c) cidr)
      else map_option (map_sum id (\<lambda>v6. c\<lparr>cp_v6 := v6\<rparr>)) (releaseCIDR (cp_v6 c) cidr))"

definition cidrPool_hasCIDR :: "Prefix \<Rightarrow> cidrPool \<Rightarrow> bool" where
  "cidrPool_hasCIDR cidr c = (if Is4 (pf_ip cidr) then hasCIDR (cp_v4 c) cidr else hasCIDR (cp_v6 c) cidr)"

section \<open>The state of the allocator\<close>

record poolOptions =
  po_allowFirstIP :: bool
  po_allowLastIP :: bool

definition WithAllowFirstIP :: "poolOptions \<Rightarrow> poolOptions" where
  "WithAllowFirstIP opts = opts\<lparr>po_allowFirstIP := True\<rparr>"

definition WithAllowLastIP :: "poolOptions \<Rightarrow> poolOptions" where
  "WithAllowLastIP opts = opts\<lparr>po_allowLastIP := True\<rparr>"

record poolCIDRConfig =
  pc_cidr :: Prefix
  pc_reservedRanges :: "(Addr \<times> Addr) list"

type_synonym cidrSet = "Prefix list option"

definition members :: "cidrSet \<Rightarrow> Prefix list" where
  "members c = (case c of None \<Rightarrow> [] | Some cidrs \<Rightarrow> cidrs)"

text \<open>The number of usable addresses of a prefix, and of a set of prefixes.\<close>

definition addrsInPrefix :: "Prefix \<Rightarrow> bool \<Rightarrow> bool \<Rightarrow> int" where
  "addrsInPrefix p allowFirstIP allowLastIP =
     (if \<not> prefix_valid p then 0
      else
        let addrs = 2 ^ nat (int (BitLen (pf_ip p)) - pf_bits p) in
        if addrs \<le> 2 then addrs
        else
          let addrs = (if \<not> allowFirstIP then addrs - 1 else addrs);
              addrs = (if \<not> allowLastIP then addrs - 1 else addrs)
          in if addrs < 0 then 0 else addrs)"

definition availableAddrs :: "cidrSet \<Rightarrow> bool \<Rightarrow> bool \<Rightarrow> int" where
  "availableAddrs c allowFirstIP allowLastIP =
     foldl (\<lambda>total p. total + addrsInPrefix p allowFirstIP allowLastIP) 0 (members c)"

text \<open>
  The order of prefixes: by validity, family, masked address, length and address.
\<close>

fun Addr_number :: "Addr \<Rightarrow> nat" where
  "Addr_number AddrZero = 0"
| "Addr_number (Addr4 a) = unat a"
| "Addr_number (Addr6 a) = unat a"

definition Prefix_key :: "Prefix \<Rightarrow> bool \<times> nat \<times> nat \<times> int \<times> nat" where
  "Prefix_key p =
     (prefix_valid p, BitLen (pf_ip p), Addr_number (pf_ip (Masked p)), pf_bits p, Addr_number (pf_ip p))"

definition CIDRSlice :: "cidrSet \<Rightarrow> Prefix list" where
  "CIDRSlice c = sort_key Prefix_key (members c)"

record cidrSets =
  cc_v4 :: cidrSet
  cc_v6 :: cidrSet
  cc_allowFirstIP :: bool
  cc_allowLastIP :: bool

definition zeroSets :: cidrSets where
  "zeroSets = \<lparr>cc_v4 = None, cc_v6 = None, cc_allowFirstIP = False, cc_allowLastIP = False\<rparr>"

type_synonym poolToCIDRs = "(string \<times> cidrSets) list"

record PoolAllocator =
  pa_ipv4Enabled :: bool
  pa_ipv6Enabled :: bool
  pa_pools :: "(string \<times> cidrPool) list"
  pa_nodes :: "(string \<times> poolToCIDRs) list"
  pa_orphans :: "(string \<times> poolToCIDRs) list"
  pa_ready :: bool

definition NewPoolAllocator :: "bool \<Rightarrow> bool \<Rightarrow> PoolAllocator" where
  "NewPoolAllocator enableIPv4 enableIPv6 =
     \<lparr>pa_ipv4Enabled = enableIPv4, pa_ipv6Enabled = enableIPv6, pa_pools = [], pa_nodes = [], pa_orphans = [],
      pa_ready = False\<rparr>"

definition RestoreFinished :: "PoolAllocator \<Rightarrow> PoolAllocator" where
  "RestoreFinished p = p\<lparr>pa_ready := True\<rparr>"

text \<open>A lookup in a map of maps gives the zero value for a missing key.\<close>

definition pools_of :: "(string \<times> poolToCIDRs) list \<Rightarrow> string \<Rightarrow> poolToCIDRs" where
  "pools_of m node = (case map_of m node of None \<Rightarrow> [] | Some pools \<Rightarrow> pools)"

definition sets_of :: "(string \<times> poolToCIDRs) list \<Rightarrow> string \<Rightarrow> string \<Rightarrow> cidrSets" where
  "sets_of m node poolName = (case map_of (pools_of m node) poolName of None \<Rightarrow> zeroSets | Some sets \<Rightarrow> sets)"

text \<open>
  The switch on the family of a CIDR around a lookup, an insertion and a deletion.  An insertion into a
  nil map panics.
\<close>

definition sets_member :: "Prefix \<Rightarrow> cidrSets \<Rightarrow> bool" where
  "sets_member cidr sets =
     (case pf_ip cidr of
        Addr4 _ \<Rightarrow> cidr \<in> set (members (cc_v4 sets))
      | Addr6 _ \<Rightarrow> cidr \<in> set (members (cc_v6 sets))
      | AddrZero \<Rightarrow> False)"

definition sets_insert :: "Prefix \<Rightarrow> cidrSets \<Rightarrow> cidrSets option" where
  "sets_insert cidr sets =
     (case pf_ip cidr of
        Addr4 _ \<Rightarrow> map_option (\<lambda>cidrs. sets\<lparr>cc_v4 := Some (List.insert cidr cidrs)\<rparr>) (cc_v4 sets)
      | Addr6 _ \<Rightarrow> map_option (\<lambda>cidrs. sets\<lparr>cc_v6 := Some (List.insert cidr cidrs)\<rparr>) (cc_v6 sets)
      | AddrZero \<Rightarrow> Some sets)"

definition set_delete :: "Prefix \<Rightarrow> cidrSet \<Rightarrow> cidrSet" where
  "set_delete cidr c = map_option (removeAll cidr) c"

definition sets_delete :: "Prefix \<Rightarrow> cidrSets \<Rightarrow> cidrSets" where
  "sets_delete cidr sets =
     (case pf_ip cidr of
        Addr4 _ \<Rightarrow> sets\<lparr>cc_v4 := set_delete cidr (cc_v4 sets)\<rparr>
      | Addr6 _ \<Rightarrow> sets\<lparr>cc_v6 := set_delete cidr (cc_v6 sets)\<rparr>
      | AddrZero \<Rightarrow> sets)"

definition sets_update ::
  "string \<Rightarrow> string \<Rightarrow> cidrSets \<Rightarrow> (string \<times> poolToCIDRs) list \<Rightarrow> (string \<times> poolToCIDRs) list"
where
  "sets_update node poolName sets m = AList.update node (AList.update poolName sets (pools_of m node)) m"

text \<open>A change of the sets in place, if there are any.\<close>

definition sets_modify ::
  "string \<Rightarrow> string \<Rightarrow> (cidrSets \<Rightarrow> cidrSets) \<Rightarrow> (string \<times> poolToCIDRs) list \<Rightarrow> (string \<times> poolToCIDRs) list"
where
  "sets_modify node poolName f m =
     (case map_of (pools_of m node) poolName of None \<Rightarrow> m | Some sets \<Rightarrow> sets_update node poolName (f sets) m)"

definition family_delete :: "bool \<Rightarrow> Prefix \<Rightarrow> cidrSets \<Rightarrow> cidrSets" where
  "family_delete isV6 cidr sets =
     (if isV6 then sets\<lparr>cc_v6 := set_delete cidr (cc_v6 sets)\<rparr> else sets\<lparr>cc_v4 := set_delete cidr (cc_v4 sets)\<rparr>)"

section \<open>Bookkeeping of nodes and orphans\<close>

definition isAllocated :: "string \<Rightarrow> string \<Rightarrow> Prefix \<Rightarrow> PoolAllocator \<Rightarrow> bool" where
  "isAllocated targetNode sourcePool cidr p = sets_member cidr (sets_of (pa_nodes p) targetNode sourcePool)"

definition markAllocated :: "string \<Rightarrow> string \<Rightarrow> Prefix \<Rightarrow> PoolAllocator \<Rightarrow> PoolAllocator option" where
  "markAllocated targetNode sourcePool cidr p =
     (let pools = pools_of (pa_nodes p) targetNode;
          cidrs = (case map_of pools sourcePool of
              Some cidrs \<Rightarrow> cidrs
            | None \<Rightarrow>
                \<lparr>cc_v4 = Some [], cc_v6 = Some [],
                 cc_allowFirstIP = (case map_of (pa_pools p) sourcePool of None \<Rightarrow> False | Some c \<Rightarrow> cp_allowFirstIP c),
                 cc_allowLastIP = (case map_of (pa_pools p) sourcePool of None \<Rightarrow> False | Some c \<Rightarrow> cp_allowLastIP c)\<rparr>)
      in map_option (\<lambda>cidrs. p\<lparr>pa_nodes := sets_update targetNode sourcePool cidrs (pa_nodes p)\<rparr>) (sets_insert cidr cidrs))"

definition markReleased :: "string \<Rightarrow> string \<Rightarrow> Prefix \<Rightarrow> PoolAllocator \<Rightarrow> PoolAllocator" where
  "markReleased targetNode sourcePool cidr p =
     (case map_of (pa_nodes p) targetNode of
        None \<Rightarrow> p
      | Some pools \<Rightarrow>
          (case map_of pools sourcePool of
             None \<Rightarrow> p
           | Some cidrs \<Rightarrow>
               let cidrs = sets_delete cidr cidrs in
               if members (cc_v4 cidrs) = [] \<and> members (cc_v6 cidrs) = []
               then p\<lparr>pa_nodes := AList.update targetNode (AList.delete sourcePool pools) (pa_nodes p)\<rparr>
               else p\<lparr>pa_nodes := sets_update targetNode sourcePool cidrs (pa_nodes p)\<rparr>))"

definition isOrphan :: "string \<Rightarrow> string \<Rightarrow> Prefix \<Rightarrow> PoolAllocator \<Rightarrow> bool" where
  "isOrphan targetNode sourcePool cidr p = sets_member cidr (sets_of (pa_orphans p) targetNode sourcePool)"

definition markOrphan :: "string \<Rightarrow> string \<Rightarrow> Prefix \<Rightarrow> bool \<Rightarrow> bool \<Rightarrow> PoolAllocator \<Rightarrow> PoolAllocator option" where
  "markOrphan targetNode sourcePool cidr allowFirstIP allowLastIP p =
     (let pools = pools_of (pa_orphans p) targetNode;
          cidrs = (case map_of pools sourcePool of
              Some cidrs \<Rightarrow> cidrs
            | None \<Rightarrow>
                \<lparr>cc_v4 = Some [], cc_v6 = Some [], cc_allowFirstIP = allowFirstIP, cc_allowLastIP = allowLastIP\<rparr>)
      in map_option (\<lambda>cidrs. p\<lparr>pa_orphans := sets_update targetNode sourcePool cidrs (pa_orphans p)\<rparr>) (sets_insert cidr cidrs))"

text \<open>
  After a deletion, empty entries are removed; an empty set beside a set that is not empty becomes nil.
\<close>

definition cleanupOrphans :: "string \<Rightarrow> string \<Rightarrow> PoolAllocator \<Rightarrow> PoolAllocator" where
  "cleanupOrphans node poolName p =
     (let cidrs = sets_of (pa_orphans p) node poolName in
      if members (cc_v4 cidrs) = [] \<and> members (cc_v6 cidrs) = [] then
        let pools = AList.delete poolName (pools_of (pa_orphans p) node) in
        if pools = [] then p\<lparr>pa_orphans := AList.delete node (pa_orphans p)\<rparr>
        else p\<lparr>pa_orphans := AList.update node pools (pa_orphans p)\<rparr>
      else if members (cc_v4 cidrs) = [] then
        p\<lparr>pa_orphans := sets_update node poolName (cidrs\<lparr>cc_v4 := None\<rparr>) (pa_orphans p)\<rparr>
      else if members (cc_v6 cidrs) = [] then
        p\<lparr>pa_orphans := sets_update node poolName (cidrs\<lparr>cc_v6 := None\<rparr>) (pa_orphans p)\<rparr>
      else p)"

definition markReleasedOrphan :: "string \<Rightarrow> string \<Rightarrow> Prefix \<Rightarrow> PoolAllocator \<Rightarrow> PoolAllocator" where
  "markReleasedOrphan targetNode sourcePool cidr p =
     (case map_of (pa_orphans p) targetNode of
        None \<Rightarrow> p
      | Some pools \<Rightarrow>
          (case map_of pools sourcePool of
             None \<Rightarrow> p
           | Some cidrs \<Rightarrow>
               cleanupOrphans targetNode sourcePool
                 (p\<lparr>pa_orphans := sets_update targetNode sourcePool (sets_delete cidr cidrs) (pa_orphans p)\<rparr>)))"

section \<open>Allocation, occupation and release\<close>

definition set_pool :: "string \<Rightarrow> cidrPool \<Rightarrow> PoolAllocator \<Rightarrow> PoolAllocator" where
  "set_pool poolName c p = p\<lparr>pa_pools := AList.update poolName c (pa_pools p)\<rparr>"

text \<open>
  The loop ends when enough addresses are allocated; every CIDR counts for at least one address.
\<close>

partial_function (option) allocateCIDRs_loop ::
  "string \<Rightarrow> string \<Rightarrow> Family \<Rightarrow> int \<Rightarrow> cidrPool \<Rightarrow> PoolAllocator \<Rightarrow> (poolError list \<times> PoolAllocator) option"
where
  "allocateCIDRs_loop targetNode sourcePool family toAllocate c p =
     (if toAllocate > 0 then
        (case cidrPool_allocCIDR family c of
           Inl err \<Rightarrow> Some ([err], p)
         | Inr (cidr, c') \<Rightarrow>
             do {
               p' \<leftarrow> markAllocated targetNode sourcePool cidr (set_pool sourcePool c' p);
               allocateCIDRs_loop targetNode sourcePool family
                 (toAllocate - addrsInPrefix cidr (cp_allowFirstIP c) (cp_allowLastIP c)) c' p'
             })
      else Some ([], p))"

declare allocateCIDRs_loop.simps [code]

definition allocateCIDRs ::
  "string \<Rightarrow> string \<Rightarrow> Family \<Rightarrow> int \<Rightarrow> PoolAllocator \<Rightarrow> (poolError list \<times> PoolAllocator) option"
where
  "allocateCIDRs targetNode sourcePool family toAllocate p =
     (if toAllocate \<le> 0 then Some ([], p)
      else
        (case map_of (pa_pools p) sourcePool of
           None \<Rightarrow> Some ([ErrAllocateNoPool sourcePool], p)
         | Some c \<Rightarrow> allocateCIDRs_loop targetNode sourcePool family toAllocate c p))"

definition PoolAllocator_occupyCIDR ::
  "string \<Rightarrow> string \<Rightarrow> Prefix \<Rightarrow> PoolAllocator \<Rightarrow> (poolError list \<times> PoolAllocator) option"
where
  "PoolAllocator_occupyCIDR targetNode sourcePool cidr p =
     (if isAllocated targetNode sourcePool cidr p then Some ([], p)
      else
        (case map_of (pa_pools p) sourcePool of
           None \<Rightarrow> Some ([ErrReuseNoPool sourcePool], p)
         | Some c \<Rightarrow>
             do {
               r \<leftarrow> cidrPool_occupyCIDR cidr c;
               case r of
                 Inl err \<Rightarrow> Some ([err], p)
               | Inr c' \<Rightarrow> map_option (Pair []) (markAllocated targetNode sourcePool cidr (set_pool sourcePool c' p))
             }))"

definition PoolAllocator_releaseCIDR ::
  "string \<Rightarrow> string \<Rightarrow> Prefix \<Rightarrow> PoolAllocator \<Rightarrow> (poolError list \<times> PoolAllocator) option"
where
  "PoolAllocator_releaseCIDR targetNode sourcePool cidr p =
     (if \<not> isAllocated targetNode sourcePool cidr p then Some ([], p)
      else
        (case map_of (pa_pools p) sourcePool of
           None \<Rightarrow> Some ([ErrReleaseNoPool sourcePool], p)
         | Some c \<Rightarrow>
             do {
               r \<leftarrow> cidrPool_releaseCIDR cidr c;
               case r of
                 Inl err \<Rightarrow> Some ([err], p)
               | Inr c' \<Rightarrow> Some ([], markReleased targetNode sourcePool cidr (set_pool sourcePool c' p))
             }))"

definition releaseOrphanCIDR :: "string \<Rightarrow> string \<Rightarrow> Prefix \<Rightarrow> PoolAllocator \<Rightarrow> PoolAllocator" where
  "releaseOrphanCIDR targetNode sourcePool cidr p =
     (if \<not> isOrphan targetNode sourcePool cidr p then p else markReleasedOrphan targetNode sourcePool cidr p)"

section \<open>Allocation to a node\<close>

text \<open>The error of one step is appended to the errors so far.\<close>

definition collect ::
  "(PoolAllocator \<Rightarrow> (poolError list \<times> PoolAllocator) option) \<Rightarrow>
   poolError list \<times> PoolAllocator \<Rightarrow> (poolError list \<times> PoolAllocator) option"
where
  "collect f s = (case s of (errs, p) \<Rightarrow> map_option (\<lambda>(e, p'). (errs @ e, p')) (f p))"

definition retain_step ::
  "(Prefix \<Rightarrow> PoolAllocator \<Rightarrow> (poolError list \<times> PoolAllocator) option) \<Rightarrow> Prefix list \<Rightarrow>
   Prefix \<Rightarrow> poolError list \<times> PoolAllocator \<Rightarrow> (poolError list \<times> PoolAllocator) option"
where
  "retain_step release retain prefix s = (if prefix \<in> set retain then Some s else collect (release prefix) s)"

definition retainCIDRs ::
  "string \<Rightarrow> string \<Rightarrow> Prefix list \<Rightarrow> poolError list \<times> PoolAllocator \<Rightarrow> (poolError list \<times> PoolAllocator) option"
where
  "retainCIDRs targetNode sourcePool retain s = do {
     let step = retain_step (PoolAllocator_releaseCIDR targetNode sourcePool) retain;
     s' \<leftarrow> foldM step (members (cc_v4 (sets_of (pa_nodes (snd s)) targetNode sourcePool))) s;
     foldM step (members (cc_v6 (sets_of (pa_nodes (snd s')) targetNode sourcePool))) s'
   }"

definition retainOrphanCIDRs ::
  "string \<Rightarrow> string \<Rightarrow> Prefix list \<Rightarrow> poolError list \<times> PoolAllocator \<Rightarrow> (poolError list \<times> PoolAllocator) option"
where
  "retainOrphanCIDRs targetNode sourcePool retain s = do {
     let step = retain_step (\<lambda>cidr p. Some ([], releaseOrphanCIDR targetNode sourcePool cidr p)) retain;
     s' \<leftarrow> foldM step (members (cc_v4 (sets_of (pa_orphans (snd s)) targetNode sourcePool))) s;
     foldM step (members (cc_v6 (sets_of (pa_orphans (snd s')) targetNode sourcePool))) s'
   }"

record IPAMPoolAllocation =
  al_Pool :: string
  al_AllowFirstIP :: bool
  al_AllowLastIP :: bool
  al_CIDRs :: "Prefix list"

record IPAMPoolRequest =
  rq_Pool :: string
  rq_IPv4Addrs :: int
  rq_IPv6Addrs :: int

record IPAMPoolSpec =
  sp_Requested :: "IPAMPoolRequest list"
  sp_Allocated :: "IPAMPoolAllocation list"

definition occupy_step ::
  "string \<Rightarrow> IPAMPoolAllocation \<Rightarrow> Prefix \<Rightarrow> poolError list \<times> PoolAllocator \<Rightarrow> (poolError list \<times> PoolAllocator) option"
where
  "occupy_step nodeName allocatedPool prefix s =
     collect (\<lambda>p.
       if \<not> prefix_valid prefix then Some ([ErrInvalidCIDR prefix (al_Pool allocatedPool)], p)
       else if map_of (pa_pools p) (al_Pool allocatedPool) \<noteq> None
       then PoolAllocator_occupyCIDR nodeName (al_Pool allocatedPool) prefix p
       else
         map_option (Pair [ErrOrphaned (al_Pool allocatedPool) prefix])
           (markOrphan nodeName (al_Pool allocatedPool) prefix
             (al_AllowFirstIP allocatedPool) (al_AllowLastIP allocatedPool) p)) s"

text \<open>The set of reported CIDRs of a pool; the last report of a pool counts.\<close>

definition allocatedSet :: "IPAMPoolAllocation list \<Rightarrow> string \<Rightarrow> Prefix list" where
  "allocatedSet allocated poolName =
     (case map_of (rev (map (\<lambda>a. (al_Pool a, filter prefix_valid (al_CIDRs a))) allocated)) poolName of
        None \<Rightarrow> [] | Some cidrs \<Rightarrow> cidrs)"

definition request_step ::
  "string \<Rightarrow> IPAMPoolRequest \<Rightarrow> poolError list \<times> PoolAllocator \<Rightarrow> (poolError list \<times> PoolAllocator) option"
where
  "request_step nodeName reqPool s = do {
     let p = snd s;
     let allocatedCIDRs = sets_of (pa_nodes p) nodeName (rq_Pool reqPool);
     let allowFirstIP = (case map_of (pa_pools p) (rq_Pool reqPool) of None \<Rightarrow> False | Some c \<Rightarrow> cp_allowFirstIP c);
     let allowLastIP = (case map_of (pa_pools p) (rq_Pool reqPool) of None \<Rightarrow> False | Some c \<Rightarrow> cp_allowLastIP c);
     s' \<leftarrow>
       (if pa_ipv4Enabled p then
          collect (allocateCIDRs nodeName (rq_Pool reqPool) FamilyIPv4
            (rq_IPv4Addrs reqPool - availableAddrs (cc_v4 allocatedCIDRs) allowFirstIP allowLastIP)) s
        else Some s);
     (if pa_ipv6Enabled p then
        collect (allocateCIDRs nodeName (rq_Pool reqPool) FamilyIPv6
          (rq_IPv6Addrs reqPool - availableAddrs (cc_v6 allocatedCIDRs) allowFirstIP allowLastIP)) s'
      else Some s')
   }"

definition AllocateToNode ::
  "string \<Rightarrow> IPAMPoolSpec \<Rightarrow> PoolAllocator \<Rightarrow> (poolError list \<times> PoolAllocator) option"
where
  "AllocateToNode nodeName pools p = do {
     s \<leftarrow> foldM (\<lambda>a. foldM (occupy_step nodeName a) (al_CIDRs a)) (sp_Allocated pools) ([], p);
     s \<leftarrow> foldM (\<lambda>poolName. retainCIDRs nodeName poolName (allocatedSet (sp_Allocated pools) poolName))
           (map fst (pools_of (pa_nodes (snd s)) nodeName)) s;
     s \<leftarrow> foldM (\<lambda>poolName. retainOrphanCIDRs nodeName poolName (allocatedSet (sp_Allocated pools) poolName))
           (map fst (pools_of (pa_orphans (snd s)) nodeName)) s;
     if \<not> pa_ready (snd s) then Some ([ErrAllocatorNotReady], snd s)
     else foldM (request_step nodeName) (sp_Requested pools) s
   }"

section \<open>Release of a node\<close>

definition release_step ::
  "string \<Rightarrow> (cidrPool \<Rightarrow> CidrSet list) \<Rightarrow> (CidrSet list \<Rightarrow> cidrPool \<Rightarrow> cidrPool) \<Rightarrow>
   Prefix \<Rightarrow> poolError list \<times> PoolAllocator \<Rightarrow> (poolError list \<times> PoolAllocator) option"
where
  "release_step poolName get upd cidr s =
     collect (\<lambda>p.
       case map_of (pa_pools p) poolName of
         None \<Rightarrow> Some ([], p)
       | Some c \<Rightarrow>
           do {
             r \<leftarrow> releaseCIDR (get c) cidr;
             case r of Inl err \<Rightarrow> Some ([err], p) | Inr sets \<Rightarrow> Some ([], set_pool poolName (upd sets c) p)
           }) s"

definition release_pool ::
  "string \<times> cidrSets \<Rightarrow> poolError list \<times> PoolAllocator \<Rightarrow> (poolError list \<times> PoolAllocator) option"
where
  "release_pool pc s =
     (case pc of (poolName, cidrs) \<Rightarrow>
        if map_of (pa_pools (snd s)) poolName = None then Some (fst s @ [ErrReleaseNoPool poolName], snd s)
        else do {
          s' \<leftarrow> foldM (release_step poolName cp_v4 (\<lambda>sets. cp_v4_update (\<lambda>_. sets))) (members (cc_v4 cidrs)) s;
          foldM (release_step poolName cp_v6 (\<lambda>sets. cp_v6_update (\<lambda>_. sets))) (members (cc_v6 cidrs)) s'
        })"

definition ReleaseNode :: "string \<Rightarrow> PoolAllocator \<Rightarrow> (poolError list \<times> PoolAllocator) option" where
  "ReleaseNode nodeName p = do {
     (errs, p') \<leftarrow> foldM release_pool (pools_of (pa_nodes p) nodeName) ([], p);
     Some (errs, p'\<lparr>pa_nodes := AList.delete nodeName (pa_nodes p')\<rparr>)
   }"

section \<open>The CIDRs of a node\<close>

definition copy_set :: "cidrSet \<Rightarrow> cidrSet \<Rightarrow> cidrSet" where
  "copy_set dst src = Some (fold List.insert (members src) (members dst))"

definition merged_sets :: "string \<Rightarrow> string \<Rightarrow> PoolAllocator \<Rightarrow> cidrSets" where
  "merged_sets targetNode poolName p =
     (let sets = \<lparr>cc_v4 = Some [], cc_v6 = Some [], cc_allowFirstIP = False, cc_allowLastIP = False\<rparr>;
          sets = (case map_of (pools_of (pa_nodes p) targetNode) poolName of
              None \<Rightarrow> sets
            | Some nodeSets \<Rightarrow>
                \<lparr>cc_v4 = copy_set (cc_v4 sets) (cc_v4 nodeSets), cc_v6 = copy_set (cc_v6 sets) (cc_v6 nodeSets),
                 cc_allowFirstIP = cc_allowFirstIP nodeSets, cc_allowLastIP = cc_allowLastIP nodeSets\<rparr>)
      in case map_of (pools_of (pa_orphans p) targetNode) poolName of
           None \<Rightarrow> sets
         | Some orphanSets \<Rightarrow>
             let sets' = (if members (cc_v4 sets) = [] \<and> members (cc_v6 sets) = []
                 then sets\<lparr>cc_allowFirstIP := cc_allowFirstIP orphanSets, cc_allowLastIP := cc_allowLastIP orphanSets\<rparr>
                 else sets)
             in sets'\<lparr>cc_v4 := copy_set (cc_v4 sets) (cc_v4 orphanSets), cc_v6 := copy_set (cc_v6 sets) (cc_v6 orphanSets)\<rparr>)"

definition AllocatedPools :: "string \<Rightarrow> PoolAllocator \<Rightarrow> IPAMPoolAllocation list" where
  "AllocatedPools targetNode p =
     sort_key al_Pool
       (map (\<lambda>poolName.
          let cidrs = merged_sets targetNode poolName p in
          \<lparr>al_Pool = poolName, al_AllowFirstIP = cc_allowFirstIP cidrs, al_AllowLastIP = cc_allowLastIP cidrs,
           al_CIDRs = CIDRSlice (cc_v4 cidrs) @ CIDRSlice (cc_v6 cidrs)\<rparr>)
        (remdups (map fst (pools_of (pa_nodes p) targetNode) @ map fst (pools_of (pa_orphans p) targetNode))))"

section \<open>Orphans that return to a pool\<close>

definition unorphanCIDR ::
  "bool \<Rightarrow> string \<Rightarrow> string \<Rightarrow> Prefix \<Rightarrow> PoolAllocator \<Rightarrow> (poolError list \<times> PoolAllocator) option"
where
  "unorphanCIDR isV6 node poolName cidr p = do {
     (errs, p') \<leftarrow> PoolAllocator_occupyCIDR node poolName cidr p;
     if errs \<noteq> [] then Some (errs, p')
     else Some ([], p'\<lparr>pa_orphans := sets_modify node poolName (family_delete isV6 cidr) (pa_orphans p')\<rparr>)
   }"

definition unorphan_step ::
  "bool \<Rightarrow> CidrSet list \<Rightarrow> string \<Rightarrow> string \<Rightarrow> Prefix \<Rightarrow> poolError list \<times> PoolAllocator \<Rightarrow>
   (poolError list \<times> PoolAllocator) option"
where
  "unorphan_step isV6 allocators node poolName cidr s =
     (if containsCIDR allocators cidr then collect (unorphanCIDR isV6 node poolName cidr) s else Some s)"

text \<open>
  The pool of an orphan is the one of the inner loop; the clean-up is for the pool that was updated.
\<close>

definition reconcile_node ::
  "string \<Rightarrow> CidrSet list \<Rightarrow> CidrSet list \<Rightarrow> string \<times> poolToCIDRs \<Rightarrow> poolError list \<times> PoolAllocator \<Rightarrow>
   (poolError list \<times> PoolAllocator) option"
where
  "reconcile_node poolName v4 v6 nc s =
     (case nc of (node, cidrs) \<Rightarrow> do {
        (errs, p) \<leftarrow>
          foldM (\<lambda>(name, sets) s. do {
              s' \<leftarrow> foldM (unorphan_step False v4 node name) (members (cc_v4 sets)) s;
              foldM (unorphan_step True v6 node name) (members (cc_v6 sets)) s'
            }) cidrs s;
        Some (errs, cleanupOrphans node poolName p)
      })"

definition reconcileOrphanCIDRs ::
  "string \<Rightarrow> CidrSet list \<Rightarrow> CidrSet list \<Rightarrow> PoolAllocator \<Rightarrow> (poolError list \<times> PoolAllocator) option"
where
  "reconcileOrphanCIDRs poolName v4 v6 p = foldM (reconcile_node poolName v4 v6) (pa_orphans p) ([], p)"

section \<open>Updates and deletions of pools\<close>

text \<open>A CIDR of a node that is lost with its range: the node, the pool, the CIDR and the two options.\<close>

type_synonym lostCIDR = "string \<times> string \<times> Prefix \<times> bool \<times> bool"

definition lost_step ::
  "CidrSet \<Rightarrow> string \<Rightarrow> string \<Rightarrow> cidrSets \<Rightarrow> Prefix \<Rightarrow> poolError list \<times> lostCIDR list \<Rightarrow>
   (poolError list \<times> lostCIDR list) option"
where
  "lost_step oldCIDR node poolName sets cidr s =
     (case s of (errs, lost) \<Rightarrow>
        if \<not> InRange oldCIDR cidr then Some s
        else do {
          allocated \<leftarrow> CidrSet_IsAllocated cidr oldCIDR;
          case allocated of
            Inl err \<Rightarrow> Some (errs @ [ErrCidr err], lost)
          | Inr False \<Rightarrow> Some s
          | Inr True \<Rightarrow> Some (errs, lost @ [(node, poolName, cidr, cc_allowFirstIP sets, cc_allowLastIP sets)])
        })"

definition lost_loop ::
  "bool \<Rightarrow> (string \<times> poolToCIDRs) list \<Rightarrow> CidrSet \<Rightarrow> poolError list \<times> lostCIDR list \<Rightarrow>
   (poolError list \<times> lostCIDR list) option"
where
  "lost_loop isV6 nodes oldCIDR =
     foldM (\<lambda>(node, pools).
       foldM (\<lambda>(poolName, sets).
         foldM (lost_step oldCIDR node poolName sets) (members (if isV6 then cc_v6 sets else cc_v4 sets))) pools) nodes"

definition computeNewCIDRSets ::
  "(string \<Rightarrow> Prefix option) \<Rightarrow> (Prefix \<Rightarrow> string) \<Rightarrow> bool \<Rightarrow> CidrSet list \<Rightarrow> Prefix list \<Rightarrow> int \<Rightarrow> PoolAllocator \<Rightarrow>
   (poolError list + CidrSet list \<times> lostCIDR list) option"
where
  "computeNewCIDRSets parse str isV6 prevCIDRSets newCIDRs maskSize p =
     (let alloc = map str (filter (\<lambda>cidr. \<not> hasCIDR prevCIDRSets cidr) newCIDRs) in
      case (if alloc = [] then Inr [] else NewCIDRSets parse isV6 alloc maskSize) of
        Inl err \<Rightarrow> Some (Inl [ErrCidr err])
      | Inr newCIDRSets \<Rightarrow>
          do {
            (errs, lost) \<leftarrow>
              foldM (lost_loop isV6 (pa_nodes p))
                (filter (\<lambda>s. \<not> list_ex (IsClusterCIDR s) newCIDRs) prevCIDRSets) ([], []);
            if errs \<noteq> [] then Some (Inl errs)
            else Some (Inr (filter (\<lambda>s. list_ex (IsClusterCIDR s) newCIDRs) prevCIDRSets @ newCIDRSets, lost))
          })"

definition delete_lost :: "bool \<Rightarrow> lostCIDR \<Rightarrow> PoolAllocator \<Rightarrow> PoolAllocator option" where
  "delete_lost isV6 l p =
     (case l of (node, poolName, cidr, allowFirstIP, allowLastIP) \<Rightarrow>
        do {
          p' \<leftarrow> markOrphan node poolName cidr allowFirstIP allowLastIP p;
          Some (p'\<lparr>pa_nodes := sets_modify node poolName (family_delete isV6 cidr) (pa_nodes p')\<rparr>)
        })"

definition cidrPrefixes :: "poolCIDRConfig list \<Rightarrow> Prefix list" where
  "cidrPrefixes cidrs = map pc_cidr cidrs"

text \<open>The bitmaps of the ranges to reserve, in the order of the allocators.\<close>

fun computeRangesToReserve ::
  "CidrSet list \<Rightarrow> poolCIDRConfig list \<Rightarrow> (poolError + nat list) option"
where
  "computeRangesToReserve [] cidrs = Some (Inr [])"
| "computeRangesToReserve (alloc # allocators) cidrs =
     (let prefix = cs_clusterPrefix alloc;
          reservedRanges =
            (case map_of (rev (map (\<lambda>c. (pc_cidr c, pc_reservedRanges c)) cidrs)) prefix of None \<Rightarrow> [] | Some rs \<Rightarrow> rs)
      in do {
        r \<leftarrow> ComputeRangesToReserve alloc reservedRanges 0;
        case r of
          Inl err \<Rightarrow> Some (Inl (ErrReserve prefix err))
        | Inr bitmap \<Rightarrow> map_option (map_sum id ((#) bitmap)) (computeRangesToReserve allocators cidrs)
      })"

definition validateExistingPool :: "string \<Rightarrow> cidrPool \<Rightarrow> int \<Rightarrow> int \<Rightarrow> poolOptions \<Rightarrow> poolError list" where
  "validateExistingPool poolName c ipv4MaskSize ipv6MaskSize options =
     (if cp_v4MaskSize c \<noteq> ipv4MaskSize then [ErrChangeIPv4Mask poolName]
      else if cp_v6MaskSize c \<noteq> ipv6MaskSize then [ErrChangeIPv6Mask poolName]
      else if cp_allowFirstIP c \<noteq> po_allowFirstIP options then [ErrChangeAllowFirstIP poolName]
      else if cp_allowLastIP c \<noteq> po_allowLastIP options then [ErrChangeAllowLastIP poolName]
      else [])"

definition upsert_pool ::
  "string \<Rightarrow> CidrSet list \<times> lostCIDR list \<Rightarrow> nat list \<Rightarrow> CidrSet list \<times> lostCIDR list \<Rightarrow> nat list \<Rightarrow> int \<Rightarrow> int \<Rightarrow>
   poolOptions \<Rightarrow> PoolAllocator \<Rightarrow> (poolError list \<times> PoolAllocator) option"
where
  "upsert_pool poolName v4l r4 v6l r6 ipv4MaskSize ipv6MaskSize options p = do {
     p1 \<leftarrow> foldM (delete_lost False) (snd v4l) p;
     p2 \<leftarrow> foldM (delete_lost True) (snd v6l) p1;
     let v4 = map2 SetReservedRanges r4 (fst v4l);
     let v6 = map2 SetReservedRanges r6 (fst v6l);
     reconcileOrphanCIDRs poolName v4 v6
       (set_pool poolName
         \<lparr>cp_v4 = v4, cp_v6 = v6, cp_v4MaskSize = ipv4MaskSize, cp_v6MaskSize = ipv6MaskSize,
          cp_allowFirstIP = po_allowFirstIP options, cp_allowLastIP = po_allowLastIP options\<rparr> p2)
   }"

definition PoolAllocator_UpsertPool ::
  "(string \<Rightarrow> Prefix option) \<Rightarrow> (Prefix \<Rightarrow> string) \<Rightarrow> string \<Rightarrow> poolCIDRConfig list \<Rightarrow> int \<Rightarrow> poolCIDRConfig list \<Rightarrow> int \<Rightarrow>
   (poolOptions \<Rightarrow> poolOptions) list \<Rightarrow> PoolAllocator \<Rightarrow> (poolError list \<times> PoolAllocator) option"
where
  "PoolAllocator_UpsertPool parse str poolName ipv4CIDRs ipv4MaskSize ipv6CIDRs ipv6MaskSize opts p =
     (let options = fold (\<lambda>opt. opt) opts \<lparr>po_allowFirstIP = False, po_allowLastIP = False\<rparr>;
          (invalid, v4Prev, v6Prev) =
            (case map_of (pa_pools p) poolName of
               None \<Rightarrow> ([], [], [])
             | Some c \<Rightarrow> (validateExistingPool poolName c ipv4MaskSize ipv6MaskSize options, cp_v4 c, cp_v6 c))
      in if invalid \<noteq> [] then Some (invalid, p)
         else do {
           v4 \<leftarrow> computeNewCIDRSets parse str False v4Prev (cidrPrefixes ipv4CIDRs) ipv4MaskSize p;
           case v4 of Inl errs \<Rightarrow> Some (errs, p) | Inr v4l \<Rightarrow> do {
           v6 \<leftarrow> computeNewCIDRSets parse str True v6Prev (cidrPrefixes ipv6CIDRs) ipv6MaskSize p;
           case v6 of Inl errs \<Rightarrow> Some (errs, p) | Inr v6l \<Rightarrow> do {
           r4 \<leftarrow> computeRangesToReserve (fst v4l) ipv4CIDRs;
           case r4 of Inl err \<Rightarrow> Some ([err], p) | Inr b4 \<Rightarrow> do {
           r6 \<leftarrow> computeRangesToReserve (fst v6l) ipv6CIDRs;
           case r6 of Inl err \<Rightarrow> Some ([err], p) | Inr b6 \<Rightarrow>
             upsert_pool poolName v4l b4 v6l b6 ipv4MaskSize ipv6MaskSize options p }}}})"

definition orphan_sets :: "string \<Rightarrow> string \<Rightarrow> cidrSets \<Rightarrow> PoolAllocator \<Rightarrow> PoolAllocator option" where
  "orphan_sets node poolName sets p = do {
     let mark = (\<lambda>cidr. markOrphan node poolName cidr (cc_allowFirstIP sets) (cc_allowLastIP sets));
     p' \<leftarrow> foldM mark (members (cc_v4 sets)) p;
     foldM mark (members (cc_v6 sets)) p'
   }"

definition PoolAllocator_DeletePool :: "string \<Rightarrow> PoolAllocator \<Rightarrow> (poolError list \<times> PoolAllocator) option" where
  "PoolAllocator_DeletePool poolName p =
     (if map_of (pa_pools p) poolName = None then Some ([ErrDeleteNoPool poolName], p)
      else do {
        p' \<leftarrow> foldM (\<lambda>(node, pools) p.
            case map_of pools poolName of
              None \<Rightarrow> Some p
            | Some sets \<Rightarrow>
                orphan_sets node poolName sets
                  (p\<lparr>pa_nodes := AList.update node (AList.delete poolName (pools_of (pa_nodes p) node)) (pa_nodes p)\<rparr>))
          (pa_nodes p) p;
        Some ([], p'\<lparr>pa_pools := AList.delete poolName (pa_pools p')\<rparr>)
      })"

section \<open>Pool resources\<close>

record ReservedRange =
  rr_Start :: string
  rr_End :: string

record PoolCIDRConfig =
  pk_CIDR :: Prefix
  pk_ReservedRanges :: "ReservedRange list"

text \<open>The specifications of IPv4 and of IPv6 pools have the same fields.\<close>

record IPPoolSpec =
  ps_CIDRs :: "Prefix list"
  ps_MaskSize :: u8
  ps_Pool :: "PoolCIDRConfig list"

text \<open>A parsed address may have a zone, which a range drops; a prefix does not contain an address with a zone.\<close>

definition Addr_Less :: "Addr \<Rightarrow> Addr \<Rightarrow> bool" where
  "Addr_Less a b \<longleftrightarrow> BitLen a < BitLen b \<or> BitLen a = BitLen b \<and> Addr_number a < Addr_number b"

definition IPRange_IsValid :: "Addr \<times> Addr \<Rightarrow> bool" where
  "IPRange_IsValid r \<longleftrightarrow> fst r \<noteq> AddrZero \<and> BitLen (fst r) = BitLen (snd r) \<and> \<not> Addr_Less (snd r) (fst r)"

fun parseReservedRanges ::
  "(string \<Rightarrow> (Addr \<times> string) option) \<Rightarrow> Prefix \<Rightarrow> ReservedRange list \<Rightarrow> poolError + (Addr \<times> Addr) list"
where
  "parseReservedRanges parseAddr poolCIDR [] = Inr []"
| "parseReservedRanges parseAddr poolCIDR (rr # ranges) =
     (case parseAddr (rr_Start rr) of
        None \<Rightarrow> Inl (ErrReservedStart (rr_Start rr) poolCIDR)
      | Some (start, startZone) \<Rightarrow>
          (case parseAddr (rr_End rr) of
             None \<Rightarrow> Inl (ErrReservedEnd (rr_End rr) poolCIDR)
           | Some (end', endZone) \<Rightarrow>
               if \<not> IPRange_IsValid (start, end') then Inl (ErrReservedRange start end' poolCIDR)
               else if \<not> (startZone = [] \<and> Prefix_Contains poolCIDR start) \<or> \<not> (endZone = [] \<and> Prefix_Contains poolCIDR end')
               then Inl (ErrReservedOutside start end' poolCIDR)
               else map_sum id ((#) (start, end')) (parseReservedRanges parseAddr poolCIDR ranges)))"

fun buildPoolCIDRConfigs ::
  "(string \<Rightarrow> (Addr \<times> string) option) \<Rightarrow> Prefix list \<Rightarrow> PoolCIDRConfig list \<Rightarrow> poolError + poolCIDRConfig list"
where
  "buildPoolCIDRConfigs parseAddr [] configs = Inr []"
| "buildPoolCIDRConfigs parseAddr (cidr # cidrs) configs =
     (let prefix = Masked cidr;
          ranges = (case map_of (rev (map (\<lambda>cfg. (pk_CIDR cfg, pk_ReservedRanges cfg)) configs)) cidr of
              None \<Rightarrow> [] | Some rs \<Rightarrow> rs)
      in case parseReservedRanges parseAddr prefix ranges of
           Inl err \<Rightarrow> Inl err
         | Inr reservedRanges \<Rightarrow>
             map_sum id ((#) \<lparr>pc_cidr = prefix, pc_reservedRanges = reservedRanges\<rparr>)
               (buildPoolCIDRConfigs parseAddr cidrs configs))"

definition spec_configs ::
  "(string \<Rightarrow> (Addr \<times> string) option) \<Rightarrow> IPPoolSpec option \<Rightarrow> poolError + poolCIDRConfig list \<times> int"
where
  "spec_configs parseAddr spec =
     (case spec of
        None \<Rightarrow> Inr ([], 0)
      | Some sp \<Rightarrow>
          map_sum id (\<lambda>configs. (configs, uint (ps_MaskSize sp))) (buildPoolCIDRConfigs parseAddr (ps_CIDRs sp) (ps_Pool sp)))"

definition UpsertPool ::
  "(string \<Rightarrow> (Addr \<times> string) option) \<Rightarrow> (string \<Rightarrow> Prefix option) \<Rightarrow> (Prefix \<Rightarrow> string) \<Rightarrow> string \<Rightarrow>
   IPPoolSpec option \<Rightarrow> IPPoolSpec option \<Rightarrow> bool \<Rightarrow> bool \<Rightarrow> PoolAllocator \<Rightarrow> (poolError list \<times> PoolAllocator) option"
where
  "UpsertPool parseAddr parse str name v4Spec v6Spec allowFirstIP allowLastIP p =
     (case spec_configs parseAddr v4Spec of
        Inl err \<Rightarrow> Some ([err], p)
      | Inr (ipv4CIDRs, ipv4MaskSize) \<Rightarrow>
          (case spec_configs parseAddr v6Spec of
             Inl err \<Rightarrow> Some ([err], p)
           | Inr (ipv6CIDRs, ipv6MaskSize) \<Rightarrow>
               PoolAllocator_UpsertPool parse str name ipv4CIDRs ipv4MaskSize ipv6CIDRs ipv6MaskSize
                 ((if allowFirstIP then [WithAllowFirstIP] else []) @ (if allowLastIP then [WithAllowLastIP] else [])) p))"

end
