(* ===== verification/MultiPoolInv.thy ===== *)
theory MultiPoolInv
  imports MultiPool
begin

text \<open>
  The allocators of a pool as one set of blocks: what allocation, occupation and release do to the
  blocks handed out, and that they never panic.
\<close>

section \<open>Aligned CIDRs are blocks\<close>

lemma block_word_surj:
  fixes a :: "'a::len word"
  assumes a: "keep_bits c a = a" and cn: "c \<le> n" "n \<le> LENGTH('a)" and x: "keep_bits n x = x" "keep_bits c x = a"
  obtains i where "i < 2 ^ (n - c)" "x = block_word (LENGTH('a) - n) a i"
proof
  define h where "h = LENGTH('a) - n"
  define w where "w = drop_bit h (a XOR x)"
  have wm: "bit w m \<longleftrightarrow> bit a (h + m) \<noteq> bit x (h + m)" for m by (simp add: w_def bit_drop_bit_eq bit_xor_iff)
  have am: "bit a m \<longleftrightarrow> LENGTH('a) - c \<le> m \<and> bit x m" for m using cn x(2) bit_keep_bits [of c x m] by simp
  have xm: "bit x m \<Longrightarrow> h \<le> m" for m using bit_masked [OF x(1) cn(2)] by (simp add: h_def)
  have "bit w m \<Longrightarrow> m < n - c" for m
    using am [of "h + m"] bit_imp_le_length [of x "h + m"] cn by (auto simp: wm h_def)
  then have "take_bit (n - c) w = w" by (intro bit_word_eqI) (auto simp: bit_take_bit_iff)
  then have "unat w = take_bit (n - c) (unat w)" by (metis unsigned_take_bit_eq)
  then show "unat w < 2 ^ (n - c)" using take_bit_nat_less_exp [of "n - c" "unat w"] by simp
  have hc: "LENGTH('a) - c \<le> m \<Longrightarrow> h \<le> m" for m using cn by (simp add: h_def)
  show "x = block_word (LENGTH('a) - n) a (unat w)"
    unfolding h_def [symmetric]
    by (rule bit_word_eqI) (use am xm hc in \<open>auto simp: block_word_def bit_or_iff bit_push_bit_iff wm\<close>)
qed

text \<open>A CIDR of the node mask size whose host bits are zero.\<close>

definition aligned :: "bool \<Rightarrow> int \<Rightarrow> Prefix \<Rightarrow> bool" where
  "aligned isV6 sz c \<longleftrightarrow> prefix_valid c \<and> Masked c = c \<and> pf_bits c = sz \<and> Is6 (pf_ip c) = isV6"

lemma aligned_is_block:
  assumes ok: "blocks_ok s" and c: "aligned isV6 (cs_nodeMaskSize s) c" and r: "InRange s c"
  obtains i where "int i < cs_maxCIDRs s" "c = block_of s i"
  using ok
proof (cases rule: blocks_ok_cases)
  case (v4 a d n)
  obtain x where ip: "pf_ip c = Addr4 x" using InRange_family [OF r] v4(1) by (cases "pf_ip c") auto
  then have cx: "c = \<lparr>pf_ip = Addr4 x, pf_bits = int n\<rparr>" using c v4(2) by (cases c) (simp add: aligned_def)
  have x: "keep_bits n x = x" using c by (simp add: aligned_def cx Masked_def)
  have "keep_bits d x = a"
    using r v4(1-5) x keep_bits_keep [of d n x] keep_bits_keep [of d n a] by (auto simp: InRange_def Prefix_Contains_def cx)
  from block_word_surj [OF v4(3,4) _ x this] obtain i where "i < 2 ^ (n - d)" "x = block_word (32 - n) a i" using v4(5) by auto
  then show ?thesis using that [of i] v4 by (simp add: block_of_def cx)
next
  case (v6 a d n)
  obtain x where ip: "pf_ip c = Addr6 x" using InRange_family [OF r] v6(1) by (cases "pf_ip c") auto
  then have cx: "c = \<lparr>pf_ip = Addr6 x, pf_bits = int n\<rparr>" using c v6(2) by (cases c) (simp add: aligned_def)
  have x: "keep_bits n x = x" using c by (simp add: aligned_def cx Masked_def)
  have "keep_bits d x = a"
    using r v6(1-5) x keep_bits_keep [of d n x] keep_bits_keep [of d n a] by (auto simp: InRange_def Prefix_Contains_def cx)
  from block_word_surj [OF v6(3,4) _ x this] obtain i where "i < 2 ^ (n - d)" "x = block_word (128 - n) a i" using v6(5) by auto
  then show ?thesis using that [of i] v6 by (simp add: block_of_def cx)
qed

section \<open>One allocator\<close>

lemma allocated_blocks_same: "same_blocks s s' \<Longrightarrow> allocated_blocks s' = block_of s ` items (cs_used s')"
  by (simp add: allocated_blocks_def same_block_of)

lemma occupy_block:
  assumes "cidr_inv s" "int i < cs_maxCIDRs s"
  shows "cidr_inv (occupyIndex i s)" "same_blocks s (occupyIndex i s)"
    "allocated_blocks (occupyIndex i s) = insert (block_of s i) (allocated_blocks s)"
  using occupyIndex_ok [OF assms] by (auto simp: allocated_blocks_same [of s] allocated_blocks_def [of s])

lemma used_index: "cidr_inv s \<Longrightarrow> items (cs_used s) \<subseteq> {i. int i < cs_maxCIDRs s}"
  by (auto simp: cidr_inv_def unavailable_def)

lemma block_allocated_iff:
  assumes "cidr_inv s" "int i < cs_maxCIDRs s"
  shows "block_of s i \<in> allocated_blocks s \<longleftrightarrow> i \<in> items (cs_used s)"
proof -
  have "inj_on (block_of s) {i. int i < cs_maxCIDRs s}" using assms(1) block_of_inj by (simp add: cidr_inv_def)
  from inj_on_image_mem_iff [OF this, of i "items (cs_used s)"] show ?thesis
    using assms used_index by (simp add: allocated_blocks_def)
qed

lemma release_block:
  assumes "cidr_inv s" "int i < cs_maxCIDRs s"
  shows "cidr_inv (releaseIndex i s)" "same_blocks s (releaseIndex i s)"
    "allocated_blocks (releaseIndex i s) = allocated_blocks s - {block_of s i}"
proof -
  note r = releaseIndex_ok [OF assms(1), of i]
  show "cidr_inv (releaseIndex i s)" "same_blocks s (releaseIndex i s)" using r by simp_all
  have "inj_on (block_of s) {i. int i < cs_maxCIDRs s}" using assms(1) block_of_inj by (simp add: cidr_inv_def)
  then have "block_of s ` (items (cs_used s) - {i}) = allocated_blocks s - block_of s ` {i}"
    unfolding allocated_blocks_def using used_index [OF assms(1)] assms(2) by (intro inj_on_image_set_diff) auto
  then show "allocated_blocks (releaseIndex i s) = allocated_blocks s - {block_of s i}"
    using r by (simp add: allocated_blocks_same [of s])
qed

definition set_ok :: "bool \<Rightarrow> int \<Rightarrow> CidrSet \<Rightarrow> bool" where
  "set_ok isV6 sz s \<longleftrightarrow> cidr_inv s \<and> cs_nodeMaskSize s = sz \<and> Is6 (pf_ip (cs_clusterPrefix s)) = isV6"

lemma set_ok_same: "set_ok isV6 sz s \<Longrightarrow> cidr_inv s' \<Longrightarrow> same_blocks s s' \<Longrightarrow> set_ok isV6 sz s' \<and> cs_clusterPrefix s' = cs_clusterPrefix s"
  by (simp add: set_ok_def same_blocks_def)

lemma block_aligned:
  assumes "set_ok isV6 sz s" "int i < cs_maxCIDRs s"
  shows "aligned isV6 sz (block_of s i)" "Prefix_Contains (cs_clusterPrefix s) (pf_ip (block_of s i))"
proof -
  have ok: "blocks_ok s" using assms(1) by (simp add: set_ok_def cidr_inv_def)
  show c: "Prefix_Contains (cs_clusterPrefix s) (pf_ip (block_of s i))" by (rule block_of_contained [OF ok assms(2)])
  then have "Is6 (pf_ip (block_of s i)) = Is6 (pf_ip (cs_clusterPrefix s))"
    by (cases "pf_ip (block_of s i)"; cases "pf_ip (cs_clusterPrefix s)") (simp_all add: Prefix_Contains_def)
  then show "aligned isV6 sz (block_of s i)"
    using block_of_valid [OF ok, of i] block_of_masked [OF ok assms(2)] assms(1) by (simp add: aligned_def set_ok_def)
qed

lemma allocated_aligned:
  assumes "set_ok isV6 sz s" "c \<in> allocated_blocks s"
  shows "aligned isV6 sz c" "Prefix_Contains (cs_clusterPrefix s) (pf_ip c)" "InRange s c"
proof -
  obtain i where "c = block_of s i" "int i < cs_maxCIDRs s"
    using assms used_index [of s] by (auto simp: allocated_blocks_def set_ok_def)
  with block_aligned [OF assms(1)] show "aligned isV6 sz c" "Prefix_Contains (cs_clusterPrefix s) (pf_ip c)" "InRange s c"
    by (auto simp: InRange_def)
qed

lemma in_range_contains:
  assumes "set_ok isV6 sz s" "aligned isV6 sz c" "InRange s c"
  obtains i where "int i < cs_maxCIDRs s" "c = block_of s i" "Prefix_Contains (cs_clusterPrefix s) (pf_ip c)"
proof -
  obtain i where "int i < cs_maxCIDRs s" "c = block_of s i"
    using aligned_is_block [of s isV6 c] assms by (auto simp: set_ok_def cidr_inv_def)
  with that block_aligned(2) [OF assms(1)] show ?thesis by simp
qed

section \<open>The allocators of a pool\<close>

definition apart :: "Prefix \<Rightarrow> Prefix \<Rightarrow> bool" where
  "apart p q \<longleftrightarrow> (\<forall>x. \<not> (Prefix_Contains p x \<and> Prefix_Contains q x))"

definition sets_ok :: "bool \<Rightarrow> int \<Rightarrow> CidrSet list \<Rightarrow> bool" where
  "sets_ok isV6 sz sets \<longleftrightarrow> list_all (set_ok isV6 sz) sets \<and> sorted_wrt apart (map cs_clusterPrefix sets)"

definition handed_out :: "CidrSet list \<Rightarrow> Prefix set" where
  "handed_out sets = (\<Union>s \<in> set sets. allocated_blocks s)"

lemma sets_ok_Cons:
  "sets_ok isV6 sz (s # sets) \<longleftrightarrow>
   set_ok isV6 sz s \<and> sets_ok isV6 sz sets \<and> (\<forall>t \<in> set sets. apart (cs_clusterPrefix s) (cs_clusterPrefix t))"
  by (auto simp: sets_ok_def)

lemma handed_out_Cons: "handed_out (s # sets) = allocated_blocks s \<union> handed_out sets"
  by (simp add: handed_out_def)

lemma handed_out_aligned: "sets_ok isV6 sz sets \<Longrightarrow> c \<in> handed_out sets \<Longrightarrow> aligned isV6 sz c"
  using allocated_aligned(1) by (fastforce simp: sets_ok_def list_all_iff handed_out_def)

text \<open>A block of one allocator belongs to no other.\<close>

lemma not_handed_out:
  assumes "sets_ok isV6 sz (s # sets)" "Prefix_Contains (cs_clusterPrefix s) (pf_ip c)"
  shows "c \<notin> handed_out sets"
  using assms allocated_aligned(2) by (fastforce simp: sets_ok_def list_all_iff handed_out_def apart_def)

text \<open>The allocators after an operation: the same ranges, and the given blocks handed out.\<close>

definition sets_step :: "bool \<Rightarrow> int \<Rightarrow> CidrSet list \<Rightarrow> Prefix set \<Rightarrow> CidrSet list \<Rightarrow> bool" where
  "sets_step isV6 sz sets H sets' \<longleftrightarrow>
     sets_ok isV6 sz sets' \<and> map cs_clusterPrefix sets' = map cs_clusterPrefix sets \<and> handed_out sets' = H"

lemma sets_step_head:
  assumes "sets_ok isV6 sz (s # sets)" "cidr_inv s'" "same_blocks s s'"
  shows "sets_step isV6 sz (s # sets) (allocated_blocks s' \<union> handed_out sets) (s' # sets)"
  using assms set_ok_same [of isV6 sz s s'] by (simp add: sets_step_def sets_ok_Cons handed_out_Cons)

lemma sets_step_tail:
  assumes "sets_ok isV6 sz (s # sets)" "sets_step isV6 sz sets H sets'"
  shows "sets_step isV6 sz (s # sets) (allocated_blocks s \<union> H) (s # sets')"
proof -
  have "set (map cs_clusterPrefix sets') = set (map cs_clusterPrefix sets)" using assms(2) by (simp only: sets_step_def)
  then have "(\<forall>t \<in> set sets'. apart q (cs_clusterPrefix t)) \<longleftrightarrow> (\<forall>t \<in> set sets. apart q (cs_clusterPrefix t))" for q
    by (metis (mono_tags, lifting) image_iff set_map)
  then show ?thesis using assms by (simp add: sets_step_def sets_ok_Cons handed_out_Cons)
qed

lemma allocFirstFree_ok:
  assumes "sets_ok isV6 sz sets" "allocFirstFreeCIDR sets = Inr (c, sets')"
  shows "aligned isV6 sz c \<and> c \<notin> handed_out sets \<and> sets_step isV6 sz sets (insert c (handed_out sets)) sets'"
  using assms
proof (induction sets arbitrary: sets')
  case (Cons s sets)
  note ok = Cons.prems(1)
  have sk: "set_ok isV6 sz s" "sets_ok isV6 sz sets" "cidr_inv s" using ok by (simp_all add: sets_ok_Cons set_ok_def)
  show ?case
  proof (cases "IsFull s")
    case True
    then obtain sets1 where a: "allocFirstFreeCIDR sets = Inr (c, sets1)" "sets' = s # sets1"
      using Cons.prems(2) by (auto split: sum.splits prod.splits)
    note IH = Cons.IH [OF sk(2) a(1)]
    have fresh: "c \<notin> allocated_blocks s"
    proof
      assume "c \<in> allocated_blocks s"
      from allocated_aligned(2) [OF sk(1) this] obtain t where t: "t \<in> set sets1" "c \<in> allocated_blocks t"
        and p: "Prefix_Contains (cs_clusterPrefix s) (pf_ip c)"
        using IH by (auto simp: sets_step_def handed_out_def)
      have "sets_ok isV6 sz (s # sets1)" using sets_step_tail [OF ok] IH by (auto simp: sets_step_def)
      from not_handed_out [OF this p] t show False by (auto simp: handed_out_def)
    qed
    then show ?thesis using IH sets_step_tail [OF ok, of "insert c (handed_out sets)" sets1] a(2) by (auto simp: handed_out_Cons)
  next
    case False
    then obtain s' where a: "CidrSet_AllocateNext s = Inr (c, s')" "sets' = s' # sets"
      using Cons.prems(2) by (auto split: sum.splits)
    obtain i where i: "c = block_of s i" "int i < cs_maxCIDRs s" "i \<notin> unavailable s" "cidr_inv s'" "same_blocks s s'"
      "items (cs_used s') = insert i (items (cs_used s))"
      using AllocateNext_ok [OF sk(3)] False a(1) by auto
    have al: "allocated_blocks s' = insert c (allocated_blocks s)"
      using i(1,6) by (simp add: allocated_blocks_def same_block_of [OF i(5)])
    have "c \<notin> allocated_blocks s" using block_allocated_iff [OF sk(3) i(2)] i(1,3) by (simp add: unavailable_def)
    moreover have "c \<notin> handed_out sets" using not_handed_out [OF ok] block_aligned(2) [OF sk(1) i(2)] i(1) by simp
    ultimately show ?thesis
      using sets_step_head [OF ok i(4,5)] block_aligned(1) [OF sk(1) i(2)] a(2) al i(1) by (simp add: handed_out_Cons)
  qed
qed simp

text \<open>Occupation and release of an aligned CIDR do not panic.\<close>

lemma occupyCIDR_ok:
  assumes "sets_ok isV6 sz sets" "aligned isV6 sz c"
  shows "\<exists>r. occupyCIDR sets c = Some r \<and>
    (\<forall>sets'. r = Inr sets' \<longrightarrow> c \<notin> handed_out sets \<and> sets_step isV6 sz sets (insert c (handed_out sets)) sets')"
  using assms(1)
proof (induction sets)
  case (Cons s sets)
  note ok = Cons.prems
  have sk: "set_ok isV6 sz s" "sets_ok isV6 sz sets" "cidr_inv s" "blocks_ok s"
    using ok by (simp_all add: sets_ok_Cons set_ok_def cidr_inv_def)
  show ?case
  proof (cases "InRange s c")
    case False
    then have "c \<notin> allocated_blocks s" using allocated_aligned(3) [OF sk(1)] by blast
    with Cons.IH [OF sk(2)] False show ?thesis
      using sets_step_tail [OF ok, of "insert c (handed_out sets)"] by (fastforce simp: handed_out_Cons map_sum_def split: sum.splits)
  next
    case True
    obtain i where i: "int i < cs_maxCIDRs s" "c = block_of s i" "Prefix_Contains (cs_clusterPrefix s) (pf_ip c)"
      by (rule in_range_contains [OF sk(1) assms(2) True])
    note b = block_operations [OF sk(4) i(1)] and o = occupy_block [OF sk(3) i(1)]
    have "i \<notin> items (cs_used s) \<longrightarrow> c \<notin> handed_out (s # sets)"
      using block_allocated_iff [OF sk(3) i(1)] not_handed_out [OF ok i(3)] i(2) by (simp add: handed_out_Cons)
    then show ?thesis
      using True sets_step_head [OF ok o(1,2)] by (auto simp: i(2) b o(3) handed_out_Cons split: bool.split)
  qed
qed simp

lemma releaseCIDR_ok:
  assumes "sets_ok isV6 sz sets" "aligned isV6 sz c"
  shows "\<exists>r. releaseCIDR sets c = Some r \<and>
    (\<forall>sets'. r = Inr sets' \<longrightarrow> sets_step isV6 sz sets (handed_out sets - {c}) sets')"
  using assms(1)
proof (induction sets)
  case (Cons s sets)
  note ok = Cons.prems
  have sk: "set_ok isV6 sz s" "sets_ok isV6 sz sets" "cidr_inv s" "blocks_ok s"
    using ok by (simp_all add: sets_ok_Cons set_ok_def cidr_inv_def)
  show ?case
  proof (cases "InRange s c")
    case False
    then have "allocated_blocks s - {c} = allocated_blocks s" using allocated_aligned(3) [OF sk(1)] by blast
    with Cons.IH [OF sk(2)] False show ?thesis
      using sets_step_tail [OF ok, of "handed_out sets - {c}"] by (fastforce simp: handed_out_Cons Un_Diff map_sum_def split: sum.splits)
  next
    case True
    obtain i where i: "int i < cs_maxCIDRs s" "c = block_of s i" "Prefix_Contains (cs_clusterPrefix s) (pf_ip c)"
      by (rule in_range_contains [OF sk(1) assms(2) True])
    note b = block_operations [OF sk(4) i(1)] and r = release_block [OF sk(3) i(1)]
    have rest: "handed_out sets - {c} = handed_out sets" using not_handed_out [OF ok i(3)] by simp
    have "i \<notin> items (cs_used s) \<longrightarrow> allocated_blocks s - {c} = allocated_blocks s"
      using block_allocated_iff [OF sk(3) i(1)] i(2) by simp
    then show ?thesis
      using True sets_step_head [OF ok r(1,2)] sets_step_head [OF ok sk(3) same_blocks_refl] rest
      by (auto simp: i(2) b r(3) handed_out_Cons Un_Diff split: bool.split)
  qed
qed simp

section \<open>Maps of maps\<close>

definition family_set :: "bool \<Rightarrow> cidrSets \<Rightarrow> cidrSet" where
  "family_set isV6 sets = (if isV6 then cc_v6 sets else cc_v4 sets)"

definition entries :: "bool \<Rightarrow> (string \<times> poolToCIDRs) list \<Rightarrow> string \<Rightarrow> string \<Rightarrow> Prefix set" where
  "entries isV6 m a n = set (members (family_set isV6 (sets_of m a n)))"

text \<open>Keys are unique; the sets of nodes are never nil.\<close>

definition keys_ok :: "(string \<times> poolToCIDRs) list \<Rightarrow> bool" where
  "keys_ok m \<longleftrightarrow> distinct (map fst m) \<and> (\<forall>(a, pools) \<in> set m. distinct (map fst pools))"

definition non_nil :: "(string \<times> poolToCIDRs) list \<Rightarrow> bool" where
  "non_nil m \<longleftrightarrow> (\<forall>a n sets. map_of (pools_of m a) n = Some sets \<longrightarrow> (\<forall>v. family_set v sets \<noteq> None))"

lemma pools_of_update [simp]: "pools_of (AList.update a pools m) b = (if b = a then pools else pools_of m b)"
  by (simp add: pools_of_def update_conv')

lemma pools_of_delete [simp]: "pools_of (AList.delete a m) b = (if b = a then [] else pools_of m b)"
  by (simp add: pools_of_def delete_conv')

lemma lookup_update [simp]:
  "map_of (pools_of (sets_update a n sets m) b) k = (if b = a \<and> k = n then Some sets else map_of (pools_of m b) k)"
  by (simp add: sets_update_def update_conv')

lemma sets_of_update [simp]:
  "sets_of (sets_update a n sets m) b k = (if b = a \<and> k = n then sets else sets_of m b k)"
  by (auto simp: sets_of_def)

lemma entries_update:
  "entries v (sets_update a n sets m) b k = (if b = a \<and> k = n then set (members (family_set v sets)) else entries v m b k)"
  by (simp add: entries_def)

lemma members_zero [simp]: "members (family_set v zeroSets) = []"
  by (simp add: zeroSets_def family_set_def members_def)

lemma entries_delete_pool:
  "entries v (AList.update a (AList.delete n (pools_of m a)) m) b k = (if b = a \<and> k = n then {} else entries v m b k)"
  by (auto simp: entries_def sets_of_def delete_conv')

lemma entries_delete_node: "entries v (AList.delete a m) b k = (if b = a then {} else entries v m b k)"
  by (simp add: entries_def sets_of_def)

lemma members_delete [simp]: "set (members (set_delete c S)) = set (members S) - {c}"
  by (cases S) (simp_all add: members_def set_delete_def)

lemma entries_modify:
  "entries v (sets_modify a n (family_delete w c) m) b k = entries v m b k - (if b = a \<and> k = n \<and> v = w then {c} else {})"
  by (auto simp: sets_modify_def entries_def sets_of_def family_delete_def family_set_def zeroSets_def members_def [of None] split: option.splits if_splits)

lemma keys_ok_update:
  assumes "keys_ok m" "distinct (map fst pools)"
  shows "keys_ok (AList.update a pools m)"
proof -
  have "set (AList.update a pools m) \<subseteq> insert (a, pools) (set m)" by (induction m) auto
  then show ?thesis using assms distinct_update [of m a pools] by (fastforce simp: keys_ok_def)
qed

lemma keys_ok_pools: "keys_ok m \<Longrightarrow> distinct (map fst (pools_of m a))"
  by (auto simp: keys_ok_def pools_of_def split: option.splits dest!: map_of_SomeD)

lemma keys_ok_ops [intro]:
  assumes "keys_ok m"
  shows "keys_ok (sets_update a n sets m)" "keys_ok (AList.update a (AList.delete n (pools_of m a)) m)"
    "keys_ok (AList.delete a m)" "keys_ok (sets_modify a n f m)"
proof -
  note d = keys_ok_pools [OF assms, of a]
  show u: "keys_ok (sets_update a n sets m)" for sets
    unfolding sets_update_def using keys_ok_update [OF assms] distinct_update [OF d] by blast
  show "keys_ok (AList.update a (AList.delete n (pools_of m a)) m)" using keys_ok_update [OF assms] distinct_delete [OF d] by blast
  have "set (AList.delete a m) \<subseteq> set m" by (auto simp: AList.delete_eq)
  then show "keys_ok (AList.delete a m)" using assms distinct_delete [of m a] by (auto simp: keys_ok_def)
  show "keys_ok (sets_modify a n f m)" using assms u by (simp add: sets_modify_def split: option.split)
qed

lemma non_nil_ops [intro]:
  assumes "non_nil m"
  shows "(\<And>v. family_set v sets \<noteq> None) \<Longrightarrow> non_nil (sets_update a n sets m)"
    "non_nil (AList.update a (AList.delete n (pools_of m a)) m)" "non_nil (AList.delete a m)"
    "non_nil (sets_modify a n (family_delete w c) m)"
  using assms
  by (auto simp: non_nil_def delete_conv' sets_modify_def split: option.splits if_splits)
    (fastforce simp: family_delete_def family_set_def set_delete_def split: if_splits)+

text \<open>An entry of the list is found by a lookup.\<close>

lemma entries_in:
  assumes "keys_ok m" "(a, pools) \<in> set m" "(n, sets) \<in> set pools"
  shows "sets_of m a n = sets"
proof -
  have "pools_of m a = pools" using assms(1,2) by (simp add: pools_of_def keys_ok_def)
  moreover have "distinct (map fst pools)" using assms(1,2) by (auto simp: keys_ok_def)
  ultimately show ?thesis using assms(3) by (simp add: sets_of_def)
qed

lemma entries_found:
  assumes "c \<in> entries v m a n"
  obtains pools sets where "(a, pools) \<in> set m" "(n, sets) \<in> set pools" "c \<in> set (members (family_set v sets))"
    "map_of pools n = Some sets" "map_of m a = Some pools"
  using assms by (auto simp: entries_def sets_of_def pools_of_def split: option.splits dest: map_of_SomeD)

end
