(* ===== verification/MultiPoolSafe.thy ===== *)
theory MultiPoolSafe
  imports MultiPoolInv
begin

text \<open>
  The invariant of the multi-pool allocator: the CIDRs of a node are handed out by their pool, and no
  two nodes hold the same CIDR of a pool.  Every operation keeps it, if pools keep their mask sizes and
  the CIDRs that nodes report have the mask size of their pool.
\<close>

section \<open>The invariant\<close>

definition pool_sets :: "bool \<Rightarrow> cidrPool \<Rightarrow> CidrSet list" where
  "pool_sets isV6 c = (if isV6 then cp_v6 c else cp_v4 c)"

definition put_sets :: "bool \<Rightarrow> CidrSet list \<Rightarrow> cidrPool \<Rightarrow> cidrPool" where
  "put_sets isV6 sets c = (if isV6 then c\<lparr>cp_v6 := sets\<rparr> else c\<lparr>cp_v4 := sets\<rparr>)"

lemma pool_put [simp]: "pool_sets v (put_sets w sets c) = (if v = w then sets else pool_sets v c)"
  by (simp add: pool_sets_def put_sets_def)

definition handed :: "PoolAllocator \<Rightarrow> bool \<Rightarrow> string \<Rightarrow> Prefix set" where
  "handed p v n = (case map_of (pa_pools p) n of None \<Rightarrow> {} | Some c \<Rightarrow> handed_out (pool_sets v c))"

text \<open>The mask sizes of the pools, for each family.\<close>

type_synonym masks = "bool \<Rightarrow> string \<Rightarrow> int"

definition pools_ok :: "masks \<Rightarrow> PoolAllocator \<Rightarrow> bool" where
  "pools_ok msk p \<longleftrightarrow> (\<forall>n c. map_of (pa_pools p) n = Some c \<longrightarrow> (\<forall>v. sets_ok v (msk v n) (pool_sets v c)))"

definition nodes_ok :: "PoolAllocator \<Rightarrow> bool" where
  "nodes_ok p \<longleftrightarrow>
     keys_ok (pa_nodes p) \<and> non_nil (pa_nodes p) \<and> (\<forall>v a n. entries v (pa_nodes p) a n \<subseteq> handed p v n) \<and>
     (\<forall>v a b n. a \<noteq> b \<longrightarrow> entries v (pa_nodes p) a n \<inter> entries v (pa_nodes p) b n = {})"

definition orphans_ok :: "masks \<Rightarrow> PoolAllocator \<Rightarrow> bool" where
  "orphans_ok msk p \<longleftrightarrow> keys_ok (pa_orphans p) \<and> (\<forall>v a n. \<forall>c \<in> entries v (pa_orphans p) a n. aligned v (msk v n) c)"

definition pa_inv :: "masks \<Rightarrow> PoolAllocator \<Rightarrow> bool" where
  "pa_inv msk p \<longleftrightarrow> pools_ok msk p \<and> nodes_ok p \<and> orphans_ok msk p"

lemma handed_aligned: "pools_ok msk p \<Longrightarrow> c \<in> handed p v n \<Longrightarrow> aligned v (msk v n) c"
  using handed_out_aligned by (fastforce simp: pools_ok_def handed_def split: option.splits)

lemma held_aligned: "pa_inv msk p \<Longrightarrow> c \<in> entries v (pa_nodes p) a n \<Longrightarrow> aligned v (msk v n) c"
  using handed_aligned by (fastforce simp: pa_inv_def nodes_ok_def)

lemma inv_parts:
  assumes "pa_inv msk p"
  shows "pools_ok msk p" "keys_ok (pa_nodes p)" "non_nil (pa_nodes p)" "orphans_ok msk p"
    "entries v (pa_nodes p) a n \<subseteq> handed p v n" "a \<noteq> b \<Longrightarrow> entries v (pa_nodes p) a n \<inter> entries v (pa_nodes p) b n = {}"
    "map_of (pa_pools p) n = Some c \<Longrightarrow> sets_ok v (msk v n) (pool_sets v c)"
    "map_of (pa_pools p) n = Some c \<Longrightarrow> entries v (pa_nodes p) a n \<subseteq> handed_out (pool_sets v c)"
proof -
  show sub: "entries v (pa_nodes p) a n \<subseteq> handed p v n" using assms unfolding pa_inv_def nodes_ok_def by blast
  show "a \<noteq> b \<Longrightarrow> entries v (pa_nodes p) a n \<inter> entries v (pa_nodes p) b n = {}" using assms unfolding pa_inv_def nodes_ok_def by blast
  show "map_of (pa_pools p) n = Some c \<Longrightarrow> entries v (pa_nodes p) a n \<subseteq> handed_out (pool_sets v c)" using sub by (simp add: handed_def)
  show "pools_ok msk p" "keys_ok (pa_nodes p)" "non_nil (pa_nodes p)" "orphans_ok msk p"
    "map_of (pa_pools p) n = Some c \<Longrightarrow> sets_ok v (msk v n) (pool_sets v c)"
    using assms by (simp_all add: pa_inv_def nodes_ok_def pools_ok_def)
qed

lemma handed_set_pool: "handed (set_pool n c p) v k = (if k = n then handed_out (pool_sets v c) else handed p v k)"
  by (simp add: handed_def set_pool_def update_conv')

lemma set_pool_frame [simp]:
  "pa_nodes (set_pool n c p) = pa_nodes p" "pa_orphans (set_pool n c p) = pa_orphans p" "pa_ready (set_pool n c p) = pa_ready p"
  "map_of (pa_pools (set_pool n c p)) k = (if k = n then Some c else map_of (pa_pools p) k)"
  by (simp_all add: set_pool_def update_conv')

lemma pools_ok_set_pool: "pools_ok msk p \<Longrightarrow> \<forall>v. sets_ok v (msk v n) (pool_sets v c) \<Longrightarrow> pools_ok msk (set_pool n c p)"
  by (simp add: pools_ok_def)

lemma handed_cong: "pa_pools p' = pa_pools p \<Longrightarrow> handed p' = handed p"
  by (simp add: handed_def fun_eq_iff)

section \<open>Marks\<close>

lemma members_insert [simp]: "set (members (Some (List.insert c cidrs))) = insert c (set cidrs)"
  by (simp add: members_def)

lemma sets_insert_eq:
  assumes "aligned v sz c" "sets_insert c sets = Some sets'"
  obtains cidrs where "family_set v sets = Some cidrs"
    "sets' = (if v then sets\<lparr>cc_v6 := Some (List.insert c cidrs)\<rparr> else sets\<lparr>cc_v4 := Some (List.insert c cidrs)\<rparr>)"
  using assms by (cases "pf_ip c") (auto simp: sets_insert_def aligned_def prefix_valid_def family_set_def)

lemma sets_insert_ok:
  assumes c: "aligned v sz c" and i: "sets_insert c sets = Some sets'"
  shows "set (members (family_set w sets')) = (if w = v then insert c (set (members (family_set w sets))) else set (members (family_set w sets)))"
    "family_set w sets \<noteq> None \<Longrightarrow> family_set w sets' \<noteq> None"
proof -
  obtain cidrs where "family_set v sets = Some cidrs"
    "sets' = (if v then sets\<lparr>cc_v6 := Some (List.insert c cidrs)\<rparr> else sets\<lparr>cc_v4 := Some (List.insert c cidrs)\<rparr>)"
    by (rule sets_insert_eq [OF assms])
  then show "set (members (family_set w sets')) = (if w = v then insert c (set (members (family_set w sets))) else set (members (family_set w sets)))"
    "family_set w sets \<noteq> None \<Longrightarrow> family_set w sets' \<noteq> None"
    by (cases v; cases w; simp add: family_set_def members_def)+
qed

lemma sets_insert_returns:
  assumes "aligned v sz c" "family_set v sets \<noteq> None"
  obtains sets' where "sets_insert c sets = Some sets'"
  using assms by (cases "pf_ip c") (auto simp: sets_insert_def aligned_def prefix_valid_def family_set_def)

lemma sets_delete_family: "aligned v sz c \<Longrightarrow> sets_delete c sets = family_delete v c sets"
  by (cases "pf_ip c") (auto simp: sets_delete_def family_delete_def aligned_def prefix_valid_def)

lemma sets_member_family: "aligned v sz c \<Longrightarrow> sets_member c (sets_of m a n) \<longleftrightarrow> c \<in> entries v m a n"
  by (cases "pf_ip c") (auto simp: sets_member_def entries_def family_set_def aligned_def prefix_valid_def)

lemma markAllocated_ok:
  assumes nn: "non_nil (pa_nodes p)" and c: "aligned v sz c"
  obtains m where "markAllocated a n c p = Some (p\<lparr>pa_nodes := m\<rparr>)" "non_nil m" "keys_ok (pa_nodes p) \<longrightarrow> keys_ok m"
    "\<And>w b k. entries w m b k = (if w = v \<and> b = a \<and> k = n then insert c (entries w (pa_nodes p) b k) else entries w (pa_nodes p) b k)"
proof -
  define sets where "sets = (case map_of (pools_of (pa_nodes p) a) n of
      Some cidrs \<Rightarrow> cidrs
    | None \<Rightarrow>
        \<lparr>cc_v4 = Some [], cc_v6 = Some [],
         cc_allowFirstIP = (case map_of (pa_pools p) n of None \<Rightarrow> False | Some c \<Rightarrow> cp_allowFirstIP c),
         cc_allowLastIP = (case map_of (pa_pools p) n of None \<Rightarrow> False | Some c \<Rightarrow> cp_allowLastIP c)\<rparr>)"
  have sn: "family_set u sets \<noteq> None" for u
    using nn by (cases "map_of (pools_of (pa_nodes p) a) n") (simp add: sets_def family_set_def, simp add: sets_def non_nil_def)
  have sm: "set (members (family_set u sets)) = entries u (pa_nodes p) a n" for u
    by (auto simp: sets_def entries_def sets_of_def zeroSets_def family_set_def members_def split: option.splits)
  obtain sets' where s': "sets_insert c sets = Some sets'" by (rule sets_insert_returns [OF c sn])
  let ?m = "sets_update a n sets' (pa_nodes p)"
  have "markAllocated a n c p = Some (p\<lparr>pa_nodes := ?m\<rparr>)" using s' by (simp add: markAllocated_def sets_def)
  moreover have "non_nil ?m" by (rule non_nil_ops(1) [OF nn sets_insert_ok(2) [OF c s' sn]])
  moreover have "keys_ok (pa_nodes p) \<longrightarrow> keys_ok ?m" by blast
  moreover have "entries w ?m b k = (if w = v \<and> b = a \<and> k = n then insert c (entries w (pa_nodes p) b k) else entries w (pa_nodes p) b k)" for w b k
    using sets_insert_ok(1) [OF c s'] sm by (auto simp: entries_update)
  ultimately show ?thesis using that by blast
qed

lemma markOrphan_ok:
  assumes c: "aligned v sz c" and m: "markOrphan a n c af al p = Some p'"
  obtains m where "p' = p\<lparr>pa_orphans := m\<rparr>" "keys_ok (pa_orphans p) \<longrightarrow> keys_ok m"
    "\<And>w b k. entries w m b k = (if w = v \<and> b = a \<and> k = n then insert c (entries w (pa_orphans p) b k) else entries w (pa_orphans p) b k)"
proof -
  define sets where "sets = (case map_of (pools_of (pa_orphans p) a) n of
      Some cidrs \<Rightarrow> cidrs
    | None \<Rightarrow> \<lparr>cc_v4 = Some [], cc_v6 = Some [], cc_allowFirstIP = af, cc_allowLastIP = al\<rparr>)"
  have sm: "set (members (family_set u sets)) = entries u (pa_orphans p) a n" for u
    by (auto simp: sets_def entries_def sets_of_def zeroSets_def family_set_def members_def split: option.splits)
  obtain sets' where s': "sets_insert c sets = Some sets'" "p' = p\<lparr>pa_orphans := sets_update a n sets' (pa_orphans p)\<rparr>"
    using m by (auto simp: markOrphan_def sets_def)
  have "entries w (sets_update a n sets' (pa_orphans p)) b k =
      (if w = v \<and> b = a \<and> k = n then insert c (entries w (pa_orphans p) b k) else entries w (pa_orphans p) b k)" for w b k
    using sets_insert_ok(1) [OF c s'(1)] sm by (auto simp: entries_update)
  with s'(2) that show ?thesis by blast
qed

lemma markReleased_ok:
  assumes c: "aligned v sz c"
  obtains m where "markReleased a n c p = p\<lparr>pa_nodes := m\<rparr>" "non_nil (pa_nodes p) \<longrightarrow> non_nil m" "keys_ok (pa_nodes p) \<longrightarrow> keys_ok m"
    "\<And>w b k. entries w m b k = entries w (pa_nodes p) b k - (if w = v \<and> b = a \<and> k = n then {c} else {})"
proof (cases "map_of (pools_of (pa_nodes p) a) n")
  case None
  then have "markReleased a n c p = p\<lparr>pa_nodes := pa_nodes p\<rparr>"
    by (auto simp: markReleased_def pools_of_def split: option.splits)
  moreover have "entries w (pa_nodes p) a n = {}" for w using None by (simp add: entries_def sets_of_def)
  ultimately show ?thesis using that [of "pa_nodes p"] by simp
next
  case (Some sets)
  let ?md = "sets_modify a n (family_delete v c) (pa_nodes p)"
  obtain pools where pools: "map_of (pa_nodes p) a = Some pools" "map_of pools n = Some sets" "pools_of (pa_nodes p) a = pools"
    using Some by (auto simp: pools_of_def split: option.splits)
  have m0: "?md = sets_update a n (family_delete v c sets) (pa_nodes p)" using Some by (simp add: sets_modify_def)
  show ?thesis
  proof (cases "members (cc_v4 (family_delete v c sets)) = [] \<and> members (cc_v6 (family_delete v c sets)) = []")
    case True
    let ?m = "AList.update a (AList.delete n pools) (pa_nodes p)"
    have r: "markReleased a n c p = p\<lparr>pa_nodes := ?m\<rparr>"
      using True pools by (simp add: markReleased_def sets_delete_family [OF c] Let_def)
    have e0: "entries w ?m b k = entries w ?md b k" for w b k
      using True pools(3) entries_delete_pool [of w a n "pa_nodes p" b k] by (simp add: m0 entries_update family_set_def)
    have e: "entries w ?m b k = entries w (pa_nodes p) b k - (if w = v \<and> b = a \<and> k = n then {c} else {})" for w b k
      
      by (simp add: e0 entries_modify)
    have "non_nil (pa_nodes p) \<longrightarrow> non_nil ?m" "keys_ok (pa_nodes p) \<longrightarrow> keys_ok ?m" 
      unfolding pools(3) [symmetric] by (intro impI, erule non_nil_ops(2), intro impI, erule keys_ok_ops(2))
    from that [OF r this e] show ?thesis .
  next
    case False
    then have r: "markReleased a n c p = p\<lparr>pa_nodes := ?md\<rparr>"
      using pools m0 by (auto simp: markReleased_def sets_delete_family [OF c] Let_def)
    have e: "entries w ?md b k = entries w (pa_nodes p) b k - (if w = v \<and> b = a \<and> k = n then {c} else {})" for w b k
      by (auto simp: entries_modify)
    have "non_nil (pa_nodes p) \<longrightarrow> non_nil ?md" "keys_ok (pa_nodes p) \<longrightarrow> keys_ok ?md"
      by (intro impI, erule non_nil_ops(4), intro impI, erule keys_ok_ops(4))
    from that [OF r this e] show ?thesis .
  qed
qed

lemma cleanupOrphans_ok:
  obtains m where "cleanupOrphans a n p = p\<lparr>pa_orphans := m\<rparr>" "keys_ok (pa_orphans p) \<longrightarrow> keys_ok m"
    "\<And>w b k. entries w m b k = entries w (pa_orphans p) b k"
proof -
  let ?o = "pa_orphans p" and ?s = "sets_of (pa_orphans p) a n"
  let ?d = "AList.delete n (pools_of ?o a)"
  have e: "entries w ?o a n = set (members (family_set w ?s))" for w by (simp add: entries_def)
  have s: "entries w (sets_update a n sets ?o) b k = entries w ?o b k"
    if "\<And>u. members (family_set u sets) = members (family_set u ?s)" for sets w b k
    using that by (simp add: entries_update e)
  consider (empty) "members (cc_v4 ?s) = []" "members (cc_v6 ?s) = []"
    | (v4) "members (cc_v4 ?s) = []" "members (cc_v6 ?s) \<noteq> []" | (v6) "members (cc_v4 ?s) \<noteq> []" "members (cc_v6 ?s) = []"
    | (both) "members (cc_v4 ?s) \<noteq> []" "members (cc_v6 ?s) \<noteq> []" by blast
  then show ?thesis
  proof cases
    case empty
    let ?m = "if ?d = [] then AList.delete a ?o else AList.update a ?d ?o"
    have c: "cleanupOrphans a n p = p\<lparr>pa_orphans := ?m\<rparr>" using empty by (simp add: cleanupOrphans_def Let_def)
    have "entries w ?m b k = entries w (AList.update a ?d ?o) b k" for w b k by (simp add: entries_def sets_of_def)
    moreover have "entries w ?o a n = {}" for w using empty by (simp add: e family_set_def)
    ultimately have "entries w ?m b k = entries w ?o b k" for w b k by (simp add: entries_delete_pool)
    moreover have "keys_ok ?o \<longrightarrow> keys_ok ?m" using keys_ok_ops(2,3) [of ?o] by simp
    ultimately show ?thesis using that [of ?m, OF c] by blast
  next
    case v4
    let ?m = "sets_update a n (?s\<lparr>cc_v4 := None\<rparr>) ?o"
    have c: "cleanupOrphans a n p = p\<lparr>pa_orphans := ?m\<rparr>" using v4 by (simp add: cleanupOrphans_def Let_def)
    have "entries w ?m b k = entries w ?o b k" for w b k by (rule s) (use v4 in \<open>simp add: family_set_def members_def [of None]\<close>)
    then show ?thesis using that [of ?m, OF c] keys_ok_ops(1) [of ?o] by blast
  next
    case v6
    let ?m = "sets_update a n (?s\<lparr>cc_v6 := None\<rparr>) ?o"
    have c: "cleanupOrphans a n p = p\<lparr>pa_orphans := ?m\<rparr>" using v6 by (simp add: cleanupOrphans_def Let_def)
    have "entries w ?m b k = entries w ?o b k" for w b k by (rule s) (use v6 in \<open>simp add: family_set_def members_def [of None]\<close>)
    then show ?thesis using that [of ?m, OF c] keys_ok_ops(1) [of ?o] by blast
  next
    case both
    then have "cleanupOrphans a n p = p\<lparr>pa_orphans := ?o\<rparr>" by (simp add: cleanupOrphans_def Let_def)
    then show ?thesis using that [of ?o] by blast
  qed
qed

text \<open>The orphans may change to any aligned ones.\<close>

lemma pa_inv_orphans:
  assumes "pa_inv msk p" "keys_ok m" "\<And>w b k c. c \<in> entries w m b k \<Longrightarrow> aligned w (msk w k) c"
  shows "pa_inv msk (p\<lparr>pa_orphans := m\<rparr>)"
  using assms by (simp add: pa_inv_def pools_ok_def nodes_ok_def orphans_ok_def handed_def)

lemma orphan_aligned: "pa_inv msk p \<Longrightarrow> c \<in> entries w (pa_orphans p) b k \<Longrightarrow> aligned w (msk w k) c"
  by (simp add: pa_inv_def orphans_ok_def)

lemma orphans_keys: "pa_inv msk p \<Longrightarrow> keys_ok (pa_orphans p)"
  by (simp add: pa_inv_def orphans_ok_def)

text \<open>A step that changes the orphans only.\<close>

definition orphan_step :: "masks \<Rightarrow> PoolAllocator \<Rightarrow> PoolAllocator \<Rightarrow> bool" where
  "orphan_step msk p p' \<longleftrightarrow> pa_inv msk p' \<and> pa_pools p' = pa_pools p \<and> pa_nodes p' = pa_nodes p"

lemma markOrphan_inv:
  assumes inv: "pa_inv msk p" and c: "aligned v (msk v n) c" and m: "markOrphan a n c af al p = Some p'"
  shows "orphan_step msk p p'"
proof -
  obtain m where m: "p' = p\<lparr>pa_orphans := m\<rparr>" "keys_ok (pa_orphans p) \<longrightarrow> keys_ok m"
    "\<And>w b k. entries w m b k = (if w = v \<and> b = a \<and> k = n then insert c (entries w (pa_orphans p) b k) else entries w (pa_orphans p) b k)"
    using markOrphan_ok [OF c m] by blast
  have "pa_inv msk p'" unfolding m(1)
    by (rule pa_inv_orphans [OF inv]) (use m(2,3) c orphan_aligned [OF inv] orphans_keys [OF inv] in \<open>auto split: if_splits\<close>)
  then show ?thesis by (simp add: orphan_step_def m(1))
qed

lemma cleanupOrphans_inv: "pa_inv msk p \<Longrightarrow> orphan_step msk p (cleanupOrphans a n p)"
proof -
  assume inv: "pa_inv msk p"
  obtain m where m: "cleanupOrphans a n p = p\<lparr>pa_orphans := m\<rparr>" "keys_ok (pa_orphans p) \<longrightarrow> keys_ok m"
    "\<And>w b k. entries w m b k = entries w (pa_orphans p) b k" using cleanupOrphans_ok by blast
  have "pa_inv msk (p\<lparr>pa_orphans := m\<rparr>)"
    by (rule pa_inv_orphans [OF inv]) (use m(2,3) orphan_aligned [OF inv] orphans_keys [OF inv] in auto)
  then show ?thesis by (simp add: orphan_step_def m(1))
qed

lemma orphan_modify_inv:
  assumes inv: "pa_inv msk p"
  shows "orphan_step msk p (p\<lparr>pa_orphans := sets_modify a n (family_delete v c) (pa_orphans p)\<rparr>)"
proof -
  have "pa_inv msk (p\<lparr>pa_orphans := sets_modify a n (family_delete v c) (pa_orphans p)\<rparr>)"
    by (rule pa_inv_orphans [OF inv keys_ok_ops(4) [OF orphans_keys [OF inv]]])
      (use orphan_aligned [OF inv] in \<open>auto simp: entries_modify\<close>)
  then show ?thesis by (simp add: orphan_step_def)
qed

lemma orphan_step_trans: "orphan_step msk p p' \<Longrightarrow> orphan_step msk p' p'' \<Longrightarrow> orphan_step msk p p''"
  by (simp add: orphan_step_def)

lemma releaseOrphanCIDR_inv:
  assumes inv: "pa_inv msk p" and c: "aligned v (msk v n) c"
  shows "orphan_step msk p (releaseOrphanCIDR a n c p)"
proof (cases "map_of (pools_of (pa_orphans p) a) n")
  case None
  then have "releaseOrphanCIDR a n c p = p"
    by (auto simp: releaseOrphanCIDR_def markReleasedOrphan_def pools_of_def split: option.splits)
  then show ?thesis using inv by (simp add: orphan_step_def)
next
  case (Some sets)
  let ?p1 = "p\<lparr>pa_orphans := sets_modify a n (family_delete v c) (pa_orphans p)\<rparr>"
  note s1 = orphan_modify_inv [OF inv, of a n v c]
  have "markReleasedOrphan a n c p = cleanupOrphans a n ?p1"
    using Some by (auto simp: markReleasedOrphan_def sets_modify_def sets_delete_family [OF c] pools_of_def split: option.splits)
  moreover have "orphan_step msk p (cleanupOrphans a n ?p1)"
    using orphan_step_trans [OF s1 cleanupOrphans_inv] s1 by (simp add: orphan_step_def)
  ultimately show ?thesis using inv by (simp add: releaseOrphanCIDR_def orphan_step_def)
qed

section \<open>Grants and returns\<close>

definition keeps :: "masks \<Rightarrow> PoolAllocator \<Rightarrow> PoolAllocator \<Rightarrow> bool" where
  "keeps msk p p' \<longleftrightarrow> pa_inv msk p' \<and> dom (map_of (pa_pools p')) = dom (map_of (pa_pools p))"

lemma keeps_refl: "pa_inv msk p \<Longrightarrow> keeps msk p p"
  by (simp add: keeps_def)

lemma keeps_trans: "keeps msk p p' \<Longrightarrow> keeps msk p' p'' \<Longrightarrow> keeps msk p p''"
  by (simp add: keeps_def)

lemma orphan_keeps: "orphan_step msk p p' \<Longrightarrow> keeps msk p p'"
  by (simp add: orphan_step_def keeps_def)

text \<open>A pool is replaced; a node gives up CIDRs; a node gets a CIDR that its pool has handed out.\<close>

lemma replace_pool:
  assumes inv: "pa_inv msk p" and ok: "\<And>v. sets_ok v (msk v n) (pool_sets v c')"
    and sub: "\<And>v b. entries v (pa_nodes p) b n \<subseteq> handed_out (pool_sets v c')"
  shows "pa_inv msk (set_pool n c' p)"
proof -
  have "entries v (pa_nodes p) b k \<subseteq> handed (set_pool n c' p) v k" for v b k
    using sub [of v b] inv_parts(5) [OF inv, of v b k] by (cases "k = n") (simp_all add: handed_set_pool)
  then have "nodes_ok (set_pool n c' p)" using inv_parts(2,3,6) [OF inv] by (simp add: nodes_ok_def)
  moreover have "pools_ok msk (set_pool n c' p)" using pools_ok_set_pool inv_parts(1) [OF inv] ok by blast
  ultimately show ?thesis using inv_parts(4) [OF inv] by (simp add: pa_inv_def orphans_ok_def)
qed

lemma forget:
  assumes "pa_inv msk p" "keys_ok m" "non_nil m" "\<And>w b k. entries w m b k \<subseteq> entries w (pa_nodes p) b k"
  shows "pa_inv msk (p\<lparr>pa_nodes := m\<rparr>)"
proof -
  let ?p = "p\<lparr>pa_nodes := m\<rparr>"
  have h: "handed ?p = handed p" by (rule handed_cong) simp
  have "entries w m b k \<subseteq> handed p w k" for w b k
    using assms(4) [of w b k] inv_parts(5) [OF assms(1), of w b k] by blast
  moreover have "entries w m b k \<inter> entries w m b' k = {}" if "b \<noteq> b'" for w b b' k
    using inv_parts(6) [OF assms(1) that, of w k] assms(4) [of w b k] assms(4) [of w b' k] by blast
  ultimately have "nodes_ok ?p" using assms(2,3) by (simp add: nodes_ok_def h)
  then show ?thesis using inv_parts(1,4) [OF assms(1)] by (simp add: pa_inv_def pools_ok_def orphans_ok_def)
qed

lemma hold:
  assumes inv: "pa_inv msk p" and d: "d \<in> handed p v n" "\<And>b. d \<notin> entries v (pa_nodes p) b n"
  obtains m where "markAllocated a n d p = Some (p\<lparr>pa_nodes := m\<rparr>)" "pa_inv msk (p\<lparr>pa_nodes := m\<rparr>)"
proof -
  have al: "aligned v (msk v n) d" by (rule handed_aligned [OF inv_parts(1) [OF inv] d(1)])
  note nk = inv_parts(2,3) [OF inv]
  obtain m where m: "markAllocated a n d p = Some (p\<lparr>pa_nodes := m\<rparr>)" "non_nil m" "keys_ok (pa_nodes p) \<longrightarrow> keys_ok m"
    "\<And>w b k. entries w m b k = (if w = v \<and> b = a \<and> k = n then insert d (entries w (pa_nodes p) b k) else entries w (pa_nodes p) b k)"
    using markAllocated_ok [OF nk(2) al] by blast
  let ?p' = "p\<lparr>pa_nodes := m\<rparr>"
  have h: "handed ?p' = handed p" by (rule handed_cong) simp
  have "entries w m b k \<subseteq> handed p w k" for w b k using inv_parts(5) [OF inv, of w b k] d(1) by (auto simp: m(4))
  moreover have "entries w m b k \<inter> entries w m b' k = {}" if "b \<noteq> b'" for w b b' k
    using inv_parts(6) [OF inv that, of w k] d(2) [of b] d(2) [of b'] that by (auto simp: m(4))
  ultimately have "nodes_ok ?p'" using m(2,3) nk by (simp add: nodes_ok_def h)
  then have "pa_inv msk ?p'" using inv_parts(1,4) [OF inv] by (simp add: pa_inv_def pools_ok_def orphans_ok_def)
  with that m(1) show ?thesis by blast
qed

lemma replace_sets:
  assumes inv: "pa_inv msk p" and c: "map_of (pa_pools p) n = Some c"
    and st: "sets_step v (msk v n) (pool_sets v c) H sets'" and sub: "\<And>b. entries v (pa_nodes p) b n \<subseteq> H"
  shows "keeps msk p (set_pool n (put_sets v sets' c) p)" "handed (set_pool n (put_sets v sets' c) p) v n = H"
proof -
  have "pa_inv msk (set_pool n (put_sets v sets' c) p)"
  proof (rule replace_pool [OF inv])
    show "sets_ok w (msk w n) (pool_sets w (put_sets v sets' c))" for w
      using inv_parts(7) [OF inv c] st by (simp add: sets_step_def)
    show "entries w (pa_nodes p) b n \<subseteq> handed_out (pool_sets w (put_sets v sets' c))" for w b
      using inv_parts(8) [OF inv c, of w b] sub st by (cases "w = v") (simp_all add: sets_step_def)
  qed
  then show "keeps msk p (set_pool n (put_sets v sets' c) p)" using c by (auto simp: keeps_def dom_def)
  show "handed (set_pool n (put_sets v sets' c) p) v n = H" using st by (simp add: handed_set_pool sets_step_def)
qed

lemma grant:
  assumes inv: "pa_inv msk p" and c: "map_of (pa_pools p) n = Some c"
    and st: "sets_step v (msk v n) (pool_sets v c) (insert d (handed_out (pool_sets v c))) sets'"
    and fresh: "d \<notin> handed_out (pool_sets v c)"
  obtains p' where "markAllocated a n d (set_pool n (put_sets v sets' c) p) = Some p'" "keeps msk p p'"
    "map_of (pa_pools p') n = Some (put_sets v sets' c)" "pa_orphans p' = pa_orphans p"
proof -
  let ?p1 = "set_pool n (put_sets v sets' c) p"
  note sub = inv_parts(8) [OF inv c, of v]
  have r: "keeps msk p ?p1" "handed ?p1 v n = insert d (handed_out (pool_sets v c))"
    using replace_sets [OF inv c st] sub by blast+
  have "pa_inv msk ?p1" "d \<in> handed ?p1 v n" "d \<notin> entries v (pa_nodes ?p1) b n" for b
    using r sub [of b] fresh by (auto simp: keeps_def)
  then obtain m where m: "markAllocated a n d ?p1 = Some (?p1\<lparr>pa_nodes := m\<rparr>)" "pa_inv msk (?p1\<lparr>pa_nodes := m\<rparr>)"
    using hold [of msk ?p1 d v n] by blast
  have "keeps msk p (?p1\<lparr>pa_nodes := m\<rparr>)" using m(2) r(1) by (simp add: keeps_def)
  with that m(1) show ?thesis by force
qed

lemma give_back:
  assumes inv: "pa_inv msk p" and c: "map_of (pa_pools p) n = Some c" and d: "aligned v (msk v n) d"
    and st: "sets_step v (msk v n) (pool_sets v c) (handed_out (pool_sets v c) - {d}) sets'"
    and held: "d \<in> entries v (pa_nodes p) a n"
  shows "keeps msk p (markReleased a n d (set_pool n (put_sets v sets' c) p))"
proof -
  let ?p1 = "set_pool n (put_sets v sets' c) p" and ?N = "pa_nodes p"
  obtain m where m: "markReleased a n d ?p1 = ?p1\<lparr>pa_nodes := m\<rparr>" "non_nil (pa_nodes ?p1) \<longrightarrow> non_nil m" "keys_ok (pa_nodes ?p1) \<longrightarrow> keys_ok m"
    "\<And>w b k. entries w m b k = entries w (pa_nodes ?p1) b k - (if w = v \<and> b = a \<and> k = n then {d} else {})"
    using markReleased_ok [OF d] by blast
  let ?p2 = "p\<lparr>pa_nodes := m\<rparr>"
  have p2: "pa_inv msk ?p2" using m(2-4) inv_parts(2,3) [OF inv] by (intro forget [OF inv]) simp_all
  have "entries v m b n \<subseteq> handed_out (pool_sets v c) - {d}" for b
    using inv_parts(8) [OF inv c, of v b] inv_parts(6) [OF inv, of b a v n] held by (cases "b = a") (auto simp: m(4))
  then have "keeps msk ?p2 (set_pool n (put_sets v sets' c) ?p2)" using replace_sets(1) [OF p2, of n c v] c st by simp
  moreover have "set_pool n (put_sets v sets' c) ?p2 = ?p1\<lparr>pa_nodes := m\<rparr>" by (simp add: set_pool_def)
  ultimately show ?thesis using m(1) by (simp add: keeps_def)
qed

definition family_of :: "bool \<Rightarrow> Family" where
  "family_of isV6 = (if isV6 then FamilyIPv6 else FamilyIPv4)"

lemma pool_operations:
  "cidrPool_allocCIDR (family_of v) c = map_sum id (map_prod id (\<lambda>s. put_sets v s c)) (allocFirstFreeCIDR (pool_sets v c))"
  "aligned v sz d \<Longrightarrow> cidrPool_occupyCIDR d c = map_option (map_sum id (\<lambda>s. put_sets v s c)) (occupyCIDR (pool_sets v c) d)"
  "aligned v sz d \<Longrightarrow> cidrPool_releaseCIDR d c = map_option (map_sum id (\<lambda>s. put_sets v s c)) (releaseCIDR (pool_sets v c) d)"
proof -
  show "cidrPool_allocCIDR (family_of v) c = map_sum id (map_prod id (\<lambda>s. put_sets v s c)) (allocFirstFreeCIDR (pool_sets v c))"
    by (simp add: cidrPool_allocCIDR_def family_of_def FamilyIPv4_def FamilyIPv6_def put_sets_def pool_sets_def)
  show "cidrPool_occupyCIDR d c = map_option (map_sum id (\<lambda>s. put_sets v s c)) (occupyCIDR (pool_sets v c) d)"
    "cidrPool_releaseCIDR d c = map_option (map_sum id (\<lambda>s. put_sets v s c)) (releaseCIDR (pool_sets v c) d)" if "aligned v sz d"
    using that by (cases "pf_ip d"; auto simp: cidrPool_occupyCIDR_def cidrPool_releaseCIDR_def aligned_def prefix_valid_def put_sets_def pool_sets_def)+
qed

lemma addrs_positive: "aligned v sz d \<Longrightarrow> addrsInPrefix d af al > 0"
proof -
  assume "aligned v sz d"
  then have "prefix_valid d" by (simp add: aligned_def)
  then show ?thesis by (auto simp: addrsInPrefix_def Let_def)
qed

lemma allocateCIDRs_loop_ok:
  assumes "pa_inv msk p" "map_of (pa_pools p) n = Some c"
  shows "\<exists>errs p'. allocateCIDRs_loop a n (family_of v) k c p = Some (errs, p') \<and> keeps msk p p' \<and> pa_orphans p' = pa_orphans p"
  using assms
proof (induction "nat k" arbitrary: k c p rule: less_induct)
  case less
  show ?case
  proof (cases "k > 0 \<and> (\<exists>d sets. allocFirstFreeCIDR (pool_sets v c) = Inr (d, sets))")
    case False
    then show ?thesis using keeps_refl [OF less.prems(1)]
      by (cases "allocFirstFreeCIDR (pool_sets v c)") (auto simp: allocateCIDRs_loop.simps [of a n "family_of v" k c p] pool_operations(1))
  next
    case True
    then obtain d sets' where al: "allocFirstFreeCIDR (pool_sets v c) = Inr (d, sets')" and k: "k > 0" by blast
    have "sets_ok v (msk v n) (pool_sets v c)" using less.prems by (simp add: pa_inv_def pools_ok_def)
    note d = allocFirstFree_ok [OF this al]
    obtain p1 where p1: "markAllocated a n d (set_pool n (put_sets v sets' c) p) = Some p1" "keeps msk p p1"
      "map_of (pa_pools p1) n = Some (put_sets v sets' c)" "pa_orphans p1 = pa_orphans p"
      using grant [OF less.prems, of v d sets'] d by blast
    let ?k = "k - addrsInPrefix d (cp_allowFirstIP c) (cp_allowLastIP c)"
    have "nat ?k < nat k" using addrs_positive [OF conjunct1 [OF d]] k by simp
    from less.hyps [OF this _ p1(3)] p1(2) obtain errs p2 where
      "allocateCIDRs_loop a n (family_of v) ?k (put_sets v sets' c) p1 = Some (errs, p2)" "keeps msk p1 p2" "pa_orphans p2 = pa_orphans p1"
      by (auto simp: keeps_def)
    then show ?thesis using k al p1 keeps_trans [OF p1(2)]
      by (simp add: allocateCIDRs_loop.simps [of a n "family_of v" k c p] pool_operations(1))
  qed
qed

section \<open>Operations of the allocator\<close>

text \<open>An operation that returns and keeps the invariant.\<close>

definition safe_op :: "masks \<Rightarrow> (PoolAllocator \<Rightarrow> (poolError list \<times> PoolAllocator) option) \<Rightarrow> PoolAllocator \<Rightarrow> bool" where
  "safe_op msk f p \<longleftrightarrow> (\<exists>errs p'. f p = Some (errs, p') \<and> keeps msk p p')"

lemma safe_collect:
  "safe_op msk f p \<Longrightarrow> \<exists>errs' p'. collect f (errs, p) = Some (errs', p') \<and> keeps msk p p'"
  by (auto simp: safe_op_def collect_def)

lemma allocateCIDRs_safe: "pa_inv msk p \<Longrightarrow> safe_op msk (allocateCIDRs a n (family_of v) k) p"
  using allocateCIDRs_loop_ok [of msk p n _ a v k] keeps_refl [of msk p]
  by (auto simp: safe_op_def allocateCIDRs_def split: option.split)

lemma occupyCIDR_safe:
  assumes inv: "pa_inv msk p" and d: "aligned v (msk v n) d"
  shows "safe_op msk (PoolAllocator_occupyCIDR a n d) p"
proof (cases "isAllocated a n d p \<or> map_of (pa_pools p) n = None")
  case True
  then show ?thesis using keeps_refl [OF inv] by (auto simp: safe_op_def PoolAllocator_occupyCIDR_def)
next
  case False
  then obtain c where c: "map_of (pa_pools p) n = Some c" by blast
  have ok: "sets_ok v (msk v n) (pool_sets v c)" using inv c by (simp add: pa_inv_def pools_ok_def)
  obtain r where r: "occupyCIDR (pool_sets v c) d = Some r" and o: "\<And>sets'. r = Inr sets' \<Longrightarrow>
      d \<notin> handed_out (pool_sets v c) \<and> sets_step v (msk v n) (pool_sets v c) (insert d (handed_out (pool_sets v c))) sets'"
    using occupyCIDR_ok [OF ok d] by blast
  show ?thesis
  proof (cases r)
    case (Inl e)
    then show ?thesis using False c r keeps_refl [OF inv] by (auto simp: safe_op_def PoolAllocator_occupyCIDR_def pool_operations(2) [OF d])
  next
    case (Inr sets')
    obtain p' where "markAllocated a n d (set_pool n (put_sets v sets' c) p) = Some p'" "keeps msk p p'"
      using grant [OF inv c, of v d sets'] o [OF Inr] by blast
    then show ?thesis using False c r Inr by (simp add: safe_op_def PoolAllocator_occupyCIDR_def pool_operations(2) [OF d])
  qed
qed

lemma releaseCIDR_safe:
  assumes inv: "pa_inv msk p" and d: "aligned v (msk v n) d"
  shows "safe_op msk (PoolAllocator_releaseCIDR a n d) p"
proof (cases "\<not> isAllocated a n d p \<or> map_of (pa_pools p) n = None")
  case True
  then show ?thesis using keeps_refl [OF inv] by (auto simp: safe_op_def PoolAllocator_releaseCIDR_def)
next
  case False
  then obtain c where c: "map_of (pa_pools p) n = Some c" by blast
  have held: "d \<in> entries v (pa_nodes p) a n" using False sets_member_family [OF d] by (simp add: isAllocated_def)
  have ok: "sets_ok v (msk v n) (pool_sets v c)" using inv c by (simp add: pa_inv_def pools_ok_def)
  obtain r where r: "releaseCIDR (pool_sets v c) d = Some r" and o: "\<And>sets'. r = Inr sets' \<Longrightarrow>
      sets_step v (msk v n) (pool_sets v c) (handed_out (pool_sets v c) - {d}) sets'"
    using releaseCIDR_ok [OF ok d] by blast
  show ?thesis
    using False c r keeps_refl [OF inv] give_back [OF inv c d o held]
    by (cases r) (auto simp: safe_op_def PoolAllocator_releaseCIDR_def pool_operations(3) [OF d])
qed

text \<open>Loops of operations: every step returns and keeps the invariant.\<close>

lemma foldM_keeps:
  assumes inv: "pa_inv msk (snd s)"
    and step: "\<And>x t. x \<in> set xs \<Longrightarrow> keeps msk (snd s) (snd t) \<Longrightarrow> \<exists>t'. f x t = Some t' \<and> keeps msk (snd t) (snd t')"
  shows "\<exists>s'. foldM f xs s = Some s' \<and> keeps msk (snd s) (snd s')"
  by (rule foldM_returns [of "\<lambda>t. keeps msk (snd s) (snd t)"]) (use keeps_refl [OF inv] step keeps_trans in blast)+

lemma foldM_safe:
  assumes "pa_inv msk (snd s)"
    and "\<And>x s. x \<in> set xs \<Longrightarrow> pa_inv msk (snd s) \<Longrightarrow> \<exists>s'. f x s = Some s' \<and> keeps msk (snd s) (snd s')"
  shows "\<exists>s'. foldM f xs s = Some s' \<and> keeps msk (snd s) (snd s')"
proof (rule foldM_keeps [OF assms(1)])
  show "\<exists>t'. f x t = Some t' \<and> keeps msk (snd t) (snd t')" if "x \<in> set xs" "keeps msk (snd s) (snd t)" for x t
    using that(2) by (intro assms(2) [OF that(1)]) (simp add: keeps_def)
qed

lemma collect_safe:
  "(\<And>p. pa_inv msk p \<Longrightarrow> safe_op msk f p) \<Longrightarrow> pa_inv msk (snd s) \<Longrightarrow> \<exists>s'. collect f s = Some s' \<and> keeps msk (snd s) (snd s')"
  using safe_collect [of msk f "snd s" "fst s"] by auto

lemma retain_safe:
  assumes "\<And>x p. x \<in> set xs \<Longrightarrow> pa_inv msk p \<Longrightarrow> safe_op msk (f x) p" "pa_inv msk (snd s)"
  shows "\<exists>s'. foldM (retain_step f retain) xs s = Some s' \<and> keeps msk (snd s) (snd s')"
  using assms(2)
proof (rule foldM_safe)
  show "\<exists>s'. retain_step f retain x s = Some s' \<and> keeps msk (snd s) (snd s')"
    if "x \<in> set xs" "pa_inv msk (snd s)" for x s
    using collect_safe [OF assms(1) [OF that(1)] that(2)] keeps_refl [OF that(2)] by (cases "x \<in> set retain") (auto simp: retain_step_def)
qed

lemma members_entries: "set (members (cc_v4 (sets_of m a n))) = entries False m a n" "set (members (cc_v6 (sets_of m a n))) = entries True m a n"
  by (simp_all add: entries_def family_set_def)

lemma retainCIDRs_safe:
  assumes "pa_inv msk (snd s)"
  shows "\<exists>s'. retainCIDRs a n retain s = Some s' \<and> keeps msk (snd s) (snd s')"
proof -
  let ?f = "retain_step (PoolAllocator_releaseCIDR a n) retain"
  have step: "\<exists>s'. foldM ?f xs s = Some s' \<and> keeps msk (snd s) (snd s')"
    if inv: "pa_inv msk (snd s)" and xs: "set xs = entries v (pa_nodes (snd s)) a n" for xs v and s :: "poolError list \<times> PoolAllocator"
  proof (rule retain_safe [OF _ inv])
    show "safe_op msk (PoolAllocator_releaseCIDR a n x) p" if "x \<in> set xs" "pa_inv msk p" for x p
      by (rule releaseCIDR_safe [OF that(2) held_aligned [OF inv]]) (use that(1) xs in blast)
  qed
  obtain s1 where s1: "foldM ?f (members (cc_v4 (sets_of (pa_nodes (snd s)) a n))) s = Some s1" "keeps msk (snd s) (snd s1)"
    using step [OF assms members_entries(1)] by blast
  then have "pa_inv msk (snd s1)" by (simp add: keeps_def)
  from step [OF this members_entries(2)] obtain s2 where
    s2: "foldM ?f (members (cc_v6 (sets_of (pa_nodes (snd s1)) a n))) s1 = Some s2" "keeps msk (snd s1) (snd s2)" by blast
  have "retainCIDRs a n retain s = Some s2" using s1(1) s2(1) by (simp add: retainCIDRs_def)
  with keeps_trans [OF s1(2) s2(2)] show ?thesis by blast
qed

lemma retainOrphanCIDRs_safe:
  assumes "pa_inv msk (snd s)"
  shows "\<exists>s'. retainOrphanCIDRs a n retain s = Some s' \<and> keeps msk (snd s) (snd s')"
proof -
  let ?f = "retain_step (\<lambda>cidr p. Some ([], releaseOrphanCIDR a n cidr p)) retain"
  have step: "\<exists>s'. foldM ?f xs s = Some s' \<and> keeps msk (snd s) (snd s')"
    if inv: "pa_inv msk (snd s)" and xs: "set xs = entries v (pa_orphans (snd s)) a n" for xs v and s :: "poolError list \<times> PoolAllocator"
  proof (rule retain_safe [OF _ inv])
    show "safe_op msk (\<lambda>p. Some ([], releaseOrphanCIDR a n x p)) p" if x: "x \<in> set xs" "pa_inv msk p" for x p
      using orphan_keeps [OF releaseOrphanCIDR_inv [OF x(2) orphan_aligned [OF inv]]] x(1) xs by (simp add: safe_op_def)
  qed
  obtain s1 where s1: "foldM ?f (members (cc_v4 (sets_of (pa_orphans (snd s)) a n))) s = Some s1" "keeps msk (snd s) (snd s1)"
    using step [OF assms members_entries(1)] by blast
  then have "pa_inv msk (snd s1)" by (simp add: keeps_def)
  from step [OF this members_entries(2)] obtain s2 where
    s2: "foldM ?f (members (cc_v6 (sets_of (pa_orphans (snd s1)) a n))) s1 = Some s2" "keeps msk (snd s1) (snd s2)" by blast
  have "retainOrphanCIDRs a n retain s = Some s2" using s1(1) s2(1) by (simp add: retainOrphanCIDRs_def)
  with keeps_trans [OF s1(2) s2(2)] show ?thesis by blast
qed

section \<open>Allocation to a node\<close>

definition spec_ok :: "masks \<Rightarrow> IPAMPoolSpec \<Rightarrow> bool" where
  "spec_ok msk pools \<longleftrightarrow>
     list_all (\<lambda>ap. list_all (\<lambda>c. prefix_valid c \<longrightarrow> aligned (Is6 (pf_ip c)) (msk (Is6 (pf_ip c)) (al_Pool ap)) c) (al_CIDRs ap))
       (sp_Allocated pools)"

lemma occupy_step_safe:
  assumes inv: "pa_inv msk (snd s)"
    and c: "prefix_valid c \<longrightarrow> aligned (Is6 (pf_ip c)) (msk (Is6 (pf_ip c)) (al_Pool ap)) c"
  shows "al_Pool ap \<in> dom (map_of (pa_pools (snd s))) \<Longrightarrow> \<exists>s'. occupy_step a ap c s = Some s' \<and> keeps msk (snd s) (snd s')"
    "occupy_step a ap c s = Some s' \<Longrightarrow> keeps msk (snd s) (snd s')"
proof -
  obtain errs p where s: "s = (errs, p)" by force
  show r: "\<exists>s'. occupy_step a ap c s = Some s' \<and> keeps msk (snd s) (snd s')" if "al_Pool ap \<in> dom (map_of (pa_pools (snd s)))"
  proof (cases "prefix_valid c")
    case True
    then have "safe_op msk (PoolAllocator_occupyCIDR a (al_Pool ap) c) p" using occupyCIDR_safe inv c s by simp
    then show ?thesis using that True by (auto simp: s occupy_step_def collect_def safe_op_def)
  next
    case False
    then show ?thesis using keeps_refl inv by (simp add: s occupy_step_def collect_def)
  qed
  assume o: "occupy_step a ap c s = Some s'"
  consider (known) "al_Pool ap \<in> dom (map_of (pa_pools (snd s)))" | (invalid) "\<not> prefix_valid c"
    | (orphan) "map_of (pa_pools p) (al_Pool ap) = None" "prefix_valid c" by (auto simp: s dom_def)
  then show "keeps msk (snd s) (snd s')"
  proof cases
    case known
    from r [OF this] o show ?thesis by simp
  next
    case invalid
    then show ?thesis using o keeps_refl [OF inv] by (auto simp: s occupy_step_def collect_def)
  next
    case orphan
    then obtain p' where p': "markOrphan a (al_Pool ap) c (al_AllowFirstIP ap) (al_AllowLastIP ap) p = Some p'" "snd s' = p'"
      using o by (auto simp: s occupy_step_def collect_def)
    then show ?thesis using orphan_keeps [OF markOrphan_inv [OF _ _ p'(1)]] inv c orphan s by auto
  qed
qed

definition occupied ::
  "string \<Rightarrow> IPAMPoolSpec \<Rightarrow> PoolAllocator \<Rightarrow> (poolError list \<times> PoolAllocator) option"
where
  "occupied a pools p = foldM (\<lambda>ap. foldM (occupy_step a ap) (al_CIDRs ap)) (sp_Allocated pools) ([], p)"

lemma occupied_safe:
  assumes inv: "pa_inv msk p" and spec: "spec_ok msk pools"
  shows "al_Pool ` set (sp_Allocated pools) \<subseteq> dom (map_of (pa_pools p)) \<Longrightarrow> \<exists>s. occupied a pools p = Some s \<and> keeps msk p (snd s)"
    "occupied a pools p = Some s \<Longrightarrow> keeps msk p (snd s)"
proof -
  have c: "prefix_valid c \<longrightarrow> aligned (Is6 (pf_ip c)) (msk (Is6 (pf_ip c)) (al_Pool ap)) c"
    if "ap \<in> set (sp_Allocated pools)" "c \<in> set (al_CIDRs ap)" for ap c
    using spec that unfolding spec_ok_def list_all_iff by blast
  show "\<exists>s. occupied a pools p = Some s \<and> keeps msk p (snd s)" if known: "al_Pool ` set (sp_Allocated pools) \<subseteq> dom (map_of (pa_pools p))"
  proof -
    have "\<exists>t'. foldM (occupy_step a ap) (al_CIDRs ap) t = Some t' \<and> keeps msk (snd t) (snd t')"
      if ap: "ap \<in> set (sp_Allocated pools)" and t: "keeps msk p (snd t)" for ap t
    proof (rule foldM_keeps)
      show "pa_inv msk (snd t)" using t by (simp add: keeps_def)
      show "\<exists>u'. occupy_step a ap x u = Some u' \<and> keeps msk (snd u) (snd u')"
        if x: "x \<in> set (al_CIDRs ap)" and u: "keeps msk (snd t) (snd u)" for x u
      proof (rule occupy_step_safe(1) [where msk = msk, OF _ c [OF ap x]])
        show "pa_inv msk (snd u)" using u by (simp add: keeps_def)
        show "al_Pool ap \<in> dom (map_of (pa_pools (snd u)))" using known ap t u by (auto simp: keeps_def)
      qed
    qed
    from foldM_keeps [where s = "([], p)", OF _ this] show ?thesis using inv by (simp add: occupied_def)
  qed
  assume o: "occupied a pools p = Some s"
  show "keeps msk p (snd s)"
    using o unfolding occupied_def
  proof (rule foldM_inv [where I = "\<lambda>t. keeps msk p (snd t)"])
    show "keeps msk p (snd ([], p))" using keeps_refl [OF inv] by simp
    fix ap t t' assume ap: "ap \<in> set (sp_Allocated pools)" "keeps msk p (snd t)" "foldM (occupy_step a ap) (al_CIDRs ap) t = Some t'"
    show "keeps msk p (snd t')"
      using ap(3,2)
    proof (rule foldM_inv [where I = "\<lambda>t. keeps msk p (snd t)"])
      show "keeps msk p (snd u')" if "x \<in> set (al_CIDRs ap)" "keeps msk p (snd u)" "occupy_step a ap x u = Some u'" for x u u'
        using keeps_trans [OF that(2) occupy_step_safe(2) [where msk = msk, OF _ c [OF ap(1) that(1)] that(3)]] that(2) by (simp add: keeps_def)
    qed
  qed
qed

lemma request_step_safe:
  assumes inv: "pa_inv msk (snd s)"
  shows "\<exists>s'. request_step a r s = Some s' \<and> keeps msk (snd s) (snd s')"
proof -
  have step: "\<exists>s'. (if b then collect (allocateCIDRs a n (family_of v) k) s else Some s) = Some s' \<and> keeps msk (snd s) (snd s')"
    if "pa_inv msk (snd s)" for b n v k and s :: "poolError list \<times> PoolAllocator"
    using collect_safe [OF allocateCIDRs_safe that] keeps_refl [OF that] by (cases s) auto
  let ?sets = "sets_of (pa_nodes (snd s)) a (rq_Pool r)" and ?c = "map_of (pa_pools (snd s)) (rq_Pool r)"
  let ?af = "case ?c of None \<Rightarrow> False | Some c \<Rightarrow> cp_allowFirstIP c" and ?al = "case ?c of None \<Rightarrow> False | Some c \<Rightarrow> cp_allowLastIP c"
  let ?k4 = "rq_IPv4Addrs r - availableAddrs (cc_v4 ?sets) ?af ?al" and ?k6 = "rq_IPv6Addrs r - availableAddrs (cc_v6 ?sets) ?af ?al"
  obtain s1 where s1: "(if pa_ipv4Enabled (snd s) then collect (allocateCIDRs a (rq_Pool r) (family_of False) ?k4) s else Some s) = Some s1"
    "keeps msk (snd s) (snd s1)" using step [OF inv] by blast
  then have "pa_inv msk (snd s1)" by (simp add: keeps_def)
  from step [OF this] obtain s2 where
    s2: "(if pa_ipv6Enabled (snd s) then collect (allocateCIDRs a (rq_Pool r) (family_of True) ?k6) s1 else Some s1) = Some s2"
    "keeps msk (snd s1) (snd s2)" by blast
  have "request_step a r s = Some s2"
    unfolding request_step_def Let_def s1(1) [unfolded family_of_def if_False] Option.bind.bind_lunit by (rule s2(1) [unfolded family_of_def if_True])
  with keeps_trans [OF s1(2) s2(2)] show ?thesis by blast
qed

lemma AllocateToNode_rest:
  assumes o: "occupied a pools p = Some s" and k: "keeps msk p (snd s)"
  shows "\<exists>s'. AllocateToNode a pools p = Some s' \<and> keeps msk p (snd s')"
proof -
  let ?r1 = "\<lambda>n. retainCIDRs a n (allocatedSet (sp_Allocated pools) n)" and ?r2 = "\<lambda>n. retainOrphanCIDRs a n (allocatedSet (sp_Allocated pools) n)"
  have inv: "pa_inv msk (snd s)" using k by (simp add: keeps_def)
  obtain s1 where s1: "foldM ?r1 (map fst (pools_of (pa_nodes (snd s)) a)) s = Some s1" "keeps msk (snd s) (snd s1)"
    using foldM_safe [OF inv, of _ ?r1] retainCIDRs_safe by blast
  then have inv1: "pa_inv msk (snd s1)" by (simp add: keeps_def)
  obtain s2 where s2: "foldM ?r2 (map fst (pools_of (pa_orphans (snd s1)) a)) s1 = Some s2" "keeps msk (snd s1) (snd s2)"
    using foldM_safe [OF inv1, of _ ?r2] retainOrphanCIDRs_safe by blast
  then have inv2: "pa_inv msk (snd s2)" by (simp add: keeps_def)
  obtain s3 where s3: "foldM (request_step a) (sp_Requested pools) s2 = Some s3" "keeps msk (snd s2) (snd s3)"
    using foldM_safe [OF inv2, of _ "request_step a"] request_step_safe by blast
  note k2 = keeps_trans [OF k keeps_trans [OF s1(2) s2(2)]]
  show ?thesis
    using o s1(1) s2(1) s3(1) k2 keeps_trans [OF k2 s3(2)] by (cases "pa_ready (snd s2)") (simp_all add: AllocateToNode_def occupied_def)
qed

lemma AllocateToNode_keeps:
  assumes inv: "pa_inv msk p" and spec: "spec_ok msk pools"
  shows "al_Pool ` set (sp_Allocated pools) \<subseteq> dom (map_of (pa_pools p)) \<Longrightarrow> AllocateToNode a pools p \<noteq> None"
    "AllocateToNode a pools p = Some (errs, p') \<Longrightarrow> keeps msk p p'"
proof -
  show "AllocateToNode a pools p \<noteq> None" if "al_Pool ` set (sp_Allocated pools) \<subseteq> dom (map_of (pa_pools p))"
    using occupied_safe(1) [OF inv spec that] AllocateToNode_rest by blast
  assume a: "AllocateToNode a pools p = Some (errs, p')"
  then obtain s where "occupied a pools p = Some s" by (auto simp: AllocateToNode_def occupied_def bind_eq_Some_conv)
  from AllocateToNode_rest [OF this occupied_safe(2) [OF inv spec this]] a show "keeps msk p p'" by simp
qed

end
