(* ===== verification/MultiPoolReach.thy ===== *)
theory MultiPoolReach
  imports MultiPoolSafe
begin

text \<open>
  Release of nodes, updates and deletions of pools keep the invariant of the multi-pool allocator; the
  reachable allocators and the exclusiveness of the CIDRs of their nodes.
\<close>

section \<open>Release of a node\<close>

text \<open>While the CIDRs of a node are released, the invariant holds without the node.\<close>

definition leaving :: "masks \<Rightarrow> string \<Rightarrow> PoolAllocator \<Rightarrow> PoolAllocator \<Rightarrow> bool" where
  "leaving msk a p q \<longleftrightarrow>
     pa_nodes q = pa_nodes p \<and> pa_inv msk (q\<lparr>pa_nodes := AList.delete a (pa_nodes p)\<rparr>)"

lemma release_step_leaving:
  assumes inv: "pa_inv msk p" and held: "d \<in> entries v (pa_nodes p) a n" and l: "leaving msk a p (snd t)"
  shows "\<exists>t'. release_step n (pool_sets v) (put_sets v) d t = Some t' \<and> leaving msk a p (snd t')"
proof -
  obtain errs q where t: "t = (errs, q)" by force
  let ?D = "AList.delete a (pa_nodes p)"
  have q: "pa_nodes q = pa_nodes p" "pa_inv msk (q\<lparr>pa_nodes := ?D\<rparr>)" using l t by (simp_all add: leaving_def)
  show ?thesis
  proof (cases "map_of (pa_pools q) n")
    case None
    then show ?thesis using l t by (simp add: release_step_def collect_def)
  next
    case (Some c)
    have "sets_ok v (msk v n) (pool_sets v c)" using inv_parts(7) [OF q(2)] Some by simp
    from releaseCIDR_ok [OF this held_aligned [OF inv held]] obtain r where r: "releaseCIDR (pool_sets v c) d = Some r"
      and o: "\<And>sets'. r = Inr sets' \<Longrightarrow> sets_step v (msk v n) (pool_sets v c) (handed_out (pool_sets v c) - {d}) sets'" by blast
    have sub: "entries v ?D b n \<subseteq> handed_out (pool_sets v c) - {d}" for b
      using inv_parts(8) [OF q(2), of n c v b] Some inv_parts(6) [OF inv, of b a v n] held
      by (cases "b = a") (auto simp: entries_delete_node)
    have comm: "(set_pool n c' q)\<lparr>pa_nodes := ?D\<rparr> = set_pool n c' (q\<lparr>pa_nodes := ?D\<rparr>)" for c' by (simp add: set_pool_def)
    have "leaving msk a p (set_pool n (put_sets v sets' c) q)" if "r = Inr sets'" for sets'
      using replace_sets(1) [OF q(2) _ o [OF that]] Some sub q(1) by (simp add: leaving_def keeps_def comm)
    then show ?thesis using Some r l t by (cases r) (simp_all add: release_step_def collect_def)
  qed
qed

lemma foldM_leaving:
  assumes "\<And>x. x \<in> set xs \<Longrightarrow> x \<in> entries v (pa_nodes p) a n" "pa_inv msk p" "leaving msk a p (snd t)"
  shows "\<exists>t'. foldM (release_step n (pool_sets v) (put_sets v)) xs t = Some t' \<and> leaving msk a p (snd t')"
  by (rule foldM_returns [of "\<lambda>t. leaving msk a p (snd t)", OF assms(3)])
    (use release_step_leaving [OF assms(2) assms(1)] in blast)

lemma pool_accessors:
  "cp_v4 = pool_sets False" "(\<lambda>sets. cp_v4_update (\<lambda>_. sets)) = put_sets False"
  "cp_v6 = pool_sets True" "(\<lambda>sets. cp_v6_update (\<lambda>_. sets)) = put_sets True"
  by (simp_all add: pool_sets_def put_sets_def fun_eq_iff)

lemma release_pool_leaving:
  assumes inv: "pa_inv msk p" and nc: "nc \<in> set (pools_of (pa_nodes p) a)" and l: "leaving msk a p (snd t)"
  shows "\<exists>t'. release_pool nc t = Some t' \<and> leaving msk a p (snd t')"
proof -
  obtain n cidrs where nc': "nc = (n, cidrs)" by force
  have e: "sets_of (pa_nodes p) a n = cidrs"
    using nc keys_ok_pools [OF inv_parts(2) [OF inv], of a] by (simp add: nc' sets_of_def)
  show ?thesis
  proof (cases "map_of (pa_pools (snd t)) n")
    case None
    then show ?thesis using l by (simp add: nc' release_pool_def)
  next
    case (Some c)
    obtain t1 where t1: "foldM (release_step n (pool_sets False) (put_sets False)) (members (cc_v4 cidrs)) t = Some t1" "leaving msk a p (snd t1)"
      using foldM_leaving [OF _ inv l, of "members (cc_v4 cidrs)" False n] e by (auto simp: entries_def family_set_def)
    obtain t2 where "foldM (release_step n (pool_sets True) (put_sets True)) (members (cc_v6 cidrs)) t1 = Some t2" "leaving msk a p (snd t2)"
      using foldM_leaving [OF _ inv t1(2), of "members (cc_v6 cidrs)" True n] e by (auto simp: entries_def family_set_def)
    then show ?thesis using Some t1(1) by (simp add: nc' release_pool_def pool_accessors)
  qed
qed

lemma ReleaseNode_inv:
  assumes inv: "pa_inv msk p"
  shows "\<exists>errs p'. ReleaseNode a p = Some (errs, p') \<and> pa_inv msk p'"
proof -
  have "pa_inv msk (p\<lparr>pa_nodes := AList.delete a (pa_nodes p)\<rparr>)"
    by (rule forget [OF inv]) (use inv_parts(2,3) [OF inv] in \<open>auto simp: entries_delete_node\<close>)
  then have l: "leaving msk a p (snd ([], p))" by (simp add: leaving_def)
  have "\<exists>t. foldM release_pool (pools_of (pa_nodes p) a) ([], p) = Some t \<and> leaving msk a p (snd t)"
    by (rule foldM_returns [of "\<lambda>t. leaving msk a p (snd t)", OF l]) (use release_pool_leaving [OF inv] in blast)
  then obtain errs q where "foldM release_pool (pools_of (pa_nodes p) a) ([], p) = Some (errs, q)" "leaving msk a p q" by auto
  then show ?thesis by (simp add: ReleaseNode_def leaving_def)
qed

section \<open>Deletion of a pool\<close>

lemma mark_all_orphans:
  assumes "foldM (\<lambda>c. markOrphan a n c af al) xs p = Some p'" "pa_inv msk p" "\<And>c. c \<in> set xs \<Longrightarrow> aligned v (msk v n) c"
  shows "orphan_step msk p p'"
  using assms(1)
proof (rule foldM_inv [where I = "orphan_step msk p"])
  show "orphan_step msk p p" using assms(2) by (simp add: orphan_step_def)
  show "orphan_step msk p t'" if "x \<in> set xs" "orphan_step msk p t" "markOrphan a n x af al t = Some t'" for x t t'
    using orphan_step_trans [OF that(2) markOrphan_inv [where msk = msk, OF _ assms(3) [OF that(1)] that(3)]] that(2) by (simp add: orphan_step_def)
qed

lemma orphan_sets_inv:
  assumes o: "orphan_sets a n sets p = Some p'" and inv: "pa_inv msk p"
    and al: "\<And>v c. c \<in> set (members (family_set v sets)) \<Longrightarrow> aligned v (msk v n) c"
  shows "orphan_step msk p p'"
proof -
  let ?mark = "\<lambda>c. markOrphan a n c (cc_allowFirstIP sets) (cc_allowLastIP sets)"
  obtain p1 where p1: "foldM ?mark (members (cc_v4 sets)) p = Some p1" "foldM ?mark (members (cc_v6 sets)) p1 = Some p'"
    using o by (auto simp: orphan_sets_def Let_def bind_eq_Some_conv)
  have s1: "orphan_step msk p p1"
    by (rule mark_all_orphans [OF p1(1) inv]) (use al [of _ False] in \<open>simp add: family_set_def\<close>)
  then have "pa_inv msk p1" by (simp add: orphan_step_def)
  then have "orphan_step msk p1 p'"
    by (rule mark_all_orphans [OF p1(2)]) (use al [of _ True] in \<open>simp add: family_set_def\<close>)
  with s1 show ?thesis by (rule orphan_step_trans)
qed

definition delete_step :: "string \<Rightarrow> string \<times> poolToCIDRs \<Rightarrow> PoolAllocator \<Rightarrow> PoolAllocator option" where
  "delete_step n = (\<lambda>(node, pools) p.
     case map_of pools n of
       None \<Rightarrow> Some p
     | Some sets \<Rightarrow>
         orphan_sets node n sets
           (p\<lparr>pa_nodes := AList.update node (AList.delete n (pools_of (pa_nodes p) node)) (pa_nodes p)\<rparr>))"

lemma delete_step_inv:
  assumes d: "delete_step n (a, pools) p = Some p'" and inv: "pa_inv msk p"
    and al: "\<And>sets v c. map_of pools n = Some sets \<Longrightarrow> c \<in> set (members (family_set v sets)) \<Longrightarrow> aligned v (msk v n) c"
  shows "pa_inv msk p' \<and> pa_pools p' = pa_pools p \<and>
    (\<forall>v b k. entries v (pa_nodes p') b k = (if b = a \<and> k = n \<and> map_of pools n \<noteq> None then {} else entries v (pa_nodes p) b k))"
proof (cases "map_of pools n")
  case None
  then show ?thesis using d inv by (simp add: delete_step_def)
next
  case (Some sets)
  let ?p1 = "p\<lparr>pa_nodes := AList.update a (AList.delete n (pools_of (pa_nodes p) a)) (pa_nodes p)\<rparr>"
  have "pa_inv msk ?p1"
    by (rule forget [OF inv]) (use inv_parts(2,3) [OF inv] in \<open>auto simp: entries_delete_pool split: if_splits\<close>)
  moreover have "orphan_sets a n sets ?p1 = Some p'" using d Some by (simp add: delete_step_def)
  ultimately have "orphan_step msk ?p1 p'" using orphan_sets_inv al [OF Some] by blast
  then show ?thesis using Some by (simp add: orphan_step_def entries_delete_pool)
qed

lemma delete_loop_inv:
  assumes "foldM (delete_step n) xs p = Some p'" "pa_inv msk p"
    and "\<And>a pools sets v c. (a, pools) \<in> set xs \<Longrightarrow> map_of pools n = Some sets \<Longrightarrow> c \<in> set (members (family_set v sets)) \<Longrightarrow>
      aligned v (msk v n) c"
  shows "pa_inv msk p' \<and> pa_pools p' = pa_pools p \<and> (\<forall>v b k. entries v (pa_nodes p') b k \<subseteq> entries v (pa_nodes p) b k) \<and>
    (\<forall>(a, pools) \<in> set xs. map_of pools n \<noteq> None \<longrightarrow> (\<forall>v. entries v (pa_nodes p') a n = {}))"
  using assms
proof (induction xs arbitrary: p)
  case (Cons x xs)
  obtain a pools where x: "x = (a, pools)" by force
  obtain p1 where p1: "delete_step n (a, pools) p = Some p1" "foldM (delete_step n) xs p1 = Some p'"
    using Cons.prems(1) by (auto simp: x bind_eq_Some_conv)
  have al: "aligned v (msk v n) c" if "map_of pools n = Some sets" "c \<in> set (members (family_set v sets))" for sets v c
    using Cons.prems(3) [of a pools] that by (simp add: x)
  have s: "pa_inv msk p1" "pa_pools p1 = pa_pools p"
    "\<And>v b k. entries v (pa_nodes p1) b k = (if b = a \<and> k = n \<and> map_of pools n \<noteq> None then {} else entries v (pa_nodes p) b k)"
    using delete_step_inv [OF p1(1) Cons.prems(2)] al by blast+
  have al': "aligned v (msk v n) c"
    if "(b, ps) \<in> set xs" "map_of ps n = Some sets" "c \<in> set (members (family_set v sets))" for b ps sets v c
    using Cons.prems(3) [of b ps] that by simp
  have "pa_inv msk p' \<and> pa_pools p' = pa_pools p1 \<and> (\<forall>v b k. entries v (pa_nodes p') b k \<subseteq> entries v (pa_nodes p1) b k) \<and>
    (\<forall>(a, pools) \<in> set xs. map_of pools n \<noteq> None \<longrightarrow> (\<forall>v. entries v (pa_nodes p') a n = {}))"
    by (rule Cons.IH [OF p1(2) s(1)]) (rule al')
  then have IH: "pa_inv msk p'" "pa_pools p' = pa_pools p1"
    "\<And>v b k. entries v (pa_nodes p') b k \<subseteq> entries v (pa_nodes p1) b k"
    "\<forall>(a, pools) \<in> set xs. map_of pools n \<noteq> None \<longrightarrow> (\<forall>v. entries v (pa_nodes p') a n = {})" by blast+
  have "entries v (pa_nodes p') a n = {}" if "map_of pools n \<noteq> None" for v using s(3) [of v a n] IH(3) [of v a n] that by simp
  moreover have "entries v (pa_nodes p') b k \<subseteq> entries v (pa_nodes p) b k" for v b k
    using s(3) [of v b k] IH(3) [of v b k] by (auto split: if_splits)
  ultimately show ?case using IH(1,2,4) s(2) x by auto
qed simp

lemma DeletePool_inv:
  assumes d: "PoolAllocator_DeletePool n p = Some (errs, p')" and inv: "pa_inv msk p"
  shows "pa_inv msk p'"
proof (cases "map_of (pa_pools p) n")
  case None
  then show ?thesis using d inv by (simp add: PoolAllocator_DeletePool_def)
next
  case (Some c)
  then obtain q where q: "foldM (delete_step n) (pa_nodes p) p = Some q" "p' = q\<lparr>pa_pools := AList.delete n (pa_pools q)\<rparr>"
    using d by (auto simp: PoolAllocator_DeletePool_def delete_step_def bind_eq_Some_conv)
  have al: "aligned v (msk v n) c"
    if "(a, pools) \<in> set (pa_nodes p)" "map_of pools n = Some sets" "c \<in> set (members (family_set v sets))" for a pools sets v c
    using held_aligned [OF inv, of c v a n] entries_in [OF inv_parts(2) [OF inv] that(1) map_of_SomeD [OF that(2)]] that(3) by (simp add: entries_def)
  have qi: "pa_inv msk q" and sub: "\<And>v b k. entries v (pa_nodes q) b k \<subseteq> entries v (pa_nodes p) b k"
    and l: "\<forall>(a, pools) \<in> set (pa_nodes p). map_of pools n \<noteq> None \<longrightarrow> (\<forall>v. entries v (pa_nodes q) a n = {})"
    using delete_loop_inv [OF q(1) inv] al by blast+
  have empty: "entries v (pa_nodes q) b n = {}" for v b
  proof (rule ccontr)
    assume "entries v (pa_nodes q) b n \<noteq> {}"
    then obtain c where "c \<in> entries v (pa_nodes p) b n" using sub by blast
    then obtain pools sets where "(b, pools) \<in> set (pa_nodes p)" "map_of pools n = Some sets" by (rule entries_found)
    with l \<open>entries v (pa_nodes q) b n \<noteq> {}\<close> show False by fastforce
  qed
  have "entries v (pa_nodes q) b k \<subseteq> handed p' v k" for v b k
    using inv_parts(5) [OF qi, of v b k] empty [of v b] by (cases "k = n") (simp_all add: q(2) handed_def delete_conv')
  then have "nodes_ok p'" using inv_parts(2,3,6) [OF qi] by (simp add: nodes_ok_def q(2))
  then show ?thesis using inv_parts(1,4) [OF qi] by (simp add: pa_inv_def q(2) pools_ok_def orphans_ok_def delete_conv')
qed

section \<open>Orphans that return\<close>

lemma unorphanCIDR_safe:
  assumes inv: "pa_inv msk p" and c: "aligned v (msk v n) c"
  shows "safe_op msk (unorphanCIDR w a n c) p"
proof -
  obtain errs p1 where p1: "PoolAllocator_occupyCIDR a n c p = Some (errs, p1)" "keeps msk p p1"
    using occupyCIDR_safe [OF inv c, of a] by (auto simp: safe_op_def)
  then have "pa_inv msk p1" by (simp add: keeps_def)
  from orphan_keeps [OF orphan_modify_inv [OF this, of a n w c]] p1 show ?thesis
    by (cases "errs = []") (auto simp: safe_op_def unorphanCIDR_def intro: keeps_trans)
qed

lemma unorphan_loop_safe:
  assumes "\<forall>c \<in> set xs. aligned v (msk v n) c" "pa_inv msk (snd t)"
  shows "\<exists>t'. foldM (unorphan_step w sets a n) xs t = Some t' \<and> keeps msk (snd t) (snd t')"
  using assms(2)
proof (rule foldM_safe)
  show "\<exists>t'. unorphan_step w sets a n c t = Some t' \<and> keeps msk (snd t) (snd t')" if "c \<in> set xs" "pa_inv msk (snd t)" for c t
  proof (cases "containsCIDR sets c")
    case True
    have "safe_op msk (unorphanCIDR w a n c) p" if "pa_inv msk p" for p using unorphanCIDR_safe [OF that] assms(1) \<open>c \<in> set xs\<close> by blast
    from collect_safe [OF this that(2)] True show ?thesis by (simp add: unorphan_step_def)
  next
    case False
    then show ?thesis using keeps_refl [OF that(2)] by (simp add: unorphan_step_def)
  qed
qed

lemma reconcile_node_safe:
  assumes al: "\<And>n sets v c. (n, sets) \<in> set cidrs \<Longrightarrow> c \<in> set (members (family_set v sets)) \<Longrightarrow> aligned v (msk v n) c"
    and inv: "pa_inv msk (snd t)"
  shows "\<exists>t'. reconcile_node k v4 v6 (a, cidrs) t = Some t' \<and> keeps msk (snd t) (snd t')"
proof -
  let ?step = "\<lambda>(name, sets) s. do {
      s' \<leftarrow> foldM (unorphan_step False v4 a name) (members (cc_v4 sets)) s;
      foldM (unorphan_step True v6 a name) (members (cc_v6 sets)) s'
    }"
  have "\<exists>t'. foldM ?step cidrs t = Some t' \<and> keeps msk (snd t) (snd t')"
    using inv
  proof (rule foldM_safe)
    fix x and s :: "poolError list \<times> PoolAllocator"
    assume x: "x \<in> set cidrs" and i: "pa_inv msk (snd s)"
    obtain n sets where ns: "x = (n, sets)" by force
    have "\<forall>c \<in> set (members (cc_v4 sets)). aligned False (msk False n) c"
      using al [of n sets _ False] x by (simp add: ns family_set_def)
    from unorphan_loop_safe [where msk = msk, OF this i] obtain s1 where
      s1: "foldM (unorphan_step False v4 a n) (members (cc_v4 sets)) s = Some s1" "keeps msk (snd s) (snd s1)" by blast
    then have i1: "pa_inv msk (snd s1)" by (simp add: keeps_def)
    have "\<forall>c \<in> set (members (cc_v6 sets)). aligned True (msk True n) c"
      using al [of n sets _ True] x by (simp add: ns family_set_def)
    from unorphan_loop_safe [where msk = msk, OF this i1] obtain s2 where
      "foldM (unorphan_step True v6 a n) (members (cc_v6 sets)) s1 = Some s2" "keeps msk (snd s1) (snd s2)" by blast
    then show "\<exists>s'. ?step x s = Some s' \<and> keeps msk (snd s) (snd s')" using s1 keeps_trans [OF s1(2)] by (simp add: ns)
  qed
  then obtain errs q where q: "foldM ?step cidrs t = Some (errs, q)" "keeps msk (snd t) q" by auto
  then have "keeps msk (snd t) (cleanupOrphans a k q)"
    using keeps_trans [OF q(2) orphan_keeps [OF cleanupOrphans_inv]] by (simp add: keeps_def)
  with q(1) show ?thesis by (simp add: reconcile_node_def)
qed

lemma reconcile_safe:
  assumes inv: "pa_inv msk p"
  shows "\<exists>errs p'. reconcileOrphanCIDRs n v4 v6 p = Some (errs, p') \<and> keeps msk p p'"
proof -
  have "\<exists>t'. foldM (reconcile_node n v4 v6) (pa_orphans p) ([], p) = Some t' \<and> keeps msk p (snd t')"
  proof (rule foldM_safe [where s = "([], p)", unfolded snd_conv, OF inv])
    fix x and t :: "poolError list \<times> PoolAllocator"
    assume x: "x \<in> set (pa_orphans p)" and t: "pa_inv msk (snd t)"
    obtain a cidrs where ac: "x = (a, cidrs)" by force
    have "aligned v (msk v k) c" if "(k, sets) \<in> set cidrs" "c \<in> set (members (family_set v sets))" for k sets v c
      using orphan_aligned [OF inv, of c v a k] entries_in [OF orphans_keys [OF inv], of a cidrs k sets] x that by (simp add: ac entries_def)
    then show "\<exists>t'. reconcile_node n v4 v6 x t = Some t' \<and> keeps msk (snd t) (snd t')"
      unfolding ac using reconcile_node_safe [OF _ t] by blast
  qed
  then show ?thesis by (simp add: reconcileOrphanCIDRs_def)
qed

section \<open>The ranges of an updated pool\<close>

text \<open>A configuration: aligned ranges without common addresses, whose text form is parsed back.\<close>

definition config_ok :: "(string \<Rightarrow> Prefix option) \<Rightarrow> (Prefix \<Rightarrow> string) \<Rightarrow> bool \<Rightarrow> int \<Rightarrow> Prefix list \<Rightarrow> bool" where
  "config_ok parse str isV6 sz cidrs \<longleftrightarrow>
     (\<forall>c \<in> set cidrs. prefix_valid c \<and> Masked c = c \<and> Is6 (pf_ip c) = isV6 \<and> pf_bits c \<le> sz \<and> sz - pf_bits c < 32 \<and>
        parse (str c) = Some c) \<and>
     (\<forall>c \<in> set cidrs. \<forall>d \<in> set cidrs. c \<noteq> d \<longrightarrow> apart c d)"

lemma new_set_ok:
  assumes c: "config_ok parse str isV6 sz cidrs" "c \<in> set cidrs" and n: "NewCIDRSet c sz = Inr s"
  shows "set_ok isV6 sz s" "cs_clusterPrefix s = c" "allocated_blocks s = {}"
proof -
  have "prefix_valid c" "Masked c = c" "Is6 (pf_ip c) = isV6" "pf_bits c \<le> sz" "sz - pf_bits c < 32"
    using c by (auto simp: config_ok_def)
  then show "set_ok isV6 sz s" "cs_clusterPrefix s = c" "allocated_blocks s = {}"
    using NewCIDRSet_inv [of c sz s] n by (auto simp: set_ok_def allocated_blocks_def)
qed

lemma contains_self: "prefix_valid c \<Longrightarrow> Prefix_Contains c (pf_ip c)"
  by (cases "pf_ip c") (auto simp: prefix_valid_def Prefix_Contains_def)

lemma NewCIDRSets_loop_ok:
  assumes c: "config_ok parse str isV6 sz cidrs"
    and "NewCIDRSets_loop parse isV6 (map str P) sz acc = Inr sets" "set P \<subseteq> set cidrs" "distinct (map cs_clusterPrefix acc)"
  shows "\<exists>new. sets = acc @ new \<and> map cs_clusterPrefix new = P \<and> list_all (set_ok isV6 sz) new \<and> handed_out new = {} \<and>
    distinct (map cs_clusterPrefix sets)"
  using assms(2-)
proof (induction P arbitrary: acc)
  case (Cons q P)
  have q: "q \<in> set cidrs" "parse (str q) = Some q" "prefix_valid q" using c Cons.prems(2) by (auto simp: config_ok_def)
  obtain s where s: "NewCIDRSet q sz = Inr s" "NewCIDRSets_loop parse isV6 (map str P) sz (acc @ [s]) = Inr sets"
    and no: "find (\<lambda>s. InRange s q) acc = None"
    using Cons.prems(1) q(2) by (auto split: option.splits if_splits sum.splits)
  note n = new_set_ok [OF c q(1) s(1)]
  have "q \<notin> set (map cs_clusterPrefix acc)" using no contains_self [OF q(3)] by (auto simp: find_None_iff InRange_def)
  then have "distinct (map cs_clusterPrefix (acc @ [s]))" using Cons.prems(3) n(2) by auto
  from Cons.IH [OF s(2) _ this] Cons.prems(2) obtain new where
    "sets = (acc @ [s]) @ new" "map cs_clusterPrefix new = P" "list_all (set_ok isV6 sz) new" "handed_out new = {}"
    "distinct (map cs_clusterPrefix sets)" by auto
  then show ?case using n by (intro exI [of _ "s # new"]) (simp add: handed_out_Cons)
qed (simp add: handed_out_def)

lemma distinct_apart:
  assumes "config_ok parse str isV6 sz cidrs" "distinct xs" "set xs \<subseteq> set cidrs"
  shows "sorted_wrt apart xs"
  using assms(2,3) by (induction xs) (use assms(1) in \<open>fastforce simp: config_ok_def\<close>)+

lemma apart_distinct: "sets_ok isV6 sz sets \<Longrightarrow> distinct (map cs_clusterPrefix sets)"
proof (induction sets)
  case (Cons s sets)
  have "prefix_valid (cs_clusterPrefix s)" using Cons.prems by (simp add: sets_ok_Cons set_ok_def cidr_inv_def blocks_ok_def)
  then show ?case using Cons contains_self by (fastforce simp: sets_ok_Cons apart_def)
qed simp

section \<open>CIDRs lost with their range\<close>

lemma foldM_reaches:
  assumes "foldM f xs s = Some t" "x \<in> set xs" "\<And>s s'. f x s = Some s' \<Longrightarrow> P s'"
    and "\<And>y s s'. y \<in> set xs \<Longrightarrow> P s \<Longrightarrow> f y s = Some s' \<Longrightarrow> P s'"
  shows "P t"
  using assms
proof (induction xs arbitrary: s)
  case (Cons y ys)
  obtain s1 where s1: "f y s = Some s1" "foldM f ys s1 = Some t" using Cons.prems(1) by (auto simp: bind_eq_Some_conv)
  show ?case
  proof (cases "x = y")
    case True
    then have "P s1" using Cons.prems(3) s1(1) by simp
    with s1(2) show ?thesis by (rule foldM_inv) (rule Cons.prems(4); simp)
  next
    case False
    then have x: "x \<in> set ys" using Cons.prems(2) by simp
    show ?thesis by (rule Cons.IH [OF s1(2) x Cons.prems(3)], assumption, rule Cons.prems(4)) simp_all
  qed
qed simp

lemma lost_loop_inv:
  assumes "lost_loop isV6 nodes old s = Some s'" "Q s"
    and step: "\<And>a pools n sets c s s'. (a, pools) \<in> set nodes \<Longrightarrow> (n, sets) \<in> set pools \<Longrightarrow> c \<in> set (members (family_set isV6 sets)) \<Longrightarrow>
      Q s \<Longrightarrow> lost_step old a n sets c s = Some s' \<Longrightarrow> Q s'"
  shows "Q s'"
  using assms(1,2) unfolding lost_loop_def
proof (rule foldM_inv)
  fix x s s' assume x: "x \<in> set nodes" "Q s"
    and f: "(case x of (node, pools) \<Rightarrow> foldM (\<lambda>(n, sets). foldM (lost_step old node n sets) (members (if isV6 then cc_v6 sets else cc_v4 sets))) pools) s = Some s'"
  obtain a pools where ap: "x = (a, pools)" by force
  show "Q s'"
    using f [unfolded ap prod.case] x(2)
  proof (rule foldM_inv)
    fix y t t' assume y: "y \<in> set pools" "Q t"
      and g: "(case y of (n, sets) \<Rightarrow> foldM (lost_step old a n sets) (members (if isV6 then cc_v6 sets else cc_v4 sets))) t = Some t'"
    obtain n sets where ns: "y = (n, sets)" by force
    show "Q t'"
      using g [unfolded ns prod.case] y(2)
      by (rule foldM_inv) (use step x(1) y(1) in \<open>auto simp: ap ns family_set_def\<close>)
  qed
qed

lemma lost_step_found:
  assumes "InRange old c" "CidrSet_IsAllocated c old = Some (Inr True)" "lost_step old a n sets c s = Some s'"
  shows "\<exists>af al. (a, n, c, af, al) \<in> set (snd s')"
  using assms by (cases s) (auto simp: lost_step_def; blast)

lemma lost_step_cases:
  assumes "lost_step old a n sets c s = Some s'"
  shows "snd s' = snd s \<or> snd s' = snd s @ [(a, n, c, cc_allowFirstIP sets, cc_allowLastIP sets)]"
proof (cases "InRange old c \<and> CidrSet_IsAllocated c old \<noteq> None")
  case True
  then obtain r where "InRange old c" "CidrSet_IsAllocated c old = Some r" by blast
  then show ?thesis using assms by (cases s; cases r) (auto simp: lost_step_def split: bool.splits)
next
  case False
  then show ?thesis using assms by (cases s) (auto simp: lost_step_def split: if_splits)
qed

lemma lost_step_grows: "lost_step old a n sets c s = Some s' \<Longrightarrow> set (snd s) \<subseteq> set (snd s')"
  using lost_step_cases by fastforce

lemma lost_loop_found:
  assumes l: "lost_loop isV6 nodes old s = Some s'" and c: "c \<in> entries isV6 nodes a n"
    and old: "InRange old c" "CidrSet_IsAllocated c old = Some (Inr True)"
  shows "\<exists>af al. (a, n, c, af, al) \<in> set (snd s')"
proof -
  obtain pools sets where p: "(a, pools) \<in> set nodes" "(n, sets) \<in> set pools" "c \<in> set (members (family_set isV6 sets))"
    by (rule entries_found [OF c])
  let ?P = "\<lambda>s. \<exists>af al. (a, n, c, af, al) \<in> set (snd (s :: poolError list \<times> lostCIDR list))"
  let ?inner = "\<lambda>b (k, sets). foldM (lost_step old b k sets) (members (family_set isV6 sets))"
  have grow: "?P t'" if "?P t" "lost_step old b k ss d t = Some t'" for b k ss d t t' using lost_step_grows [OF that(2)] that(1) by blast
  have grow1: "?P t'" if "?P t" "?inner b y t = Some t'" for b y t t'
  proof (cases y)
    case (Pair k ss)
    from that(2) [unfolded Pair prod.case] that(1) show ?thesis by (rule foldM_inv) (rule grow)
  qed
  let ?outer = "\<lambda>(b, ps). foldM (?inner b) ps"
  have grow2: "?P t'" if "?P t" "?outer y t = Some t'" for y t t'
  proof (cases y)
    case (Pair b ps)
    from that(2) [unfolded Pair prod.case] that(1) show ?thesis by (rule foldM_inv) (rule grow1)
  qed
  have hit1: "?P t'" if "?inner a (n, sets) t = Some t'" for t t'
    using that [unfolded prod.case] p(3) by (rule foldM_reaches) (rule lost_step_found [OF old], assumption, rule grow)
  have hit2: "?P t'" if "?outer (a, pools) t = Some t'" for t t'
    using that [unfolded prod.case] p(2) by (rule foldM_reaches) (rule hit1, assumption, rule grow1)
  have "foldM ?outer nodes s = Some s'" using l by (simp add: lost_loop_def family_set_def)
  then show ?thesis using p(1) by (rule foldM_reaches) (rule hit2, assumption, rule grow2)
qed

lemma lost_sound:
  assumes "foldM (lost_loop isV6 nodes) olds ([], []) = Some (errs, lost)" and k: "keys_ok nodes"
  shows "\<forall>(a, n, c, af, al) \<in> set lost. c \<in> entries isV6 nodes a n"
proof -
  let ?Q = "\<lambda>s. \<forall>(a, n, c, af, al) \<in> set (snd s). c \<in> entries isV6 nodes a n"
  have "?Q (errs, lost)"
    using assms(1)
  proof (rule foldM_inv)
    show "?Q ([], [])" by simp
    fix old s s' assume "?Q s" "lost_loop isV6 nodes old s = Some s'"
    from this(2,1) show "?Q s'"
    proof (rule lost_loop_inv)
      fix a pools n sets c t t' assume h: "(a, pools) \<in> set nodes" "(n, sets) \<in> set pools" "c \<in> set (members (family_set isV6 sets))"
        "?Q t" "lost_step old a n sets c t = Some t'"
      have "c \<in> entries isV6 nodes a n" using entries_in [OF k h(1,2)] h(3) by (simp add: entries_def)
      then show "?Q t'" using h(4) lost_step_cases [OF h(5)] by auto
    qed
  qed
  then show ?thesis by simp
qed

lemma lost_complete:
  assumes f: "foldM (lost_loop isV6 nodes) olds ([], []) = Some (errs, lost)" and c: "c \<in> entries isV6 nodes a n"
    and old: "old \<in> set olds" "InRange old c" "CidrSet_IsAllocated c old = Some (Inr True)"
  shows "\<exists>af al. (a, n, c, af, al) \<in> set lost"
proof -
  let ?P = "\<lambda>s. \<exists>af al. (a, n, c, af, al) \<in> set (snd s)"
  have "?P (errs, lost)"
    using f old(1)
  proof (rule foldM_reaches)
    show "?P s'" if "lost_loop isV6 nodes old s = Some s'" for s s' by (rule lost_loop_found [OF that c old(2,3)])
    show "?P s'" if "?P s" "lost_loop isV6 nodes y s = Some s'" for y s s'
      using that(2,1) by (rule lost_loop_inv) (use lost_step_grows in blast)
  qed
  then show ?thesis by simp
qed

lemma delete_lost_inv:
  assumes inv: "pa_inv msk p" and c: "aligned v (msk v n) c" and d: "delete_lost v (a, n, c, af, al) p = Some p'"
  shows "pa_inv msk p' \<and> pa_pools p' = pa_pools p \<and>
    (\<forall>w b k. entries w (pa_nodes p') b k = entries w (pa_nodes p) b k - (if b = a \<and> k = n \<and> w = v then {c} else {}))"
proof -
  obtain p1 where p1: "markOrphan a n c af al p = Some p1"
    "p' = p1\<lparr>pa_nodes := sets_modify a n (family_delete v c) (pa_nodes p1)\<rparr>"
    using d by (auto simp: delete_lost_def bind_eq_Some_conv)
  have o: "pa_inv msk p1" "pa_pools p1 = pa_pools p" "pa_nodes p1 = pa_nodes p"
    using markOrphan_inv [OF inv c p1(1)] by (simp_all add: orphan_step_def)
  have "pa_inv msk p'" unfolding p1(2)
    by (rule forget [OF o(1)]) (use inv_parts(2,3) [OF o(1)] in \<open>auto simp: entries_modify\<close>)
  then show ?thesis using o by (simp add: p1(2) entries_modify)
qed

lemma delete_all_lost:
  assumes "foldM (delete_lost v) lost p = Some p'" "pa_inv msk p" "\<forall>(a, n, c, af, al) \<in> set lost. aligned v (msk v n) c"
  shows "pa_inv msk p' \<and> pa_pools p' = pa_pools p \<and> (\<forall>w b k. entries w (pa_nodes p') b k \<subseteq> entries w (pa_nodes p) b k) \<and>
    (\<forall>(a, n, c, af, al) \<in> set lost. c \<notin> entries v (pa_nodes p') a n)"
  using assms
proof (induction lost arbitrary: p)
  case (Cons x lost)
  obtain a n c af al where x: "x = (a, n, c, af, al)" by (metis prod.exhaust)
  obtain p1 where p1: "delete_lost v (a, n, c, af, al) p = Some p1" "foldM (delete_lost v) lost p1 = Some p'"
    using Cons.prems(1) by (auto simp: x bind_eq_Some_conv)
  have c: "aligned v (msk v n) c" using Cons.prems(3) by (simp add: x)
  have d: "pa_inv msk p1" "pa_pools p1 = pa_pools p"
    "\<And>w b k. entries w (pa_nodes p1) b k = entries w (pa_nodes p) b k - (if b = a \<and> k = n \<and> w = v then {c} else {})"
    using delete_lost_inv [OF Cons.prems(2) c p1(1)] by blast+
  have "\<forall>(a, n, c, af, al) \<in> set lost. aligned v (msk v n) c" using Cons.prems(3) by auto
  from Cons.IH [OF p1(2) d(1) this] have IH: "pa_inv msk p'" "pa_pools p' = pa_pools p1"
    "\<And>w b k. entries w (pa_nodes p') b k \<subseteq> entries w (pa_nodes p1) b k"
    "\<forall>(a, n, c, af, al) \<in> set lost. c \<notin> entries v (pa_nodes p') a n" by blast+
  have "entries w (pa_nodes p') b k \<subseteq> entries w (pa_nodes p) b k" for w b k using IH(3) [of w b k] d(3) [of w b k] by auto
  moreover have "c \<notin> entries v (pa_nodes p') a n" using IH(3) [of v a n] d(3) [of v a n] by auto
  ultimately show ?case using IH(1,2,4) d(2) x by auto
qed simp

section \<open>Update of a pool\<close>

lemma computeNew_ok:
  assumes n: "computeNewCIDRSets parse str v prev cidrs sz p = Some (Inr (sets, lost))"
    and prev: "sets_ok v sz prev" and c: "config_ok parse str v sz cidrs"
  obtains "sets_ok v sz sets" "handed_out sets = handed_out (filter (\<lambda>s. cs_clusterPrefix s \<in> set cidrs) prev)"
    "foldM (lost_loop v (pa_nodes p)) (filter (\<lambda>s. cs_clusterPrefix s \<notin> set cidrs) prev) ([], []) = Some ([], lost)"
proof -
  let ?kept = "filter (\<lambda>s. cs_clusterPrefix s \<in> set cidrs) prev" and ?P = "filter (\<lambda>c. \<not> hasCIDR prev c) cidrs"
  have cl: "list_ex (IsClusterCIDR s) cidrs \<longleftrightarrow> cs_clusterPrefix s \<in> set cidrs" for s by (auto simp: list_ex_iff IsClusterCIDR_def)
  obtain new where new: "(if map str ?P = [] then Inr [] else NewCIDRSets parse v (map str ?P) sz) = Inr new"
    "sets = ?kept @ new"
    and l: "foldM (lost_loop v (pa_nodes p)) (filter (\<lambda>s. cs_clusterPrefix s \<notin> set cidrs) prev) ([], []) = Some ([], lost)"
    using n by (auto simp: computeNewCIDRSets_def Let_def cl bind_eq_Some_conv split: sum.splits if_splits)
  have "NewCIDRSets_loop parse v (map str ?P) sz [] = Inr new" using new(1) by (simp add: NewCIDRSets_def split: if_splits)
  from NewCIDRSets_loop_ok [OF c this] have ok: "map cs_clusterPrefix new = ?P" "list_all (set_ok v sz) new" "handed_out new = {}" "distinct ?P"
    by auto
  have "distinct (map cs_clusterPrefix ?kept)" using apart_distinct [OF prev] by (simp add: distinct_map inj_on_def)
  moreover have "set (map cs_clusterPrefix ?kept) \<inter> set ?P = {}" by (auto simp: hasCIDR_def list_ex_iff IsClusterCIDR_def)
  ultimately have "distinct (map cs_clusterPrefix ?kept @ ?P)" using ok(4) by (subst distinct_append) blast
  moreover have "set (map cs_clusterPrefix ?kept @ ?P) \<subseteq> set cidrs" by auto
  ultimately have "sorted_wrt apart (map cs_clusterPrefix sets)" using distinct_apart [OF c] unfolding new(2) map_append ok(1) by blast
  moreover have "list_all (set_ok v sz) sets" using prev ok(2) by (auto simp: sets_ok_def new(2) list_all_iff)
  ultimately have "sets_ok v sz sets" by (simp add: sets_ok_def)
  moreover have "handed_out sets = handed_out ?kept" using ok(3) by (auto simp: handed_out_def new(2))
  ultimately show ?thesis using that l by blast
qed

lemma map_sum_Inr: "map_sum g f z = Inr y \<longleftrightarrow> (\<exists>x. z = Inr x \<and> y = f x)"
  by (cases z) auto

lemma reserve_sets:
  assumes "computeRangesToReserve sets cfgs = Some (Inr bs)" "sets_ok v sz sets"
  shows "sets_step v sz sets (handed_out sets) (map2 SetReservedRanges bs sets)"
  using assms
proof (induction sets arbitrary: bs)
  case (Cons s sets)
  have sk: "cidr_inv s" "blocks_ok s" "sets_ok v sz sets" using Cons.prems(2) by (simp_all add: sets_ok_Cons set_ok_def cidr_inv_def)
  obtain ranges b bs' where b: "ComputeRangesToReserve s ranges 0 = Some (Inr b)" "computeRangesToReserve sets cfgs = Some (Inr bs')" "bs = b # bs'"
    using Cons.prems(1) by (auto simp: Let_def bind_sum_Inr map_sum_Inr)
  have "\<forall>i \<in> items b. int i < cs_maxCIDRs s" using ComputeRanges_bits [OF sk(2) b(1)] by simp
  note r = SetReservedRanges_ok [OF sk(1) this]
  let ?s = "SetReservedRanges b s"
  have same: "allocated_blocks ?s = allocated_blocks s" using r allocated_blocks_same [of s ?s] by (simp add: allocated_blocks_def [of s])
  have h: "sets_step v sz (s # sets) (allocated_blocks s \<union> handed_out sets) (?s # sets)"
    using sets_step_head [OF Cons.prems(2), of ?s] r same by simp
  then have "sets_ok v sz (?s # sets)" by (simp add: sets_step_def)
  from sets_step_tail [OF this Cons.IH [OF b(2) sk(3)]] h same b(3) show ?case by (simp add: sets_step_def handed_out_Cons)
qed (simp add: sets_step_def handed_out_def)

lemma allocated_isAllocated:
  assumes s: "set_ok v sz s" and c: "c \<in> allocated_blocks s"
  shows "CidrSet_IsAllocated c s = Some (Inr True)"
proof -
  obtain i where i: "c = block_of s i" "i \<in> items (cs_used s)" using c by (auto simp: allocated_blocks_def)
  then have "int i < cs_maxCIDRs s" using s used_index [of s] by (auto simp: set_ok_def)
  then show ?thesis using block_operations(1) [of s i] s i by (simp add: set_ok_def cidr_inv_def)
qed

text \<open>What nodes still hold after the lost CIDRs are deleted is handed out by the remaining ranges.\<close>

lemma remaining_handed_out:
  assumes inv: "pa_inv msk p" and prev: "handed p v n = handed_out prev" "sets_ok v sz prev"
    and l: "foldM (lost_loop v (pa_nodes p)) (filter (\<lambda>s. cs_clusterPrefix s \<notin> set cidrs) prev) ([], []) = Some ([], lost)"
    and m: "\<And>b. entries v m b n \<subseteq> entries v (pa_nodes p) b n" "\<forall>(a, n, c, af, al) \<in> set lost. c \<notin> entries v m a n"
  shows "entries v m b n \<subseteq> handed_out (filter (\<lambda>s. cs_clusterPrefix s \<in> set cidrs) prev)"
proof
  fix c assume c: "c \<in> entries v m b n"
  then have cp: "c \<in> entries v (pa_nodes p) b n" using m(1) by blast
  then obtain s where s: "s \<in> set prev" "c \<in> allocated_blocks s"
    using inv_parts(5) [OF inv, of v b n] prev(1) by (auto simp: handed_out_def)
  have sk: "set_ok v sz s" using prev(2) s(1) by (simp add: sets_ok_def list_all_iff)
  have "cs_clusterPrefix s \<in> set cidrs"
  proof (rule ccontr)
    assume "cs_clusterPrefix s \<notin> set cidrs"
    then have "s \<in> set (filter (\<lambda>s. cs_clusterPrefix s \<notin> set cidrs) prev)" using s(1) by simp
    from lost_complete [OF l cp this allocated_aligned(3) [OF sk s(2)] allocated_isAllocated [OF sk s(2)]] m(2) c show False by auto
  qed
  then show "c \<in> handed_out (filter (\<lambda>s. cs_clusterPrefix s \<in> set cidrs) prev)" using s by (auto simp: handed_out_def)
qed

lemma delete_both_families:
  assumes inv: "pa_inv msk p"
    and p1: "foldM (delete_lost False) l4 p = Some p1" and p2: "foldM (delete_lost True) l6 p1 = Some p2"
    and l4: "foldM (lost_loop False (pa_nodes p)) olds4 ([], []) = Some (e4, l4)"
    and l6: "foldM (lost_loop True (pa_nodes p)) olds6 ([], []) = Some (e6, l6)"
  shows "pa_inv msk p2 \<and> (\<forall>w b k. entries w (pa_nodes p2) b k \<subseteq> entries w (pa_nodes p) b k) \<and>
    (\<forall>(a, n, c, af, al) \<in> set l4. c \<notin> entries False (pa_nodes p2) a n) \<and>
    (\<forall>(a, n, c, af, al) \<in> set l6. c \<notin> entries True (pa_nodes p2) a n)"
proof -
  have lost: "\<forall>(a, n, c, af, al) \<in> set l. aligned v (msk v n) c" if "\<forall>(a, n, c, af, al) \<in> set l. c \<in> entries v (pa_nodes p) a n" for l v
    using that held_aligned [OF inv] by fast
  have d1: "pa_inv msk p1" "\<And>w b k. entries w (pa_nodes p1) b k \<subseteq> entries w (pa_nodes p) b k"
    "\<forall>(a, n, c, af, al) \<in> set l4. c \<notin> entries False (pa_nodes p1) a n"
    using delete_all_lost [OF p1 inv lost [OF lost_sound [OF l4 inv_parts(2) [OF inv]]]] by blast+
  have d2: "pa_inv msk p2" "\<And>w b k. entries w (pa_nodes p2) b k \<subseteq> entries w (pa_nodes p1) b k"
    "\<forall>(a, n, c, af, al) \<in> set l6. c \<notin> entries True (pa_nodes p2) a n"
    using delete_all_lost [OF p2 d1(1) lost [OF lost_sound [OF l6 inv_parts(2) [OF inv]]]] by blast+
  have sub: "entries w (pa_nodes p2) b k \<subseteq> entries w (pa_nodes p) b k" for w b k using d1(2) d2(2) by blast
  have "\<forall>(a, n, c, af, al) \<in> set l4. c \<notin> entries False (pa_nodes p2) a n" using d1(3) d2(2) by fast
  then show ?thesis using d2(1,3) sub by blast
qed

lemma upsert_pool_inv:
  assumes inv: "pa_inv msk p" and u: "upsert_pool n (v4, l4) r4 (v6, l6) r6 m4 m6 options p = Some (errs, p')"
    and prev: "\<And>v. handed p v n = handed_out (prev v)" "\<And>v. sets_ok v (msk v n) (prev v)"
    and new4: "computeNewCIDRSets parse str False (prev False) c4 (msk False n) p = Some (Inr (v4, l4))" "config_ok parse str False (msk False n) c4"
    and new6: "computeNewCIDRSets parse str True (prev True) c6 (msk True n) p = Some (Inr (v6, l6))" "config_ok parse str True (msk True n) c6"
    and res: "computeRangesToReserve v4 f4 = Some (Inr r4)" "computeRangesToReserve v6 f6 = Some (Inr r6)"
  shows "pa_inv msk p'"
proof -
  obtain p1 p2 where p1: "foldM (delete_lost False) l4 p = Some p1" and p2: "foldM (delete_lost True) l6 p1 = Some p2"
    and rec: "reconcileOrphanCIDRs n (map2 SetReservedRanges r4 v4) (map2 SetReservedRanges r6 v6)
      (set_pool n \<lparr>cp_v4 = map2 SetReservedRanges r4 v4, cp_v6 = map2 SetReservedRanges r6 v6, cp_v4MaskSize = m4, cp_v6MaskSize = m6,
        cp_allowFirstIP = po_allowFirstIP options, cp_allowLastIP = po_allowLastIP options\<rparr> p2) = Some (errs, p')"
    using u by (auto simp: upsert_pool_def Let_def bind_eq_Some_conv)
  let ?c = "\<lparr>cp_v4 = map2 SetReservedRanges r4 v4, cp_v6 = map2 SetReservedRanges r6 v6, cp_v4MaskSize = m4, cp_v6MaskSize = m6,
        cp_allowFirstIP = po_allowFirstIP options, cp_allowLastIP = po_allowLastIP options\<rparr>"
  obtain a4: "sets_ok False (msk False n) v4" "handed_out v4 = handed_out (filter (\<lambda>s. cs_clusterPrefix s \<in> set c4) (prev False))"
    "foldM (lost_loop False (pa_nodes p)) (filter (\<lambda>s. cs_clusterPrefix s \<notin> set c4) (prev False)) ([], []) = Some ([], l4)"
    using computeNew_ok [OF new4(1) prev(2) new4(2)] by blast
  obtain a6: "sets_ok True (msk True n) v6" "handed_out v6 = handed_out (filter (\<lambda>s. cs_clusterPrefix s \<in> set c6) (prev True))"
    "foldM (lost_loop True (pa_nodes p)) (filter (\<lambda>s. cs_clusterPrefix s \<notin> set c6) (prev True)) ([], []) = Some ([], l6)"
    using computeNew_ok [OF new6(1) prev(2) new6(2)] by blast
  have d: "pa_inv msk p2" "\<And>w b k. entries w (pa_nodes p2) b k \<subseteq> entries w (pa_nodes p) b k"
    "\<forall>(a, n, c, af, al) \<in> set l4. c \<notin> entries False (pa_nodes p2) a n" "\<forall>(a, n, c, af, al) \<in> set l6. c \<notin> entries True (pa_nodes p2) a n"
    using delete_both_families [OF inv p1 p2 a4(3) a6(3)] by blast+
  from remaining_handed_out [OF inv prev(1,2) a4(3) d(2,3)] remaining_handed_out [OF inv prev(1,2) a6(3) d(2,4)]
  have held: "entries False (pa_nodes p2) b n \<subseteq> handed_out v4" "entries True (pa_nodes p2) b n \<subseteq> handed_out v6" for b
    using a4(2) a6(2) by auto
  have r: "sets_step False (msk False n) v4 (handed_out v4) (map2 SetReservedRanges r4 v4)"
    "sets_step True (msk True n) v6 (handed_out v6) (map2 SetReservedRanges r6 v6)"
    using reserve_sets [OF res(1) a4(1)] reserve_sets [OF res(2) a6(1)] by blast+
  have "pa_inv msk (set_pool n ?c p2)"
  proof (rule replace_pool [OF d(1)])
    show "sets_ok v (msk v n) (pool_sets v ?c)" for v using r by (cases v) (simp_all add: pool_sets_def sets_step_def)
    show "entries v (pa_nodes p2) b n \<subseteq> handed_out (pool_sets v ?c)" for v b
      using r held by (cases v) (simp_all add: pool_sets_def sets_step_def)
  qed
  from reconcile_safe [OF this, of n "map2 SetReservedRanges r4 v4" "map2 SetReservedRanges r6 v6"] rec show ?thesis
    by (simp add: keeps_def)
qed

lemma bind_changed:
  "p' \<noteq> p \<Longrightarrow> (m \<bind> (\<lambda>r. case r of Inl e \<Rightarrow> Some (h e, p) | Inr x \<Rightarrow> f x)) = Some (errs, p') \<longleftrightarrow>
   (\<exists>x. m = Some (Inr x) \<and> f x = Some (errs, p'))"
  by (cases m; cases "the m") auto

lemma UpsertPool_inv:
  assumes inv: "pa_inv msk p"
    and u: "PoolAllocator_UpsertPool parse str n f4 (msk False n) f6 (msk True n) opts p = Some (errs, p')"
    and c: "config_ok parse str False (msk False n) (cidrPrefixes f4)" "config_ok parse str True (msk True n) (cidrPrefixes f6)"
  shows "pa_inv msk p'"
proof (cases "p' = p")
  case True
  then show ?thesis using inv by simp
next
  case False
  define prev where "prev v = (case map_of (pa_pools p) n of None \<Rightarrow> [] | Some c \<Rightarrow> pool_sets v c)" for v
  obtain v4 l4 v6 l6 r4 r6 options where
    n: "computeNewCIDRSets parse str False (prev False) (cidrPrefixes f4) (msk False n) p = Some (Inr (v4, l4))"
      "computeNewCIDRSets parse str True (prev True) (cidrPrefixes f6) (msk True n) p = Some (Inr (v6, l6))"
      "computeRangesToReserve v4 f4 = Some (Inr r4)" "computeRangesToReserve v6 f6 = Some (Inr r6)"
    and up: "upsert_pool n (v4, l4) r4 (v6, l6) r6 (msk False n) (msk True n) options p = Some (errs, p')"
  proof -
    have pv: "prev False = (case map_of (pa_pools p) n of None \<Rightarrow> [] | Some c \<Rightarrow> cp_v4 c)" "prev True = (case map_of (pa_pools p) n of None \<Rightarrow> [] | Some c \<Rightarrow> cp_v6 c)"
      by (simp_all add: prev_def pool_sets_def split: option.split)
    show thesis
      using u that pv False
      by (auto simp: PoolAllocator_UpsertPool_def Let_def bind_changed [OF False] split: option.splits if_splits)
  qed
  have "handed p v n = handed_out (prev v)" "sets_ok v (msk v n) (prev v)" for v
    using inv_parts(7) [OF inv] by (auto simp: prev_def handed_def handed_out_def sets_ok_def split: option.split)
  from upsert_pool_inv [OF inv up this n(1) c(1) n(2) c(2) n(3,4)] show ?thesis .
qed

section \<open>Reachable allocators\<close>

text \<open>
  Runs in which pools keep their mask sizes, the ranges of a pool have no common address and the CIDRs
  that nodes report have the mask size of their pool.  The code checks neither the ranges against the
  ones a pool already has nor the size of a reported CIDR, so these are conditions on the configuration
  and on the nodes.
\<close>

inductive pa_reach :: "(string \<Rightarrow> Prefix option) \<Rightarrow> (Prefix \<Rightarrow> string) \<Rightarrow> masks \<Rightarrow> PoolAllocator \<Rightarrow> bool" for parse str msk where
  pr_new: "pa_reach parse str msk (NewPoolAllocator enableIPv4 enableIPv6)"
| pr_ready: "pa_reach parse str msk p \<Longrightarrow> pa_reach parse str msk (RestoreFinished p)"
| pr_upsert: "pa_reach parse str msk p \<Longrightarrow>
    config_ok parse str False (msk False n) (cidrPrefixes f4) \<Longrightarrow> config_ok parse str True (msk True n) (cidrPrefixes f6) \<Longrightarrow>
    PoolAllocator_UpsertPool parse str n f4 (msk False n) f6 (msk True n) opts p = Some (errs, p') \<Longrightarrow> pa_reach parse str msk p'"
| pr_delete: "pa_reach parse str msk p \<Longrightarrow> PoolAllocator_DeletePool n p = Some (errs, p') \<Longrightarrow> pa_reach parse str msk p'"
| pr_allocate: "pa_reach parse str msk p \<Longrightarrow> spec_ok msk pools \<Longrightarrow> AllocateToNode a pools p = Some (errs, p') \<Longrightarrow>
    pa_reach parse str msk p'"
| pr_release: "pa_reach parse str msk p \<Longrightarrow> ReleaseNode a p = Some (errs, p') \<Longrightarrow> pa_reach parse str msk p'"

lemma NewPoolAllocator_inv: "pa_inv msk (NewPoolAllocator e4 e6)"
  by (simp add: NewPoolAllocator_def pa_inv_def pools_ok_def nodes_ok_def orphans_ok_def keys_ok_def non_nil_def entries_def
      sets_of_def pools_of_def)

lemma RestoreFinished_inv: "pa_inv msk p \<Longrightarrow> pa_inv msk (RestoreFinished p)"
  by (simp add: RestoreFinished_def pa_inv_def pools_ok_def nodes_ok_def orphans_ok_def handed_def)

lemma pa_reach_inv: "pa_reach parse str msk p \<Longrightarrow> pa_inv msk p"
proof (induction rule: pa_reach.induct)
  case (pr_release p a errs p')
  then show ?case using ReleaseNode_inv [of msk p a] by simp
qed (blast intro: NewPoolAllocator_inv RestoreFinished_inv UpsertPool_inv DeletePool_inv
  dest: AllocateToNode_keeps(2) [unfolded keeps_def])+

text \<open>Different blocks of the same size have no common address.\<close>

lemma aligned_apart: "aligned v sz c \<Longrightarrow> aligned v sz d \<Longrightarrow> c \<noteq> d \<Longrightarrow> apart c d"
proof (unfold apart_def, intro allI notI, elim conjE)
  fix x assume a: "aligned v sz c" "aligned v sz d" "c \<noteq> d" "Prefix_Contains c x" "Prefix_Contains d x"
  have ip: "pf_ip q = mask_addr (nat sz) x" "pf_bits q = sz" if "aligned v sz q" "Prefix_Contains q x" for q
  proof -
    have "pf_ip (Masked q) = pf_ip q" "pf_bits q = sz" "pf_bits q \<ge> 0" "pf_ip q \<noteq> AddrZero" using that(1) by (simp_all add: aligned_def prefix_valid_def)
    then show "pf_ip q = mask_addr (nat sz) x" "pf_bits q = sz" using that(2) by (simp_all add: Masked_def Prefix_Contains_def)
  qed
  have "c = d" using ip [OF a(1,4)] ip [OF a(2,5)] by (cases c; cases d) simp
  with a(3) show False by simp
qed

text \<open>
  C15.  No CIDR is assigned to two nodes, as long as every pool keeps its mask sizes, the ranges
  configured for a pool have no common address, and the CIDRs that nodes report have the mask size of
  their pool; the code enforces none of these conditions, and without the last two it can assign
  overlapping CIDRs.  In every allocator reached under these conditions by updates and deletions of
  pools, allocations to nodes and releases of nodes: the CIDRs that two nodes hold of the same pool have no
  common address; a CIDR that a node holds is of an existing pool, one of whose allocators counts it as
  allocated, so that it is not handed out again; an allocation to a node that reports CIDRs of existing
  pools returns, and so does the release of a node.
\<close>

theorem pool_allocator_exclusive:
  assumes "pa_reach parse str msk p"
  shows "(a \<noteq> b \<and> c \<in> entries v (pa_nodes p) a n \<and> d \<in> entries v (pa_nodes p) b n \<longrightarrow>
      \<not> (Prefix_Contains c x \<and> Prefix_Contains d x)) \<and>
    (c \<in> entries v (pa_nodes p) a n \<longrightarrow>
      (\<exists>pool s. map_of (pa_pools p) n = Some pool \<and> s \<in> set (pool_sets v pool) \<and> CidrSet_IsAllocated c s = Some (Inr True))) \<and>
    (spec_ok msk pools \<and> al_Pool ` set (sp_Allocated pools) \<subseteq> dom (map_of (pa_pools p)) \<longrightarrow> AllocateToNode a pools p \<noteq> None) \<and>
    ReleaseNode a p \<noteq> None"
proof (intro conjI impI)
  note inv = pa_reach_inv [OF assms]
  show "\<not> (Prefix_Contains c x \<and> Prefix_Contains d x)"
    if h: "a \<noteq> b \<and> c \<in> entries v (pa_nodes p) a n \<and> d \<in> entries v (pa_nodes p) b n"
  proof -
    have "c \<noteq> d" using inv_parts(6) [OF inv, of a b v n] h by blast
    with aligned_apart [OF held_aligned [OF inv] held_aligned [OF inv], of c v a n d b] h show ?thesis by (simp add: apart_def)
  qed
  show "\<exists>pool s. map_of (pa_pools p) n = Some pool \<and> s \<in> set (pool_sets v pool) \<and> CidrSet_IsAllocated c s = Some (Inr True)"
    if h: "c \<in> entries v (pa_nodes p) a n"
  proof -
    obtain pool s where s: "map_of (pa_pools p) n = Some pool" "s \<in> set (pool_sets v pool)" "c \<in> allocated_blocks s"
      using inv_parts(5) [OF inv, of v a n] h by (auto simp: handed_def handed_out_def split: option.splits)
    have "set_ok v (msk v n) s" using inv_parts(7) [OF inv s(1), of v] s(2) by (simp add: sets_ok_def list_all_iff)
    from allocated_isAllocated [OF this s(3)] s(1,2) show ?thesis by blast
  qed
  show "AllocateToNode a pools p \<noteq> None" if "spec_ok msk pools \<and> al_Pool ` set (sp_Allocated pools) \<subseteq> dom (map_of (pa_pools p))"
    using AllocateToNode_keeps(1) [OF inv] that by blast
  show "ReleaseNode a p \<noteq> None" using ReleaseNode_inv [OF inv, of a] by auto
qed

text \<open>A pool of four blocks, from which two nodes get one block each.\<close>

definition demo_parse :: "string \<Rightarrow> Prefix option" where
  "demo_parse s = (if s = ''10.0.0.0/22'' then Some demo_cluster else None)"

definition demo_str :: "Prefix \<Rightarrow> string" where
  "demo_str c = ''10.0.0.0/22''"

definition demo_masks :: masks where
  "demo_masks v n = (if v then 0 else 24)"

definition demo_config :: "poolCIDRConfig list" where
  "demo_config = [\<lparr>pc_cidr = demo_cluster, pc_reservedRanges = []\<rparr>]"

definition demo_spec :: IPAMPoolSpec where
  "demo_spec = \<lparr>sp_Requested = [\<lparr>rq_Pool = ''p'', rq_IPv4Addrs = 1, rq_IPv6Addrs = 0\<rparr>], sp_Allocated = []\<rparr>"

definition demo_pool :: "(poolError list \<times> PoolAllocator) option" where
  "demo_pool = PoolAllocator_UpsertPool demo_parse demo_str ''p'' demo_config 24 [] 0 [] (RestoreFinished (NewPoolAllocator True False))"

definition demo_node :: "(poolError list \<times> PoolAllocator) option" where
  "demo_node = AllocateToNode ''a'' demo_spec (snd (the demo_pool))"

definition demo_nodes :: "(poolError list \<times> PoolAllocator) option" where
  "demo_nodes = AllocateToNode ''b'' demo_spec (snd (the demo_node))"

text \<open>The addresses of the first two blocks.\<close>

definition demo_block :: "u32 \<Rightarrow> Prefix" where
  "demo_block a = \<lparr>pf_ip = Addr4 a, pf_bits = 24\<rparr>"

definition demo_holds :: "PoolAllocator \<Rightarrow> bool" where
  "demo_holds p \<longleftrightarrow>
     demo_block 0x0A000000 \<in> set (members (cc_v4 (sets_of (pa_nodes p) ''a'' ''p''))) \<and>
     demo_block 0x0A000100 \<in> set (members (cc_v4 (sets_of (pa_nodes p) ''b'' ''p'')))"

lemma demo_run: "demo_pool \<noteq> None" "demo_node \<noteq> None" "case demo_nodes of None \<Rightarrow> False | Some (errs, p) \<Rightarrow> demo_holds p"
  by code_simp+

lemma demo_config_ok: "config_ok demo_parse demo_str False 24 (cidrPrefixes demo_config)"
proof -
  have "prefix_valid demo_cluster" "Masked demo_cluster = demo_cluster" "\<not> Is6 (pf_ip demo_cluster)" "pf_bits demo_cluster \<le> 24"
    "24 - pf_bits demo_cluster < 32" by code_simp+
  then show ?thesis by (simp add: config_ok_def cidrPrefixes_def demo_config_def demo_parse_def demo_str_def)
qed

theorem pool_allocator_exclusive_witness:
  "\<exists>p. pa_reach demo_parse demo_str demo_masks p \<and> demo_holds p \<and>
     (\<forall>x. \<not> (Prefix_Contains (demo_block 0x0A000000) x \<and> Prefix_Contains (demo_block 0x0A000100) x)) \<and>
     (\<exists>pool s. map_of (pa_pools p) ''p'' = Some pool \<and> s \<in> set (pool_sets False pool) \<and>
        CidrSet_IsAllocated (demo_block 0x0A000000) s = Some (Inr True)) \<and>
     AllocateToNode ''a'' demo_spec p \<noteq> None"
proof -
  obtain e1 p1 where p1: "demo_pool = Some (e1, p1)" using demo_run(1) by auto
  obtain e2 p2 where p2: "demo_node = Some (e2, p2)" using demo_run(2) by auto
  obtain e3 p where p: "demo_nodes = Some (e3, p)" "demo_holds p" using demo_run(3) by (auto split: option.splits)
  have spec: "spec_ok demo_masks demo_spec" by (simp add: spec_ok_def demo_spec_def)
  have m: "demo_masks False ''p'' = 24" "demo_masks True ''p'' = 0" by (simp_all add: demo_masks_def)
  have r0: "pa_reach demo_parse demo_str demo_masks (RestoreFinished (NewPoolAllocator True False))" by (intro pr_ready pr_new)
  have c: "config_ok demo_parse demo_str False (demo_masks False ''p'') (cidrPrefixes demo_config)"
    "config_ok demo_parse demo_str True (demo_masks True ''p'') (cidrPrefixes [])"
    using demo_config_ok by (simp_all add: m config_ok_def cidrPrefixes_def)
  have "PoolAllocator_UpsertPool demo_parse demo_str ''p'' demo_config (demo_masks False ''p'') [] (demo_masks True ''p'') []
      (RestoreFinished (NewPoolAllocator True False)) = Some (e1, p1)" using p1 by (simp add: demo_pool_def m)
  then have "pa_reach demo_parse demo_str demo_masks p1" by (rule pr_upsert [OF r0 c])
  moreover have "AllocateToNode ''a'' demo_spec p1 = Some (e2, p2)" "AllocateToNode ''b'' demo_spec p2 = Some (e3, p)"
    using p2 [unfolded demo_node_def p1] p(1) [unfolded demo_nodes_def p2] by simp_all
  ultimately have r: "pa_reach demo_parse demo_str demo_masks p" using pr_allocate [OF pr_allocate [OF _ spec] spec] by blast
  have "demo_block 0x0A000000 \<in> entries False (pa_nodes p) ''a'' ''p''" "demo_block 0x0A000100 \<in> entries False (pa_nodes p) ''b'' ''p''"
    using p(2) by (simp_all add: demo_holds_def entries_def family_set_def)
  moreover have "al_Pool ` set (sp_Allocated demo_spec) \<subseteq> dom (map_of (pa_pools p))" by (simp add: demo_spec_def)
  ultimately show ?thesis
    using r p(2) spec pool_allocator_exclusive [OF r, of "''a''" "''b''" "demo_block 0x0A000000" False "''p''" "demo_block 0x0A000100" _ demo_spec]
    by auto
qed

end
