(* ===== verification/Spec2Isabelle.thy ===== *)
theory Spec2Isabelle
  imports BitlpmKeys PolicyKeyCover PortRange Precedence Identity RuleOrigin PassMetas EndpointPolicy LocalKeys LocalIdentity MemberSet IpAllocator CidrTrie MultiPoolReach
begin

text \<open>
  Verification of the policy engine, the identity management and the address management of Cilium.

  \<^bold>\<open>Parts.\<close>  The agent computes, for every endpoint, a map from policy keys (identity,
  direction, protocol, port prefix) to entries (precedence, proxy port).  Rules are translated to
  keys and entries, inserted one by one into an indexed map, and the datapath looks packets up in
  it by longest prefix match.  Identities stand for sets of labels; the agent allocates the ones that
  are local to the node, and keeps reference counts of the ones that are not.  The addresses of
  endpoints come from allocators: a bitmap over the addresses of a prefix, blocks of a cluster prefix,
  and pools of such blocks that the operator distributes to nodes.

  \<^bold>\<open>Conventions.\<close>  A Go struct is a record, a map an association list or a list without duplicates
  in the order of an iteration, an integer of fixed width a word of its width, the \<^verbatim>\<open>int\<close> of counters,
  lengths and offsets an unbounded integer, an error a value of a sum type
  or an element of a list of errors, and a panic the value \<^verbatim>\<open>None\<close> of an option.  Where pointers are
  shared and a change through one is seen through the other, the model has a store (\<^verbatim>\<open>LocalKeys\<close>,
  \<^verbatim>\<open>LocalIdentity\<close>, \<^verbatim>\<open>MemberSet\<close>).  Methods carry the name of their receiver where the bare name
  would be ambiguous.  Random numbers, the sort of pending changes (whose comparison is no ordering), the
  text of a prefix and the parsers of prefixes and addresses are arguments.  The file names below are relative to \<^verbatim>\<open>src/\<close>.

  \<^bold>\<open>Shared theories.\<close>  \<^verbatim>\<open>Prelude\<close> has the machine integers, \<^verbatim>\<open>math/bits\<close> and iteration with a
  callback; \<^verbatim>\<open>Words\<close> the masks of ports; \<^verbatim>\<open>GoStrings\<close> the functions of \<^verbatim>\<open>strings\<close> and
  \<^verbatim>\<open>strconv\<close>; \<^verbatim>\<open>Netip\<close> and \<^verbatim>\<open>NetipBits\<close> addresses and prefixes; \<^verbatim>\<open>Pools\<close> the contract of an
  allocator as the locale \<^verbatim>\<open>pool\<close>, with what a sequence of allocations returns, which the bitmap, the
  address range and the CIDR set interpret.

  \<^bold>\<open>Tries.\<close>  \<^verbatim>\<open>Bitlpm\<close> models \<^verbatim>\<open>pkg/container/bitlpm/trie.go\<close>.  \<^verbatim>\<open>BitlpmCorrect\<close>,
  \<^verbatim>\<open>BitlpmSearch\<close> and \<^verbatim>\<open>BitlpmTrie\<close> prove the operations correct in the locale
  \<^verbatim>\<open>bitlpm_key\<close>, which states what the trie relies on of its keys.  \<^verbatim>\<open>BitlpmKeys\<close>
  (\<^verbatim>\<open>unsigned.go\<close>) interprets it for unsigned integers, \<^verbatim>\<open>CidrTrie\<close> (\<^verbatim>\<open>cidr.go\<close>) for the prefixes
  of both address families, and \<^verbatim>\<open>PolicyKey\<close> for policy keys.  The tries refine finite maps, and a
  longest prefix match returns the most specific entry.

  \<^bold>\<open>Policy.\<close>  \<^verbatim>\<open>PolicyKey\<close>, \<^verbatim>\<open>PolicyKeyCover\<close> (\<^verbatim>\<open>pkg/policy/types/types.go\<close>): keys, and that
  the trie order, the comparisons of ports and protocols and the packets matched agree on which key is
  broader.  \<^verbatim>\<open>PolicyEntry\<close>, \<^verbatim>\<open>Precedence\<close> (\<^verbatim>\<open>entry.go\<close>, \<^verbatim>\<open>policyentry.go\<close>): the order and the
  encoding of precedences.  \<^verbatim>\<open>PortRange\<close> (\<^verbatim>\<open>portrange.go\<close>): a port range is covered exactly by its
  masked ports.  \<^verbatim>\<open>RuleOrigin\<close> (\<^verbatim>\<open>origin.go\<close>): merging of logs, through the compact set, and of rule labels,
  which loses some.  \<^verbatim>\<open>PassMetas\<close>: metadata of
  pass verdicts.  \<^verbatim>\<open>MapState\<close>, \<^verbatim>\<open>MapStateUpdate\<close> (\<^verbatim>\<open>mapstate.go\<close>): the indexed map, its
  iterations, lookup and updates; \<^verbatim>\<open>MapStateInv\<close> and \<^verbatim>\<open>MapStateInsert\<close> show that the indexes agree
  with the entries, \<^verbatim>\<open>MapStateIter\<close> what the iterations visit, \<^verbatim>\<open>MapStateVerdict\<close> and
  \<^verbatim>\<open>MapStateLookup\<close> that a lookup finds the highest precedence of all inserted rules that match, and
  \<^verbatim>\<open>MapStateChanges\<close> that recorded changes are sound and can be reverted.  The last two hold for
  policies without pass rules; \<^verbatim>\<open>MapStateChanges\<close> also shows how the pruning of pass verdicts escapes the
  record.  \<^verbatim>\<open>EndpointPolicy\<close>
  (\<^verbatim>\<open>resolve.go\<close>, \<^verbatim>\<open>types/selector.go\<close>): consumption of accumulated changes, snapshots of selectors
  and the synchronisation with a realized policy.  \<^verbatim>\<open>ProxyID\<close> (\<^verbatim>\<open>proxyid.go\<close>): round trip of
  identifiers.

  \<^bold>\<open>Identities and labels.\<close>  \<^verbatim>\<open>Identity\<close> (\<^verbatim>\<open>pkg/identity/numericidentity.go\<close>,
  \<^verbatim>\<open>pkg/policy/aggregate.go\<close>): scopes and aggregation.  \<^verbatim>\<open>Labels\<close>, \<^verbatim>\<open>LabelArrays\<close>
  (\<^verbatim>\<open>pkg/labels\<close>): parsing, sorting and merging.  \<^verbatim>\<open>LocalIdentity\<close>
  (\<^verbatim>\<open>pkg/identity/cache/local.go\<close>): the two indexes of local identities agree and the search for a free
  number ends.  \<^verbatim>\<open>IdPool\<close> (\<^verbatim>\<open>pkg/idpool\<close>): the documented life cycle of an ID, column by column,
  and the exclusiveness of leases after any operations.
  \<^verbatim>\<open>LocalKeys\<close> (\<^verbatim>\<open>pkg/allocator/localkeys.go\<close>): reference counts.  \<^verbatim>\<open>MemberSet\<close>
  (\<^verbatim>\<open>pkg/container/set\<close>): the compact set refines a set.

  \<^bold>\<open>Address management.\<close>  \<^verbatim>\<open>Bitmap\<close> (\<^verbatim>\<open>pkg/ipam/service/allocator\<close>) and \<^verbatim>\<open>IpAllocator\<close>
  (\<^verbatim>\<open>pkg/ipam/service/ipallocator\<close>): the range refines a set of addresses, and every free address can
  be allocated.  \<^verbatim>\<open>CidrSets\<close> (\<^verbatim>\<open>pkg/ipam/cidrset\<close>): blocks handed out are aligned, fresh and
  disjoint.  \<^verbatim>\<open>MultiPool\<close> (\<^verbatim>\<open>operator/pkg/ipam/allocator/multipool\<close>) models the distribution of
  blocks to nodes; \<^verbatim>\<open>MultiPoolInv\<close>, \<^verbatim>\<open>MultiPoolSafe\<close> and \<^verbatim>\<open>MultiPoolReach\<close> show for the
  allocators of a pool, for the operations of the allocator and for all runs that no two nodes hold
  overlapping CIDRs of a pool.  The runs considered keep the mask sizes of a pool, configure ranges
  without common addresses, and report CIDRs of the mask size.  The code does not enforce these
  conditions: with a new range that overlaps an old one, or with a reported CIDR larger than a block, two
  nodes can hold overlapping CIDRs.

  \<^bold>\<open>Bounds and fuel.\<close>  Descents of the tries are structural.  The search for a free block and the search for a free
  identity take as many steps as there are blocks or numbers, as the loops of the code do.  The loop
  that allocates CIDRs until enough addresses are available is a partial function in the option monad;
  it is shown to return in every reachable allocator, because every block has at least one address.
  CIDR sets are verified for fewer than $2^{32}$ blocks, beyond which the code truncates their number.

  \<^bold>\<open>Not modelled.\<close>  The rest of the repository: the datapath in C, the generated code, the
  command-line tools, and the many controllers that move data between Kubernetes, etcd, Envoy and the
  kernel, whose behaviour is input and output.  Of the packages modelled: the iteration of tries that
  runs on a heap of the standard library, printers and JSON encodings, metrics, logging and locks (the
  operations are atomic under the locks of the code), the global identity allocator (a client of a
  key-value store), the resolution of rules by the selector cache, and the handlers of node resources.
\<close>

end
